(* ===== verification/Prelude.thy ===== *)
theory Prelude
  imports Complex_Main "HOL-Library.Word"
begin

text \<open>
  Shared vocabulary of the development: the result type of fallible Rust code, the
  fixed-width arithmetic of \<^verbatim>\<open>u64\<close> that the sources spell out
  (\<^verbatim>\<open>saturating_add\<close>, \<^verbatim>\<open>saturating_mul\<close>, \<^verbatim>\<open>checked_add\<close> and the plain
  operators, which wrap in the release profile), runs of a component over a sequence of
  inputs, and the interface every stateful component implements: a step function that
  keeps an invariant. Natural numbers stand for unsigned integers; truncating subtraction
  on \<^typ>\<open>nat\<close> is exactly \<^verbatim>\<open>saturating_sub\<close>.
\<close>

section \<open>Results\<close>

text \<open>A Rust \<^verbatim>\<open>Result\<close>, with a panic as a third outcome.\<close>

datatype ('e, 'a) outcome = Ok 'a | Err 'e | Panic

fun is_ok :: "('e, 'a) outcome \<Rightarrow> bool" where
  "is_ok (Ok _) = True"
| "is_ok _ = False"

fun outcome_bind :: "('e, 'a) outcome \<Rightarrow> ('a \<Rightarrow> ('e, 'b) outcome) \<Rightarrow> ('e, 'b) outcome" where
  "outcome_bind (Ok x) f = f x"
| "outcome_bind (Err e) f = Err e"
| "outcome_bind Panic f = Panic"

text \<open>Facts that turn \<open>\<dots> = Ok y\<close> into the conditions under which the code succeeds.\<close>

named_theorems ok_iff

lemma outcome_bind_ok_iff [ok_iff]:
  "outcome_bind r f = Ok y \<longleftrightarrow> (\<exists>x. r = Ok x \<and> f x = Ok y)"
  by (cases r) auto

lemma outcome_bind_panic_iff:
  "outcome_bind r f = Panic \<longleftrightarrow> r = Panic \<or> (\<exists>x. r = Ok x \<and> f x = Panic)"
  by (cases r) auto

lemma is_ok_iff: "is_ok r \<longleftrightarrow> (\<exists>x. r = Ok x)"
  by (cases r) auto

lemma if_err_ok_iff [ok_iff]: "(if b then Err e else r) = Ok y \<longleftrightarrow> \<not> b \<and> r = Ok y"
  by simp

section \<open>Arithmetic of unsigned 64-bit integers\<close>

named_theorems u64_defs

definition u64_max :: nat where
  "u64_max = 2 ^ 64 - 1"

definition sat_add64 :: "nat \<Rightarrow> nat \<Rightarrow> nat" where
  [u64_defs]: "sat_add64 a b = min (a + b) u64_max"

definition sat_mul64 :: "nat \<Rightarrow> nat \<Rightarrow> nat" where
  [u64_defs]: "sat_mul64 a b = min (a * b) u64_max"

definition checked_add64 :: "nat \<Rightarrow> nat \<Rightarrow> nat option" where
  [u64_defs]: "checked_add64 a b = (if a + b \<le> u64_max then Some (a + b) else None)"

definition wrapping_add64 :: "nat \<Rightarrow> nat \<Rightarrow> nat" where
  [u64_defs]: "wrapping_add64 a b = (a + b) mod 2 ^ 64"

definition wrapping_sub64 :: "nat \<Rightarrow> nat \<Rightarrow> nat" where
  [u64_defs]: "wrapping_sub64 a b = (a + 2 ^ 64 - b) mod 2 ^ 64"

lemma wrapping_sub64_le [simp]:
  "b \<le> a \<Longrightarrow> a \<le> u64_max \<Longrightarrow> wrapping_sub64 a b = a - b"
  by (simp add: wrapping_sub64_def u64_max_def mod_if)

lemma wrapping_add64_small [simp]: "a + b \<le> u64_max \<Longrightarrow> wrapping_add64 a b = a + b"
  by (simp add: wrapping_add64_def u64_max_def)

lemma sat_add64_bound [simp]: "sat_add64 a b \<le> u64_max"
  by (simp add: sat_add64_def)

lemma checked_add64_Some_iff [simp]:
  "checked_add64 a b = Some c \<longleftrightarrow> c = a + b \<and> a + b \<le> u64_max"
  by (auto simp: checked_add64_def)

lemma checked_add64_None_iff [simp]: "checked_add64 a b = None \<longleftrightarrow> u64_max < a + b"
  by (auto simp: checked_add64_def)

section \<open>Floats\<close>

text \<open>
  A float that the code compares or tests but never computes with: not a number, an infinity,
  or the rational value it stands for.
\<close>

datatype f32 = NaN | PosInf | NegInf | Finite rat

type_synonym f64 = f32

fun is_finite :: "f32 \<Rightarrow> bool" where
  "is_finite (Finite _) = True"
| "is_finite _ = False"

text \<open>\<^verbatim>\<open>RangeInclusive::contains\<close>: no comparison with a NaN holds.\<close>

fun float_within :: "rat \<Rightarrow> rat \<Rightarrow> f32 \<Rightarrow> bool" where
  "float_within lo hi (Finite x) = (lo \<le> x \<and> x \<le> hi)"
| "float_within lo hi _ = False"

section \<open>Options\<close>

text \<open>\<^verbatim>\<open>Option::is_some_and\<close> and \<^verbatim>\<open>Option::get_or_insert\<close>.\<close>

definition is_some_and :: "'a option \<Rightarrow> ('a \<Rightarrow> bool) \<Rightarrow> bool" where
  "is_some_and x p = (case x of None \<Rightarrow> False | Some v \<Rightarrow> p v)"

lemma is_some_and_simps [simp]:
  "is_some_and None p = False" "is_some_and (Some v) p = p v"
  by (simp_all add: is_some_and_def)

definition get_or_insert :: "'a option \<Rightarrow> 'a \<Rightarrow> 'a option" where
  "get_or_insert x v = (case x of None \<Rightarrow> Some v | Some w \<Rightarrow> Some w)"

lemma get_or_insert_simps [simp]:
  "get_or_insert None v = Some v" "get_or_insert (Some w) v = Some w"
  by (simp_all add: get_or_insert_def)

lemma get_or_insert_not_None [simp]: "get_or_insert x v \<noteq> None"
  by (simp add: get_or_insert_def split: option.splits)

section \<open>Decimal numbers\<close>

definition digit :: "nat \<Rightarrow> char" where
  "digit n = char_of (48 + n mod 10)"

fun show_nat :: "nat \<Rightarrow> string" where
  "show_nat n = (if n < 10 then [digit n] else show_nat (n div 10) @ [digit n])"

declare show_nat.simps [simp del]

text \<open>Reading the digits back, so that different numbers print differently.\<close>

definition read_nat :: "string \<Rightarrow> nat" where
  "read_nat s = foldl (\<lambda>n c. 10 * n + (of_char c - 48)) 0 s"

lemma of_char_digit [simp]: "of_char (digit n) = 48 + n mod 10"
proof -
  have "(48 + n mod 10) mod 256 = 48 + n mod 10" by (rule mod_less) (simp add: add_mono_thms_linordered_field)
  then show ?thesis by (simp add: digit_def)
qed

lemma read_show_nat [simp]: "read_nat (show_nat n) = n"
proof (induction n rule: show_nat.induct)
  case (1 n)
  then show ?case
    by (cases "n < 10") (simp_all add: show_nat.simps [of n] read_nat_def)
qed

lemma show_nat_inject [simp]: "show_nat m = show_nat n \<longleftrightarrow> m = n"
  by (metis read_show_nat)

section \<open>Runs of a component\<close>

text \<open>
  A component is driven by a sequence of inputs. A step returns the next state and what it
  reports to its caller; \<open>run_state\<close> is the state after a sequence and \<open>run_log\<close>
  everything reported on the way, in order.
\<close>

primrec run_state :: "('s \<Rightarrow> 'i \<Rightarrow> 's \<times> 'o) \<Rightarrow> 's \<Rightarrow> 'i list \<Rightarrow> 's" where
  "run_state step s [] = s"
| "run_state step s (i # is) = run_state step (fst (step s i)) is"

primrec run_log :: "('s \<Rightarrow> 'i \<Rightarrow> 's \<times> 'o) \<Rightarrow> 's \<Rightarrow> 'i list \<Rightarrow> 'o list" where
  "run_log step s [] = []"
| "run_log step s (i # is) = snd (step s i) # run_log step (fst (step s i)) is"

lemma run_state_append [simp]:
  "run_state step s (xs @ ys) = run_state step (run_state step s xs) ys"
  by (induction xs arbitrary: s) auto

lemma run_log_append [simp]:
  "run_log step s (xs @ ys) = run_log step s xs @ run_log step (run_state step s xs) ys"
  by (induction xs arbitrary: s) auto

lemma length_run_log [simp]: "length (run_log step s is) = length is"
  by (induction "is" arbitrary: s) auto

text \<open>The states a component can be in after some sequence of inputs.\<close>

inductive reachable :: "('s \<Rightarrow> 'i \<Rightarrow> 's \<times> 'o) \<Rightarrow> 's \<Rightarrow> 's \<Rightarrow> bool" for step start where
  start: "reachable step start start"
| step: "reachable step start s \<Longrightarrow> reachable step start (fst (step s i))"

lemma reachable_run: "reachable step start s \<Longrightarrow> reachable step start (run_state step s is)"
  by (induction "is" arbitrary: s) (auto intro: reachable.step)

lemma reachable_iff_run: "reachable step start s \<longleftrightarrow> (\<exists>is. s = run_state step start is)"
proof
  assume "reachable step start s"
  then show "\<exists>is. s = run_state step start is"
  proof (induction rule: reachable.induct)
    case start
    then show ?case by (metis run_state.simps(1))
  next
    case (step s i)
    then obtain "is" where "s = run_state step start is" by blast
    then have "fst (step s i) = run_state step start (is @ [i])" by simp
    then show ?case by blast
  qed
qed (auto intro: reachable_run reachable.start)

text \<open>
  The interface of a stateful component: an invariant that holds in its start state and
  that every step keeps. What follows from it is proved once here and used by every
  component through an interpretation on its own step function.
\<close>

locale machine =
  fixes step :: "'s \<Rightarrow> 'i \<Rightarrow> 's \<times> 'o"
    and start :: 's
    and inv :: "'s \<Rightarrow> bool"
  assumes inv_start: "inv start"
    and inv_step: "inv s \<Longrightarrow> inv (fst (step s i))"
begin

lemma inv_run: "inv s \<Longrightarrow> inv (run_state step s is)"
  by (induction "is" arbitrary: s) (auto intro: inv_step)

lemma inv_run_start: "inv (run_state step start is)"
  by (rule inv_run [OF inv_start])

lemma inv_reachable: "reachable step start s \<Longrightarrow> inv s"
  by (auto simp: reachable_iff_run inv_run_start)

text \<open>A report that every step from a well-formed state satisfies is satisfied by a whole run.\<close>

lemma log_all:
  assumes "\<And>s i. inv s \<Longrightarrow> P (snd (step s i))"
  shows "inv s \<Longrightarrow> o' \<in> set (run_log step s is) \<Longrightarrow> P o'"
  by (induction "is" arbitrary: s) (auto intro: assms inv_step)

end

end
