(* ===== verification/Octets.thy ===== *)
theory Octets
  imports Prelude
begin

text \<open>
  Bytes, PCM samples and the conversions between them that the sources take from the
  standard library, and what a write to a file can do: \<^verbatim>\<open>write_all\<close> either appends
  every byte or fails after some of them have reached the file.
\<close>

unbundle bit_operations_syntax

type_synonym byte = "8 word"
type_synonym sample = "16 word"

section \<open>Integers as bytes\<close>

text \<open>\<^verbatim>\<open>u32::to_be_bytes\<close>, \<^verbatim>\<open>u32::from_be_bytes\<close>, \<^verbatim>\<open>i16::to_le_bytes\<close>
  and \<^verbatim>\<open>i16::from_le_bytes\<close>; the last two act on the bits of a sample.\<close>

definition u32_to_be_bytes :: "32 word \<Rightarrow> byte list" where
  "u32_to_be_bytes w =
     [ucast (drop_bit 24 w), ucast (drop_bit 16 w), ucast (drop_bit 8 w), ucast w]"

definition u32_from_be_bytes :: "byte \<Rightarrow> byte \<Rightarrow> byte \<Rightarrow> byte \<Rightarrow> 32 word" where
  "u32_from_be_bytes a b c d =
     push_bit 24 (ucast a) OR push_bit 16 (ucast b) OR push_bit 8 (ucast c) OR ucast d"

definition i16_to_le_bytes :: "sample \<Rightarrow> byte list" where
  "i16_to_le_bytes s = [ucast s, ucast (drop_bit 8 s)]"

definition i16_from_le_bytes :: "byte \<Rightarrow> byte \<Rightarrow> sample" where
  "i16_from_le_bytes lo hi = ucast lo OR push_bit 8 (ucast hi)"

lemma bit_byte_high [simp]: "8 \<le> n \<Longrightarrow> \<not> bit (w :: byte) n"
  by (auto dest: bit_imp_le_length)

lemma u32_from_to [simp]:
  "u32_from_be_bytes (ucast (drop_bit 24 w)) (ucast (drop_bit 16 w)) (ucast (drop_bit 8 w)) (ucast w)
     = w"
proof (rule bit_word_eqI)
  fix n
  assume "n < LENGTH(32)"
  then consider "n < 8" | k where "n = 8 + k" "k < 8" | k where "n = 16 + k" "k < 8"
    | k where "n = 24 + k" "k < 8"
    by (cases "n < 8"; cases "n < 16"; cases "n < 24")
      (auto simp: not_less le_iff_add nat_add_left_cancel_less)
  then show "bit (u32_from_be_bytes (ucast (drop_bit 24 w)) (ucast (drop_bit 16 w))
      (ucast (drop_bit 8 w)) (ucast w)) n = bit w n"
    by cases (simp_all add: u32_from_be_bytes_def bit_simps)
qed

lemma u32_to_from [simp]: "u32_to_be_bytes (u32_from_be_bytes a b c d) = [a, b, c, d]"
  unfolding u32_to_be_bytes_def u32_from_be_bytes_def
  by (auto intro!: bit_word_eqI simp: bit_simps)

lemma i16_from_to [simp]: "i16_from_le_bytes (ucast s) (ucast (drop_bit 8 s)) = s"
  unfolding i16_from_le_bytes_def by (auto intro!: bit_word_eqI simp: bit_simps)

lemma i16_to_from [simp]: "i16_to_le_bytes (i16_from_le_bytes lo hi) = [lo, hi]"
  unfolding i16_from_le_bytes_def i16_to_le_bytes_def
  by (auto intro!: bit_word_eqI simp: bit_simps)

text \<open>\<^verbatim>\<open>u32::to_le_bytes\<close> and \<^verbatim>\<open>u32::from_le_bytes\<close>.\<close>

definition u32_to_le_bytes :: "32 word \<Rightarrow> byte list" where
  "u32_to_le_bytes w = rev (u32_to_be_bytes w)"

definition u32_from_le_bytes :: "byte \<Rightarrow> byte \<Rightarrow> byte \<Rightarrow> byte \<Rightarrow> 32 word" where
  "u32_from_le_bytes a b c d = u32_from_be_bytes d c b a"

section \<open>PCM\<close>

text \<open>\<^verbatim>\<open>chunks_exact(2)\<close>: a trailing odd byte is dropped.\<close>

fun pcm_of_bytes :: "byte list \<Rightarrow> sample list" where
  "pcm_of_bytes (lo # hi # rest) = i16_from_le_bytes lo hi # pcm_of_bytes rest"
| "pcm_of_bytes _ = []"

lemma length_concat_i16 [simp]: "length (concat (map i16_to_le_bytes pcm)) = 2 * length pcm"
  by (induction pcm) (auto simp: i16_to_le_bytes_def)

lemma pcm_of_bytes_concat [simp]: "pcm_of_bytes (concat (map i16_to_le_bytes pcm)) = pcm"
  by (induction pcm) (auto simp: i16_to_le_bytes_def)

lemma i16_to_le_bytes_not_Nil [simp]: "i16_to_le_bytes s \<noteq> []"
  by (simp add: i16_to_le_bytes_def)

lemma length_pcm_of_bytes [simp]: "length (pcm_of_bytes bs) = length bs div 2"
  by (induction bs rule: pcm_of_bytes.induct) auto

lemma pcm_of_bytes_Nil_iff [simp]: "pcm_of_bytes bs = [] \<longleftrightarrow> length bs < 2"
  by (induction bs rule: pcm_of_bytes.induct) auto

lemma concat_pcm_of_bytes:
  "even (length bs) \<Longrightarrow> concat (map i16_to_le_bytes (pcm_of_bytes bs)) = bs"
  by (induction bs rule: pcm_of_bytes.induct) auto

lemma pcm_of_bytes_append [simp]:
  "pcm_of_bytes (concat (map i16_to_le_bytes pcm) @ bs) = pcm @ pcm_of_bytes bs"
  by (induction pcm) (auto simp: i16_to_le_bytes_def)

section \<open>Files\<close>

datatype io_error = InvalidData string | UnexpectedEof | AlreadyExists | NotFound | Disk

text \<open>
  A write that succeeds, or fails with this many bytes in the file. The result is the file
  and whether the call succeeded.
\<close>

datatype write_io = WriteOk | WriteFails nat

primrec write_all :: "write_io \<Rightarrow> 'a list \<Rightarrow> 'a list \<Rightarrow> 'a list \<times> bool" where
  "write_all WriteOk file bytes = (file @ bytes, True)"
| "write_all (WriteFails k) file bytes = (file @ take k bytes, False)"

lemma write_all_prefix: "\<exists>new. fst (write_all io file bytes) = file @ new"
  by (cases io) auto

end
