(* ===== verification/Frame.thy ===== *)
theory Frame
  imports Octets
begin

text \<open>
  The length-prefixed frames both ends of the speech helper's pipe exchange
  (\<^verbatim>\<open>crates/fotw-speechd-client/src/frame.rs\<close>): a 32-bit big-endian length, a kind
  byte, and a payload that is either one JSON control message or the PCM of one stream.
  A reader is the sequence of answers a \<^verbatim>\<open>Read\<close> gives: some bytes (as many of them
  as were asked for are taken, the others stay), an interruption, or a failure; the end of
  the sequence is the end of the stream. JSON serialization belongs to the serde library
  and is a parameter of \<open>encode_control\<close>.
\<close>

section \<open>Data\<close>

definition MAX_FRAME :: nat where "MAX_FRAME = 2 ^ 20"

definition MAX_CONTROL :: nat where "MAX_CONTROL = 64 * 2 ^ 10"

definition KIND_CONTROL :: byte where "KIND_CONTROL = 1"

definition KIND_AUDIO :: byte where "KIND_AUDIO = 2"

definition MAX_SAMPLES_PER_FRAME :: nat where
  "MAX_SAMPLES_PER_FRAME = (MAX_FRAME - 1 - 4) div 2"

datatype frame = Control "byte list" | Audio "32 word" "sample list"

datatype frame_error =
    Empty
  | TooLarge nat
  | ControlTooLarge nat
  | UnknownKind byte
  | BadAudio string
  | BadControl string
  | Truncated
  | Io string

lemmas frame_consts =
  MAX_FRAME_def MAX_CONTROL_def KIND_CONTROL_def KIND_AUDIO_def MAX_SAMPLES_PER_FRAME_def

section \<open>Encoding\<close>

text \<open>The \<^verbatim>\<open>expect\<close> panics when the payload does not fit a \<^verbatim>\<open>u32\<close>.\<close>

definition with_header :: "byte \<Rightarrow> byte list \<Rightarrow> (frame_error, byte list) outcome" where
  "with_header kind payload =
     (if length payload + 1 < 2 ^ 32
      then Ok (u32_to_be_bytes (of_nat (length payload + 1)) @ kind # payload)
      else Panic)"

definition encode_control ::
  "('m \<Rightarrow> string + byte list) \<Rightarrow> 'm \<Rightarrow> (frame_error, byte list) outcome" where
  "encode_control to_json message =
     (case to_json message of
        Inl e \<Rightarrow> Err (BadControl e)
      | Inr json \<Rightarrow>
          if length json > MAX_CONTROL then Err (ControlTooLarge (length json))
          else with_header KIND_CONTROL json)"

definition encode_audio :: "32 word \<Rightarrow> sample list \<Rightarrow> (frame_error, byte list) outcome" where
  "encode_audio stream pcm =
     (if pcm = [] then Err (BadAudio ''no samples'')
      else if length pcm > MAX_SAMPLES_PER_FRAME
        then Err (BadAudio ''too many samples for one frame'')
      else with_header KIND_AUDIO
             (u32_to_be_bytes stream @ concat (map i16_to_le_bytes pcm)))"

section \<open>Decoding\<close>

definition check_length :: "byte \<Rightarrow> byte \<Rightarrow> byte \<Rightarrow> byte \<Rightarrow> (frame_error, nat) outcome" where
  "check_length a b c d =
     (let len = unat (u32_from_be_bytes a b c d)
      in if len = 0 then Err Empty
         else if len > MAX_FRAME then Err (TooLarge len)
         else Ok len)"

definition decode_body :: "byte list \<Rightarrow> (frame_error, frame) outcome" where
  "decode_body body =
     (case body of
        [] \<Rightarrow> Err Empty
      | kind # payload \<Rightarrow>
          if kind = KIND_CONTROL then
            (if length payload > MAX_CONTROL then Err (ControlTooLarge (length payload))
             else Ok (Control payload))
          else if kind = KIND_AUDIO then
            (case payload of
               a # b # c # d # samples \<Rightarrow>
                 if samples = [] then Err (BadAudio ''no samples'')
                 else if length samples mod 2 \<noteq> 0 then Err (BadAudio ''odd byte count'')
                 else Ok (Audio (u32_from_be_bytes a b c d) (pcm_of_bytes samples))
             | _ \<Rightarrow> Err (BadAudio ''no stream id''))
          else Err (UnknownKind kind))"

section \<open>Reading\<close>

datatype read_event = Bytes "byte list" | Interrupted | Fault string

type_synonym reader = "read_event list"

text \<open>
  \<open>fill n eof_ok acc r\<close> has \<open>acc\<close> in the buffer of \<open>n\<close> bytes. The result carries the
  boolean the code returns and the buffer; the second component is the reader afterwards.
\<close>

fun fill :: "nat \<Rightarrow> bool \<Rightarrow> byte list \<Rightarrow> reader
    \<Rightarrow> (frame_error, bool \<times> byte list) outcome \<times> reader" where
  "fill n eof_ok acc [] =
     (if n \<le> length acc then (Ok (True, acc), [])
      else if acc = [] \<and> eof_ok then (Ok (False, acc), [])
      else (Err Truncated, []))"
| "fill n eof_ok acc (Interrupted # r) =
     (if n \<le> length acc then (Ok (True, acc), Interrupted # r)
      else fill n eof_ok acc r)"
| "fill n eof_ok acc (Fault e # r) =
     (if n \<le> length acc then (Ok (True, acc), Fault e # r)
      else (Err (Io e), r))"
| "fill n eof_ok acc (Bytes bs # r) =
     (if n \<le> length acc then (Ok (True, acc), Bytes bs # r)
      else if bs = [] then
        (if acc = [] \<and> eof_ok then (Ok (False, acc), r) else (Err Truncated, r))
      else if n - length acc < length bs then
        (Ok (True, acc @ take (n - length acc) bs), Bytes (drop (n - length acc) bs) # r)
      else fill n eof_ok (acc @ bs) r)"

definition read_frame :: "reader \<Rightarrow> (frame_error, frame option) outcome \<times> reader" where
  "read_frame r =
     (case fill 4 True [] r of
        (Ok (True, [a, b, c, d]), r') \<Rightarrow>
          (case check_length a b c d of
             Ok len \<Rightarrow>
               (case fill len False [] r' of
                  (Ok (_, body), r'') \<Rightarrow>
                    (case decode_body body of
                       Ok f \<Rightarrow> (Ok (Some f), r'') | Err e \<Rightarrow> (Err e, r'') | Panic \<Rightarrow> (Panic, r''))
                | (Err e, r'') \<Rightarrow> (Err e, r'')
                | (Panic, r'') \<Rightarrow> (Panic, r''))
           | Err e \<Rightarrow> (Err e, r')
           | Panic \<Rightarrow> (Panic, r'))
      | (Ok _, r') \<Rightarrow> (Ok None, r')
      | (Err e, r') \<Rightarrow> (Err e, r')
      | (Panic, r') \<Rightarrow> (Panic, r'))"

section \<open>What the encoders write\<close>

lemma length_u32_to_be_bytes [simp]: "length (u32_to_be_bytes w) = 4"
  by (simp add: u32_to_be_bytes_def)

lemma check_length_ok_iff [ok_iff]:
  "check_length a b c d = Ok n \<longleftrightarrow>
     n = unat (u32_from_be_bytes a b c d) \<and> 1 \<le> n \<and> n \<le> MAX_FRAME"
  by (auto simp: check_length_def Let_def)

lemma check_length_not_panic [simp]: "check_length a b c d \<noteq> Panic"
  by (simp add: check_length_def Let_def)

lemma decode_body_not_panic [simp]: "decode_body body \<noteq> Panic"
  by (auto simp: decode_body_def split: list.splits)

text \<open>The bytes an encoded frame has after its length prefix.\<close>

fun frame_body :: "frame \<Rightarrow> byte list" where
  "frame_body (Control json) = KIND_CONTROL # json"
| "frame_body (Audio stream pcm) =
     KIND_AUDIO # u32_to_be_bytes stream @ concat (map i16_to_le_bytes pcm)"

text \<open>The frames the protocol allows.\<close>

fun frame_wf :: "frame \<Rightarrow> bool" where
  "frame_wf (Control json) \<longleftrightarrow> length json \<le> MAX_CONTROL"
| "frame_wf (Audio stream pcm) \<longleftrightarrow> pcm \<noteq> [] \<and> length pcm \<le> MAX_SAMPLES_PER_FRAME"

text \<open>A frame given to the encoder of its kind, with JSON bytes passed through.\<close>

fun encode_frame :: "frame \<Rightarrow> (frame_error, byte list) outcome" where
  "encode_frame (Control json) = encode_control Inr json"
| "encode_frame (Audio stream pcm) = encode_audio stream pcm"

lemma frame_body_not_Nil [simp]: "frame_body f \<noteq> []"
  by (cases f) auto

lemma frame_body_length:
  "frame_wf f \<Longrightarrow> 1 \<le> length (frame_body f) \<and> length (frame_body f) \<le> MAX_FRAME"
  by (cases f) (auto simp: frame_consts)

lemma encode_frame_ok_iff [ok_iff]:
  "encode_frame f = Ok bytes \<longleftrightarrow>
     frame_wf f \<and> bytes = u32_to_be_bytes (of_nat (length (frame_body f))) @ frame_body f"
  by (cases f)
    (auto simp: encode_control_def encode_audio_def with_header_def frame_consts add.commute)

lemma decode_body_frame_body: "frame_wf f \<Longrightarrow> decode_body (frame_body f) = Ok f"
  by (cases f) (auto simp: decode_body_def u32_to_be_bytes_def frame_consts)

lemma even_length_short [simp]: "even (length xs) \<Longrightarrow> length xs < 2 \<longleftrightarrow> xs = []"
  by (cases xs; cases "tl xs") auto

lemma audio_payload_fits [intro]:
  "Suc (Suc (Suc (Suc (Suc (length samples))))) \<le> MAX_FRAME \<Longrightarrow>
     length samples div 2 \<le> MAX_SAMPLES_PER_FRAME"
  unfolding frame_consts by simp

lemma decode_body_ok_iff [ok_iff]:
  assumes "length body \<le> MAX_FRAME"
  shows "decode_body body = Ok f \<longleftrightarrow> frame_wf f \<and> body = frame_body f"
proof
  assume "decode_body body = Ok f"
  with assms show "frame_wf f \<and> body = frame_body f"
    by (auto simp: decode_body_def concat_pcm_of_bytes split: list.splits if_splits)
qed (auto simp: decode_body_frame_body)

section \<open>Reading a frame from any reader\<close>

text \<open>
  The specification of the reader: one frame taken from the front of a contiguous byte
  sequence, with what is left of it.
\<close>

definition parse_frame :: "byte list \<Rightarrow> (frame_error, frame option) outcome \<times> byte list" where
  "parse_frame bs =
     (case bs of
        [] \<Rightarrow> (Ok None, [])
      | a # b # c # d # rest \<Rightarrow>
          (case check_length a b c d of
             Ok len \<Rightarrow>
               if length rest < len then (Err Truncated, [])
               else (case decode_body (take len rest) of
                       Ok f \<Rightarrow> (Ok (Some f), drop len rest)
                     | Err e \<Rightarrow> (Err e, drop len rest)
                     | Panic \<Rightarrow> (Panic, drop len rest))
           | Err e \<Rightarrow> (Err e, rest)
           | Panic \<Rightarrow> (Panic, rest))
      | _ \<Rightarrow> (Err Truncated, []))"

text \<open>The bytes a reader holds, and readers that never fail and never report an early end.\<close>

fun stream_bytes :: "reader \<Rightarrow> byte list" where
  "stream_bytes [] = []"
| "stream_bytes (Bytes bs # r) = bs @ stream_bytes r"
| "stream_bytes (_ # r) = stream_bytes r"

fun healthy_reader :: "reader \<Rightarrow> bool" where
  "healthy_reader [] = True"
| "healthy_reader (Bytes bs # r) = (bs \<noteq> [] \<and> healthy_reader r)"
| "healthy_reader (Interrupted # r) = healthy_reader r"
| "healthy_reader (Fault e # r) = False"

lemma fill_healthy:
  assumes "healthy_reader r"
  shows "(if n \<le> length (acc @ stream_bytes r)
          then \<exists>r'. fill n eof_ok acc r = (Ok (True, acc @ take (n - length acc) (stream_bytes r)), r')
                 \<and> healthy_reader r' \<and> stream_bytes r' = drop (n - length acc) (stream_bytes r)
          else fill n eof_ok acc r =
                 (if acc @ stream_bytes r = [] \<and> eof_ok then Ok (False, []) else Err Truncated, []))"
  using assms
proof (induction n eof_ok acc r rule: fill.induct)
  case (4 n eof_ok acc bs r)
  show ?case
  proof (cases "n \<le> length acc \<or> n - length acc < length bs")
    case True
    with 4 show ?thesis by auto
  next
    case False
    with 4 show ?thesis by (auto simp: take_append split: if_splits)
  qed
qed auto

lemma read_frame_short:
  assumes "healthy_reader r" and "length (stream_bytes r) < 4"
  shows "read_frame r = (fst (parse_frame (stream_bytes r)), [])"
    and "snd (parse_frame (stream_bytes r)) = []"
proof -
  from assms have "fill 4 True [] r =
      (if stream_bytes r = [] then Ok (False, []) else Err Truncated, [])"
    using fill_healthy [OF assms(1), of 4 "[]" True] by simp
  moreover from assms(2) have "parse_frame (stream_bytes r) =
      (if stream_bytes r = [] then Ok None else Err Truncated, [])"
    by (auto simp: parse_frame_def split: list.splits)
  ultimately show "read_frame r = (fst (parse_frame (stream_bytes r)), [])"
    and "snd (parse_frame (stream_bytes r)) = []"
    by (auto simp: read_frame_def)
qed

lemma read_frame_long:
  assumes "healthy_reader r" and "stream_bytes r = a # b # c # d # rest"
  shows "\<exists>r'. read_frame r = (fst (parse_frame (stream_bytes r)), r') \<and> healthy_reader r'
    \<and> stream_bytes r' = snd (parse_frame (stream_bytes r))"
proof -
  from fill_healthy [OF assms(1), of 4 "[]" True] assms(2) obtain r1
    where r1: "fill 4 True [] r = (Ok (True, [a, b, c, d]), r1)" "healthy_reader r1"
      "stream_bytes r1 = rest"
    by auto
  show ?thesis
  proof (cases "check_length a b c d")
    case (Ok len)
    from fill_healthy [OF r1(2), of len "[]" False] r1(3) show ?thesis
      using r1(1) Ok assms(2)
      by (auto simp: read_frame_def parse_frame_def split: outcome.splits if_splits)
  qed (use r1 assms(2) in \<open>auto simp: read_frame_def parse_frame_def\<close>)
qed

lemma read_frame_refines:
  assumes "healthy_reader r"
  shows "\<exists>r'. read_frame r = (fst (parse_frame (stream_bytes r)), r') \<and> healthy_reader r'
    \<and> stream_bytes r' = snd (parse_frame (stream_bytes r))"
proof (cases "length (stream_bytes r) < 4")
  case True
  with read_frame_short [OF assms] show ?thesis by simp
next
  case False
  then obtain a b c d rest where "stream_bytes r = a # b # c # d # rest"
    by (auto simp: not_less numeral_eq_Suc Suc_le_length_iff)
  with assms show ?thesis by (rule read_frame_long)
qed

text \<open>Reading several frames one after the other; reading stops at the first error or end.\<close>

primrec read_frames :: "nat \<Rightarrow> reader \<Rightarrow> (frame_error, frame option) outcome list" where
  "read_frames 0 r = []"
| "read_frames (Suc n) r = (case read_frame r of (res, r') \<Rightarrow> res # read_frames n r')"

lemma parse_frame_encoded:
  assumes "encode_frame f = Ok bytes"
  shows "parse_frame (bytes @ rest) = (Ok (Some f), rest)"
proof -
  let ?w = "of_nat (length (frame_body f)) :: 32 word"
  from assms have wf: "frame_wf f" and bytes: "bytes = u32_to_be_bytes ?w @ frame_body f"
    by (auto simp: ok_iff)
  have len: "unat ?w = length (frame_body f)"
    using frame_body_length [OF wf] by (simp add: unat_of_nat frame_consts)
  show ?thesis
    using frame_body_length [OF wf] decode_body_frame_body [OF wf] len
    by (auto simp: bytes parse_frame_def u32_to_be_bytes_def check_length_def Let_def)
qed

lemma read_frame_encoded:
  assumes "encode_frame f = Ok bytes" and "healthy_reader r" and "stream_bytes r = bytes @ rest"
  shows "\<exists>r'. read_frame r = (Ok (Some f), r') \<and> healthy_reader r' \<and> stream_bytes r' = rest"
  using read_frame_refines [OF assms(2)] parse_frame_encoded [OF assms(1), of rest] assms(3)
  by simp

lemma read_frames_encoded:
  assumes "list_all2 (\<lambda>f bytes. encode_frame f = Ok bytes) fs chunks"
    and "healthy_reader r" and "stream_bytes r = concat chunks"
  shows "read_frames (Suc (length fs)) r = map (\<lambda>f. Ok (Some f)) fs @ [Ok None]"
  using assms
proof (induction fs chunks arbitrary: r rule: list_all2_induct)
  case Nil
  then have "fst (read_frame r) = Ok None"
    using read_frame_refines [of r] by (auto simp: parse_frame_def)
  then show ?case by (simp add: case_prod_beta)
next
  case (Cons f fs bytes chunks)
  from Cons.prems read_frame_encoded [OF Cons.hyps(1) Cons.prems(1), of "concat chunks"]
  obtain r' where "read_frame r = (Ok (Some f), r')" "healthy_reader r'"
    "stream_bytes r' = concat chunks"
    by auto
  with Cons.IH [of r'] show ?case by simp
qed

section \<open>Properties\<close>

text \<open>
  C22. Whatever sequence of frames the two encoders accept, a peer that receives their bytes
  concatenated, split into reads of any size and with any interruptions between them,
  reads back exactly those frames in order and then a clean end of stream.
\<close>

theorem frames_round_trip:
  assumes "list_all2 (\<lambda>f bytes. encode_frame f = Ok bytes) fs chunks"
    and "healthy_reader r" and "stream_bytes r = concat chunks"
  shows "read_frames (Suc (length fs)) r = map (\<lambda>f. Ok (Some f)) fs @ [Ok None]"
  using assms by (rule read_frames_encoded)

theorem frames_round_trip_witness:
  "read_frames 3 [Interrupted, Bytes [0, 0], Bytes [0, 7, 2, 0, 0, 0], Interrupted,
      Bytes [9, 1, 128, 0], Bytes [0, 0, 3, 1, 123, 125]]
    = [Ok (Some (Audio 9 [32769])), Ok (Some (Control [123, 125])), Ok None]"
proof -
  have enc: "list_all2 (\<lambda>f bytes. encode_frame f = Ok bytes)
      [Audio 9 [32769], Control [123, 125]]
      [[0, 0, 0, 7, 2, 0, 0, 0, 9, 1, 128], [0, 0, 0, 3, 1, 123, 125]]"
    by (simp add: encode_audio_def encode_control_def with_header_def frame_consts
        u32_to_be_bytes_def i16_to_le_bytes_def)
  show ?thesis
    using frames_round_trip [OF enc, of "[Interrupted, Bytes [0, 0], Bytes [0, 7, 2, 0, 0, 0],
      Interrupted, Bytes [9, 1, 128, 0], Bytes [0, 0, 3, 1, 123, 125]]"]
    by (simp add: numeral_eq_Suc)
qed

text \<open>
  C23. Reading one frame from a reader that neither fails nor reports an early end has
  exactly the result that parsing its bytes as one contiguous sequence has, errors
  included, and leaves exactly the bytes the parser leaves: how the stream is cut into
  reads, and how often a read is interrupted, is not observable.
\<close>

theorem read_frame_contiguous:
  assumes "healthy_reader r"
  shows "fst (read_frame r) = fst (parse_frame (stream_bytes r))
    \<and> stream_bytes (snd (read_frame r)) = snd (parse_frame (stream_bytes r))"
  using read_frame_refines [OF assms] by auto

theorem read_frame_contiguous_witness:
  "fst (read_frame [Bytes [0], Interrupted, Bytes [0, 0, 2, 9], Bytes [0, 7]])
     = Err (UnknownKind 9)
   \<and> stream_bytes (snd (read_frame [Bytes [0], Interrupted, Bytes [0, 0, 2, 9], Bytes [0, 7]])) = [7]"
  using read_frame_contiguous [of "[Bytes [0], Interrupted, Bytes [0, 0, 2, 9], Bytes [0, 7]]"]
  by (simp add: parse_frame_def check_length_def u32_from_be_bytes_def decode_body_def frame_consts)

text \<open>
  The decoder accepts one encoding of each frame: a body within the frame limit decodes
  to a frame exactly when it is the body the encoder writes for it, the frame is one the
  protocol allows, and the encoder accepts that frame without panicking.
\<close>

theorem decode_body_canonical:
  assumes "length body \<le> MAX_FRAME"
  shows "decode_body body = Ok f \<longleftrightarrow>
    encode_frame f = Ok (u32_to_be_bytes (of_nat (length body)) @ body)"
proof
  assume "decode_body body = Ok f"
  with assms show "encode_frame f = Ok (u32_to_be_bytes (of_nat (length body)) @ body)"
    by (simp add: decode_body_ok_iff encode_frame_ok_iff)
next
  assume "encode_frame f = Ok (u32_to_be_bytes (of_nat (length body)) @ body)"
  then have "frame_wf f" and "body = frame_body f"
    by (auto simp: encode_frame_ok_iff append_eq_append_conv)
  then show "decode_body body = Ok f" by (simp add: decode_body_frame_body)
qed

theorem decode_body_canonical_witness:
  "decode_body [2, 0, 0, 0, 9, 1, 128] = Ok (Audio 9 [32769])"
  using decode_body_canonical [of "[2, 0, 0, 0, 9, 1, 128]" "Audio 9 [32769]"]
  by (simp add: encode_audio_def with_header_def frame_consts u32_to_be_bytes_def
      i16_to_le_bytes_def)

end
