(* ===== verification/Shell_View.thy ===== *)
theory Shell_View
  imports Prelude "HOL-Library.Char_ord"
begin

text \<open>
  What the menu-bar shell shows, as data: \<^verbatim>\<open>crates/fotw-shell/src/clock.rs\<close> (the
  monotonic reading and the elapsed label), \<^verbatim>\<open>prompt.rs\<close> (who may start a recording
  and what a detected meeting carries) and \<^verbatim>\<open>view.rs\<close> (the pill, the menu-bar item,
  the menu and the prompt). A \<^verbatim>\<open>Duration\<close> is its number of nanoseconds, a
  \<^verbatim>\<open>String\<close> the list of its UTF-8 bytes.
\<close>

section \<open>Clock\<close>

type_synonym duration = nat

datatype monotonic = Monotonic duration

primrec as_duration :: "monotonic \<Rightarrow> duration" where
  "as_duration (Monotonic d) = d"

definition from_secs :: "nat \<Rightarrow> monotonic" where
  "from_secs secs = Monotonic (secs * 10 ^ 9)"

text \<open>\<^verbatim>\<open>Duration::saturating_sub\<close> is subtraction of natural numbers.\<close>

definition since :: "monotonic \<Rightarrow> monotonic \<Rightarrow> duration" where
  "since self earlier = as_duration self - as_duration earlier"

text \<open>The two-digit field \<^verbatim>\<open>{:02}\<close>.\<close>

definition show_pad2 :: "nat \<Rightarrow> string" where
  "show_pad2 n = (if n < 10 then ''0'' @ show_nat n else show_nat n)"

definition format_elapsed :: "duration \<Rightarrow> string" where
  "format_elapsed elapsed =
     (let total = elapsed div 10 ^ 9;
          hours = total div 3600;
          minutes = (total mod 3600) div 60;
          seconds = total mod 60
      in if hours = 0 then show_pad2 minutes @ '':'' @ show_pad2 seconds
         else show_nat hours @ '':'' @ show_pad2 minutes @ '':'' @ show_pad2 seconds)"

section \<open>Who may start a recording\<close>

datatype start_origin = OriginMenu | OriginHotkey | OriginWebUi | OriginDetectionPrompt | OriginCli

fun origin_label :: "start_origin \<Rightarrow> string" where
  "origin_label OriginMenu = ''menu''"
| "origin_label OriginHotkey = ''hotkey''"
| "origin_label OriginWebUi = ''web-ui''"
| "origin_label OriginDetectionPrompt = ''detection-prompt''"
| "origin_label OriginCli = ''cli''"

record detected_meeting =
  app_key :: string
  app_name :: string
  evidence :: string
  title :: "string option"
  consent_notice :: string
  requires_acknowledgement :: bool

definition em_dash :: string where
  "em_dash = [CHR 0xE2, CHR 0x80, CHR 0x94]"

definition ellipsis :: string where
  "ellipsis = [CHR 0xE2, CHR 0x80, CHR 0xA6]"

definition headline :: "detected_meeting \<Rightarrow> string" where
  "headline m =
     (case title m of
        Some t \<Rightarrow> ''Meeting detected '' @ em_dash @ '' '' @ t @ '' ('' @ app_name m @ ''). Record?''
      | None \<Rightarrow> app_name m @ '' meeting detected. Record?'')"

datatype prompt_choice = ChooseStart bool | NotNow | NeverForThisApp

datatype detection_update = Armed detected_meeting | Cleared

section \<open>What is on screen\<close>

datatype level = Level rat

definition SILENT :: level where
  "SILENT = Level 0"

fun level_new :: "f32 \<Rightarrow> level" where
  "level_new NaN = SILENT"
| "level_new PosInf = Level 1"
| "level_new NegInf = Level 0"
| "level_new (Finite v) = Level (if v < 0 then 0 else if v > 1 then 1 else v)"

datatype tone = TonePreparing | ToneLive | ToneFinishing | ToneSaved | ToneFault

record pill_view =
  elapsed :: duration
  elapsed_label :: string
  status_label :: string
  pill_level :: level
  level_available :: bool
  detail :: string
  pill_tone :: tone
  stop_enabled :: bool

definition pill_accessibility_label :: "pill_view \<Rightarrow> string" where
  "pill_accessibility_label p =
     status_label p @ '' '' @ em_dash @ '' '' @ elapsed_label p
       @ (if detail p = [] then [] else ''. '' @ detail p)"

datatype tray_state = TrayPreparing | TrayIdle | TrayRecording | TrayFinishing | TrayFault

record tray_view =
  tray_state :: tray_state
  tray_title :: "string option"
  tooltip :: string

record menu_button =
  label :: string
  enabled :: bool

record menu_model =
  status :: string
  record_row :: menu_button
  notes_row :: menu_button
  disclosure_row :: menu_button
  settings_row :: menu_button
  about_row :: menu_button
  quit_row :: menu_button

definition menu_build :: "menu_button \<Rightarrow> string \<Rightarrow> menu_model" where
  "menu_build rec st =
     \<lparr>status = st, record_row = rec,
      notes_row = \<lparr>label = ''Open Notes'', enabled = True\<rparr>,
      disclosure_row = \<lparr>label = ''Disclosure Kit'' @ ellipsis, enabled = True\<rparr>,
      settings_row = \<lparr>label = ''Settings'' @ ellipsis, enabled = True\<rparr>,
      about_row = \<lparr>label = ''About FlyOnTheWall'', enabled = True\<rparr>,
      quit_row = \<lparr>label = ''Quit FlyOnTheWall'', enabled = True\<rparr>\<rparr>"

datatype menu_action =
  ToggleRecording | MenuOpenNotes | DisclosureKit | MenuSettings | MenuAbout | MenuQuit

fun menu_button_of :: "menu_model \<Rightarrow> menu_action \<Rightarrow> menu_button" where
  "menu_button_of m ToggleRecording = record_row m"
| "menu_button_of m MenuOpenNotes = notes_row m"
| "menu_button_of m DisclosureKit = disclosure_row m"
| "menu_button_of m MenuSettings = settings_row m"
| "menu_button_of m MenuAbout = about_row m"
| "menu_button_of m MenuQuit = quit_row m"

fun action_id :: "menu_action \<Rightarrow> string" where
  "action_id ToggleRecording = ''fotw.record''"
| "action_id MenuOpenNotes = ''fotw.notes''"
| "action_id DisclosureKit = ''fotw.disclosure''"
| "action_id MenuSettings = ''fotw.settings''"
| "action_id MenuAbout = ''fotw.about''"
| "action_id MenuQuit = ''fotw.quit''"

definition all_actions :: "menu_action list" where
  "all_actions =
     [ToggleRecording, MenuOpenNotes, DisclosureKit, MenuSettings, MenuAbout, MenuQuit]"

definition action_from_id :: "string \<Rightarrow> menu_action option" where
  "action_from_id i = find (\<lambda>a. action_id a = i) all_actions"

record prompt_view =
  pv_app_key :: string
  pv_headline :: string
  pv_evidence :: string
  pv_consent_notice :: string
  pv_requires_acknowledgement :: bool
  pv_acknowledged :: bool
  start_enabled :: bool
  start_label :: string
  not_now_label :: string
  never_label :: string
  acknowledge_label :: string

definition prompt_accessibility_label :: "prompt_view \<Rightarrow> string" where
  "prompt_accessibility_label p =
     pv_headline p @ '' '' @ pv_evidence p
       @ (if pv_consent_notice p = [] then [] else '' '' @ pv_consent_notice p)"

record shell_view =
  pill :: "pill_view option"
  tray :: tray_view
  menu :: menu_model
  prompt_shown :: "prompt_view option"

section \<open>The elapsed label can be read back\<close>

lemma length_show_pad2:
  assumes "n < 100"
  shows "length (show_pad2 n) = 2"
proof -
  from assms have "n div 10 < 10" by simp
  then show ?thesis
    by (simp add: show_pad2_def show_nat.simps [of n] show_nat.simps [of "n div 10"])
qed

lemma action_from_id_inverse: "action_from_id (action_id a) = Some a"
  by (cases a) (simp_all add: action_from_id_def all_actions_def)

end
