(* ===== verification/Shell_Core.thy ===== *)
theory Shell_Core
  imports Shell_View
begin

text \<open>
  The shell's state machine (\<^verbatim>\<open>crates/fotw-shell/src/state.rs\<close>): where a recording
  session is, whether capture is commanded to run, the armed detection prompt and its
  acknowledgement. \<open>handle\<close> is the whole of \<^verbatim>\<open>ShellCore::handle\<close>, and \<open>view\<close> what the
  renderer paints. The properties are the three consent requirements the code is arranged
  around: capture starts only from a person's action and is audited first (CON-01), the
  indicator is up while capture is live (CON-02), and a blocking jurisdiction warning
  cannot be passed without an acknowledgement (CON-05).
\<close>

section \<open>State\<close>

definition FINISHED_LINGER :: duration where
  "FINISHED_LINGER = 4 * 10 ^ 9"

datatype phase =
    Idle
  | Recording monotonic duration
  | Finishing duration
  | Finished duration monotonic
  | Faulted duration string

fun is_idle :: "phase \<Rightarrow> bool" where
  "is_idle Idle = True"
| "is_idle _ = False"

fun is_recording :: "phase \<Rightarrow> bool" where
  "is_recording (Recording _ _) = True"
| "is_recording _ = False"

fun is_finished :: "phase \<Rightarrow> bool" where
  "is_finished (Finished _ _) = True"
| "is_finished _ = False"

fun phase_elapsed :: "phase \<Rightarrow> duration" where
  "phase_elapsed Idle = 0"
| "phase_elapsed (Recording _ e) = e"
| "phase_elapsed (Finishing e) = e"
| "phase_elapsed (Finished e _) = e"
| "phase_elapsed (Faulted e _) = e"

datatype shell_input =
    Start monotonic start_origin
  | Tick monotonic
  | LevelMeasured level
  | StopRequested
  | StopCompleted monotonic
  | CaptureFailed string
  | Dismiss
  | MeetingDetected monotonic detected_meeting
  | DetectionCleared
  | PromptResponse monotonic prompt_choice
  | PromptAcknowledged bool

datatype shell_effect =
    AuditStart start_origin
  | StartCapture
  | StopCapture
  | StartTicking
  | StopTicking
  | OpenNotes
  | OpenDisclosureKit
  | OpenSettings
  | OpenAbout
  | Quit
  | SnoozeDetection
  | SuppressApp string

record shell_core =
  phase :: phase
  level :: level
  prompt :: "detected_meeting option"
  acknowledged :: bool
  capture :: bool
  ticking :: bool

definition shell_new :: shell_core where
  "shell_new = \<lparr>phase = Idle, level = SILENT, prompt = None, acknowledged = False,
     capture = False, ticking = False\<rparr>"

section \<open>Transitions\<close>

fun next_phase :: "phase \<Rightarrow> shell_input \<Rightarrow> phase" where
  "next_phase Idle (Start t _) = Recording t 0"
| "next_phase (Finished _ _) (Start t _) = Recording t 0"
| "next_phase (Faulted _ _) (Start t _) = Recording t 0"
| "next_phase (Recording started e) (Tick now) = Recording started (max e (since now started))"
| "next_phase (Finished e t) (Tick now) =
     (if since now t \<ge> FINISHED_LINGER then Idle else Finished e t)"
| "next_phase (Recording _ e) StopRequested = Finishing e"
| "next_phase (Recording _ e) (StopCompleted t) = Finished e t"
| "next_phase (Finishing e) (StopCompleted t) = Finished e t"
| "next_phase (Recording _ e) (CaptureFailed reason) = Faulted e reason"
| "next_phase (Finishing e) (CaptureFailed reason) = Faulted e reason"
| "next_phase (Finished _ _) Dismiss = Idle"
| "next_phase (Faulted _ _) Dismiss = Idle"
| "next_phase p _ = p"

definition withdraw_prompt :: "shell_core \<Rightarrow> shell_core" where
  "withdraw_prompt c = c\<lparr>prompt := None, acknowledged := False\<rparr>"

text \<open>The three edges of \<^verbatim>\<open>transition\<close>: capture, ticks, and the level meter.\<close>

definition capture_edge ::
  "shell_core \<Rightarrow> start_origin option \<Rightarrow> shell_core \<times> shell_effect list" where
  "capture_edge c origin =
     (let want = is_recording (phase c)
      in if want \<and> \<not> capture c then
           (c\<lparr>capture := True\<rparr>,
            (case origin of Some orig \<Rightarrow> [AuditStart orig] | None \<Rightarrow> []) @ [StartCapture])
         else if \<not> want \<and> capture c then
           (c\<lparr>capture := False\<rparr>, if is_finished (phase c) then [] else [StopCapture])
         else (c, []))"

definition tick_edge :: "shell_core \<Rightarrow> shell_core \<times> shell_effect list" where
  "tick_edge c =
     (let want = \<not> is_idle (phase c)
      in if want \<noteq> ticking c then
           (c\<lparr>ticking := want\<rparr>, [if want then StartTicking else StopTicking])
         else (c, []))"

definition transition ::
  "shell_core \<Rightarrow> phase \<Rightarrow> start_origin option \<Rightarrow> shell_core \<times> shell_effect list" where
  "transition c next origin =
     (let c0 = c\<lparr>phase := next\<rparr>;
          c1 = (if is_idle next then c0 else withdraw_prompt c0);
          (c2, e2) = capture_edge c1 origin;
          (c3, e3) = tick_edge c2;
          c4 = (if is_recording next then c3 else c3\<lparr>level := SILENT\<rparr>)
      in (c4, e2 @ e3))"

definition answer_prompt ::
  "shell_core \<Rightarrow> prompt_choice \<Rightarrow> monotonic \<Rightarrow> shell_core \<times> shell_effect list" where
  "answer_prompt c choice t =
     (case prompt c of
        None \<Rightarrow> (c, [])
      | Some meeting \<Rightarrow>
          (case choice of
             ChooseStart ack \<Rightarrow>
               if requires_acknowledgement meeting \<and> \<not> (ack \<or> acknowledged c) then (c, [])
               else (let c1 = withdraw_prompt c; origin = OriginDetectionPrompt
                     in transition c1 (next_phase (phase c1) (Start t origin)) (Some origin))
           | NotNow \<Rightarrow> (withdraw_prompt c, [SnoozeDetection])
           | NeverForThisApp \<Rightarrow> (withdraw_prompt c, [SuppressApp (app_key meeting)])))"

text \<open>A direct start while a blocking warning is pending and unacknowledged is refused.\<close>

definition start_blocked :: "shell_core \<Rightarrow> bool" where
  "start_blocked c \<longleftrightarrow> is_some_and (prompt c) requires_acknowledgement \<and> \<not> acknowledged c"

definition handle :: "shell_core \<Rightarrow> shell_input \<Rightarrow> shell_core \<times> shell_effect list" where
  "handle c input =
     (case input of
        LevelMeasured l \<Rightarrow> (if is_recording (phase c) then c\<lparr>level := l\<rparr> else c, [])
      | MeetingDetected _ meeting \<Rightarrow>
          (if is_idle (phase c)
           then (if prompt c \<noteq> Some meeting then c\<lparr>acknowledged := False\<rparr> else c)\<lparr>prompt := Some meeting\<rparr>
           else c, [])
      | DetectionCleared \<Rightarrow> (withdraw_prompt c, [])
      | PromptResponse t choice \<Rightarrow> answer_prompt c choice t
      | PromptAcknowledged b \<Rightarrow> (if prompt c \<noteq> None then c\<lparr>acknowledged := b\<rparr> else c, [])
      | Start _ origin \<Rightarrow>
          (if start_blocked c then (c, [])
           else transition c (next_phase (phase c) input) (Some origin))
      | _ \<Rightarrow> transition c (next_phase (phase c) input) None)"

definition toggle ::
  "shell_core \<Rightarrow> monotonic \<Rightarrow> start_origin \<Rightarrow> shell_core \<times> shell_effect list" where
  "toggle c now origin =
     (case phase c of
        Recording _ _ \<Rightarrow> handle c StopRequested
      | Finishing _ \<Rightarrow> (c, [])
      | _ \<Rightarrow> handle c (Start now origin))"

section \<open>Rendering\<close>

definition pill_of :: "shell_core \<Rightarrow> pill_view option" where
  "pill_of c =
     (let mk = (\<lambda>lbl tn stop. Some
          \<lparr>elapsed = phase_elapsed (phase c),
           elapsed_label = format_elapsed (phase_elapsed (phase c)),
           status_label = lbl, pill_level = level c, level_available = True,
           detail = [], pill_tone = tn, stop_enabled = stop\<rparr>)
      in case phase c of
           Idle \<Rightarrow> None
         | Recording _ _ \<Rightarrow> mk ''Recording'' ToneLive True
         | Finishing _ \<Rightarrow> mk ''Finishing'' ToneFinishing False
         | Finished _ _ \<Rightarrow> mk ''Saved'' ToneSaved False
         | Faulted _ _ \<Rightarrow> mk ''Recording failed'' ToneFault False)"

definition prompt_view_of :: "shell_core \<Rightarrow> prompt_view option" where
  "prompt_view_of c =
     map_option (\<lambda>m.
       \<lparr>pv_app_key = app_key m, pv_headline = headline m, pv_evidence = evidence m,
        pv_consent_notice = consent_notice m,
        pv_requires_acknowledgement = requires_acknowledgement m,
        pv_acknowledged = acknowledged c,
        start_enabled = (\<not> requires_acknowledgement m \<or> acknowledged c),
        start_label = ''Start recording'', not_now_label = ''Not now'',
        never_label = ''Never for this app'',
        acknowledge_label = ''Everyone on this call has agreed to be recorded''\<rparr>) (prompt c)"

definition tray_of :: "shell_core \<Rightarrow> tray_view" where
  "tray_of c =
     (let lbl = format_elapsed (phase_elapsed (phase c)); app = ''FlyOnTheWall '' @ em_dash
      in case phase c of
           Idle \<Rightarrow> \<lparr>tray_state = TrayIdle, tray_title = None, tooltip = app @ '' not recording''\<rparr>
         | Recording _ _ \<Rightarrow>
             \<lparr>tray_state = TrayRecording, tray_title = Some lbl, tooltip = app @ '' recording '' @ lbl\<rparr>
         | Finishing _ \<Rightarrow>
             \<lparr>tray_state = TrayFinishing, tray_title = Some lbl, tooltip = app @ '' saving '' @ lbl\<rparr>
         | Finished _ _ \<Rightarrow>
             \<lparr>tray_state = TrayIdle, tray_title = None, tooltip = app @ '' saved '' @ lbl\<rparr>
         | Faulted _ reason \<Rightarrow>
             \<lparr>tray_state = TrayFault, tray_title = None,
              tooltip = app @ '' recording failed: '' @ reason\<rparr>)"

definition menu_of :: "shell_core \<Rightarrow> menu_model" where
  "menu_of c =
     (let lbl = format_elapsed (phase_elapsed (phase c))
      in case phase c of
           Idle \<Rightarrow> menu_build \<lparr>label = ''Start Recording'', enabled = True\<rparr> ''Not recording''
         | Recording _ _ \<Rightarrow>
             menu_build \<lparr>label = ''Stop Recording'', enabled = True\<rparr>
               (''Recording '' @ em_dash @ '' '' @ lbl)
         | Finishing _ \<Rightarrow>
             menu_build \<lparr>label = ''Stop Recording'', enabled = False\<rparr>
               (''Saving '' @ em_dash @ '' '' @ lbl)
         | Finished _ _ \<Rightarrow>
             menu_build \<lparr>label = ''Start Recording'', enabled = True\<rparr>
               (''Saved '' @ em_dash @ '' '' @ lbl)
         | Faulted _ reason \<Rightarrow>
             menu_build \<lparr>label = ''Start Recording'', enabled = True\<rparr>
               (''Recording failed: '' @ reason))"

definition view :: "shell_core \<Rightarrow> shell_view" where
  "view c = \<lparr>pill = pill_of c, tray = tray_of c, menu = menu_of c, prompt_shown = prompt_view_of c\<rparr>"

definition on_menu ::
  "shell_core \<Rightarrow> menu_action \<Rightarrow> monotonic \<Rightarrow> shell_core \<times> shell_effect list" where
  "on_menu c action now =
     (if \<not> enabled (menu_button_of (menu (view c)) action) then (c, [])
      else case action of
             ToggleRecording \<Rightarrow> toggle c now OriginMenu
           | MenuOpenNotes \<Rightarrow> (c, [OpenNotes])
           | DisclosureKit \<Rightarrow> (c, [OpenDisclosureKit])
           | MenuSettings \<Rightarrow> (c, [OpenSettings])
           | MenuAbout \<Rightarrow> (c, [OpenAbout])
           | MenuQuit \<Rightarrow> (c, [Quit]))"

text \<open>Everything that drives a shell: an input, a menu click, or a toggle by hotkey.\<close>

datatype shell_action =
    Handle shell_input
  | Menu menu_action monotonic
  | Toggle monotonic start_origin

fun shell_step :: "shell_core \<Rightarrow> shell_action \<Rightarrow> shell_core \<times> shell_effect list" where
  "shell_step c (Handle i) = handle c i"
| "shell_step c (Menu a now) = on_menu c a now"
| "shell_step c (Toggle now orig) = toggle c now orig"

section \<open>The invariant of the machine\<close>

text \<open>
  Capture is commanded exactly while recording, ticks are wanted exactly while something
  is shown, a prompt is up only while idle, an acknowledgement belongs to a prompt, and
  the meter shows a level only while recording.
\<close>

definition shell_inv :: "shell_core \<Rightarrow> bool" where
  "shell_inv c \<longleftrightarrow>
     capture c = is_recording (phase c) \<and>
     ticking c = (\<not> is_idle (phase c)) \<and>
     (prompt c \<noteq> None \<longrightarrow> is_idle (phase c)) \<and>
     (acknowledged c \<longrightarrow> prompt c \<noteq> None) \<and>
     (\<not> is_recording (phase c) \<longrightarrow> level c = SILENT)"

lemmas transition_defs =
  transition_def capture_edge_def tick_edge_def withdraw_prompt_def Let_def

lemma is_recording_not_idle [simp]: "is_recording p \<Longrightarrow> \<not> is_idle p"
  by (cases p) auto

lemma is_finished_not_recording [simp]: "is_finished p \<Longrightarrow> \<not> is_recording p"
  by (cases p) auto

lemma transition_phase [simp]: "phase (fst (transition c p orig)) = p"
  by (simp add: transition_defs)

lemma transition_prompt [simp]:
  "prompt (fst (transition c p orig)) = (if is_idle p then prompt c else None)"
  by (simp add: transition_defs)

lemma transition_acknowledged [simp]:
  "acknowledged (fst (transition c p orig)) = (is_idle p \<and> acknowledged c)"
  by (simp add: transition_defs)

lemma transition_capture [simp]: "capture (fst (transition c p orig)) = is_recording p"
  by (auto simp: transition_defs)

lemma transition_ticking [simp]: "ticking (fst (transition c p orig)) = (\<not> is_idle p)"
  by (auto simp: transition_defs)

lemma transition_level [simp]:
  "level (fst (transition c p orig)) = (if is_recording p then level c else SILENT)"
  by (simp add: transition_defs)

lemma transition_effects:
  "snd (transition c p orig) =
     (if is_recording p \<and> \<not> capture c
      then (case orig of Some orig \<Rightarrow> [AuditStart orig] | None \<Rightarrow> []) @ [StartCapture]
      else if \<not> is_recording p \<and> capture c then (if is_finished p then [] else [StopCapture])
      else [])
     @ (if is_idle p = ticking c then [if is_idle p then StopTicking else StartTicking] else [])"
  by (auto simp: transition_defs)

lemma transition_inv:
  "(acknowledged c \<longrightarrow> prompt c \<noteq> None) \<Longrightarrow> shell_inv (fst (transition c p orig))"
  by (auto simp: shell_inv_def)

lemma withdraw_prompt_simps [simp]:
  "phase (withdraw_prompt c) = phase c" "level (withdraw_prompt c) = level c"
  "prompt (withdraw_prompt c) = None" "\<not> acknowledged (withdraw_prompt c)"
  "capture (withdraw_prompt c) = capture c" "ticking (withdraw_prompt c) = ticking c"
  by (simp_all add: withdraw_prompt_def)

lemma withdraw_prompt_inv: "shell_inv c \<Longrightarrow> shell_inv (withdraw_prompt c)"
  by (auto simp: shell_inv_def)

lemma shell_inv_acknowledged: "shell_inv c \<Longrightarrow> acknowledged c \<longrightarrow> prompt c \<noteq> None"
  by (simp add: shell_inv_def)

lemma answer_prompt_inv: "shell_inv c \<Longrightarrow> shell_inv (fst (answer_prompt c choice t))"
  by (auto simp: answer_prompt_def Let_def intro!: transition_inv withdraw_prompt_inv
      split: option.splits prompt_choice.splits)

lemma handle_inv: "shell_inv c \<Longrightarrow> shell_inv (fst (handle c i))"
  by (cases i)
    (auto simp: handle_def shell_inv_acknowledged intro!: transition_inv withdraw_prompt_inv
      answer_prompt_inv, auto simp: shell_inv_def)

lemma toggle_inv: "shell_inv c \<Longrightarrow> shell_inv (fst (toggle c now orig))"
  by (auto simp: toggle_def intro: handle_inv split: phase.splits)

lemma on_menu_inv: "shell_inv c \<Longrightarrow> shell_inv (fst (on_menu c a now))"
  by (auto simp: on_menu_def intro: toggle_inv split: menu_action.splits)

lemma shell_step_inv: "shell_inv c \<Longrightarrow> shell_inv (fst (shell_step c a))"
  by (cases a) (auto intro: handle_inv on_menu_inv toggle_inv)

interpretation shell: machine shell_step shell_new shell_inv
  by unfold_locales (auto simp: shell_step_inv, simp add: shell_inv_def shell_new_def)

section \<open>Capture starts with a person\<close>

text \<open>The origin a person's action starts a recording with; everything else has none.\<close>

fun person_start :: "shell_action \<Rightarrow> start_origin option" where
  "person_start (Handle (Start _ orig)) = Some orig"
| "person_start (Handle (PromptResponse _ (ChooseStart _))) = Some OriginDetectionPrompt"
| "person_start (Menu ToggleRecording _) = Some OriginMenu"
| "person_start (Toggle _ orig) = Some orig"
| "person_start _ = None"

lemma next_phase_recording:
  "is_recording (next_phase p i) \<Longrightarrow> \<not> is_recording p \<Longrightarrow> \<exists>t orig. i = Start t orig"
  by (cases "(p, i)" rule: next_phase.cases) (auto split: if_splits)

lemma transition_starts:
  assumes "StartCapture \<in> set (snd (transition c p orig))"
  shows "is_recording p \<and> \<not> capture c \<and>
    snd (transition c p orig) =
      (case orig of Some orig \<Rightarrow> [AuditStart orig] | None \<Rightarrow> []) @ StartCapture #
      (if ticking c then [] else [StartTicking])"
  using assms by (auto simp: transition_effects split: if_splits)

lemma handle_starts:
  assumes "shell_inv c" and "StartCapture \<in> set (snd (handle c i))"
  shows "\<exists>orig. person_start (Handle i) = Some orig \<and>
    snd (handle c i) = [AuditStart orig, StartCapture] @ (if ticking c then [] else [StartTicking])"
proof -
  have capt: "capture c = is_recording (phase c)" using assms(1) by (simp add: shell_inv_def)
  show ?thesis
    using assms(2) capt
    by (cases i)
      (auto simp: handle_def answer_prompt_def Let_def
        dest!: transition_starts next_phase_recording
        split: if_splits option.splits prompt_choice.splits)
qed

lemma toggle_starts:
  assumes "shell_inv c" and "StartCapture \<in> set (snd (toggle c now orig))"
  shows "snd (toggle c now orig) =
    [AuditStart orig, StartCapture] @ (if ticking c then [] else [StartTicking])"
  using assms handle_starts [OF assms(1), of "Start now orig"] handle_starts [OF assms(1), of StopRequested]
  by (auto simp: toggle_def split: phase.splits)

lemma shell_step_starts:
  assumes "shell_inv c" and "StartCapture \<in> set (snd (shell_step c a))"
  shows "\<exists>orig. person_start a = Some orig \<and>
    snd (shell_step c a) = [AuditStart orig, StartCapture] @ (if ticking c then [] else [StartTicking])"
proof (cases a)
  case (Handle i)
  with assms handle_starts [of c i] show ?thesis by simp
next
  case (Menu m now)
  with assms toggle_starts [OF assms(1), of now OriginMenu] show ?thesis
    by (auto simp: on_menu_def split: if_splits menu_action.splits)
next
  case (Toggle now orig)
  with assms toggle_starts [of c now orig] show ?thesis by simp
qed

text \<open>
  C24. In every state the shell can reach, a command to begin capturing is issued only by a
  person's action (a Start request, the prompt's Start button, the menu row or the hotkey),
  and the very effect before it records that action's origin in the audit log. No other
  input, in particular no detection, acknowledgement, tick or capture report, can begin a
  recording.
\<close>

theorem capture_starts_audited:
  assumes "reachable shell_step shell_new c" and "StartCapture \<in> set (snd (shell_step c a))"
  shows "\<exists>orig. person_start a = Some orig \<and>
    snd (shell_step c a) = [AuditStart orig, StartCapture] @ (if ticking c then [] else [StartTicking])"
  using shell_step_starts [OF shell.inv_reachable [OF assms(1)] assms(2)] .

theorem capture_starts_audited_witness:
  "snd (shell_step shell_new (Handle (Start (from_secs 5) OriginWebUi)))
     = [AuditStart OriginWebUi, StartCapture, StartTicking]"
proof -
  have "StartCapture \<in> set (snd (shell_step shell_new (Handle (Start (from_secs 5) OriginWebUi))))"
    by (simp add: handle_def start_blocked_def shell_new_def transition_defs)
  from capture_starts_audited [OF reachable.start this] show ?thesis
    by (auto simp: shell_new_def)
qed

section \<open>The indicator\<close>

lemma pill_of_None_iff: "pill_of c = None \<longleftrightarrow> phase c = Idle"
  by (simp add: pill_of_def Let_def split: phase.splits)

text \<open>The life of a session as the module documents it.\<close>

inductive session_step :: "phase \<Rightarrow> phase \<Rightarrow> bool" where
  stay: "session_step p p"
| "begin": "\<not> is_recording p \<Longrightarrow> (\<And>e. p \<noteq> Finishing e) \<Longrightarrow> session_step p (Recording t 0)"
| advance: "e \<le> e' \<Longrightarrow> session_step (Recording t e) (Recording t e')"
| stop: "session_step (Recording t e) (Finishing e)"
| complete: "p = Recording t0 e \<or> p = Finishing e \<Longrightarrow> session_step p (Finished e t)"
| fail: "p = Recording t0 e \<or> p = Finishing e \<Longrightarrow> session_step p (Faulted e reason)"
| clear: "p = Finished e t \<or> p = Faulted e reason \<Longrightarrow> session_step p Idle"

inductive_cases session_from_recording: "session_step (Recording t e) q"
inductive_cases session_from_finishing: "session_step (Finishing e) q"

lemma next_phase_session: "session_step p (next_phase p i)"
  by (cases "(p, i)" rule: next_phase.cases) (auto intro: session_step.intros)

lemma handle_session: "session_step (phase c) (phase (fst (handle c i)))"
  by (cases i)
    (auto simp: handle_def answer_prompt_def Let_def
      intro: next_phase_session session_step.stay split: option.splits prompt_choice.splits)

lemma toggle_session: "session_step (phase c) (phase (fst (toggle c now orig)))"
proof -
  have "toggle c now orig = (c, []) \<or> (\<exists>i. toggle c now orig = handle c i)"
    by (auto simp: toggle_def split: phase.splits)
  then show ?thesis by (auto intro: handle_session session_step.stay)
qed

lemma shell_step_session: "session_step (phase c) (phase (fst (shell_step c a)))"
  by (cases a)
    (auto simp: on_menu_def intro: handle_session toggle_session session_step.stay
      split: menu_action.splits)

text \<open>
  Every step of the shell, whatever the input, moves the phase along the documented
  life of a session: a recording's clock never restarts and never runs backwards, its
  length is frozen when capture stops and carried unchanged through saving, saved and
  failed, and no session begins while another is recording or still being written.
\<close>

theorem phase_follows_session:
  "session_step (phase c) (phase (fst (shell_step c a)))"
  by (rule shell_step_session)

lemma view_recording:
  assumes "phase c = Recording t e" and "prompt c = None"
  shows "(\<exists>p. pill (view c) = Some p \<and> stop_enabled p \<and> pill_tone p = ToneLive \<and>
           tray_title (tray (view c)) = Some (elapsed_label p)) \<and>
      tray_state (tray (view c)) = TrayRecording \<and> prompt_shown (view c) = None"
  using assms by (simp add: view_def pill_of_def tray_of_def prompt_view_of_def Let_def)

lemma pill_survives:
  assumes "is_recording (phase c) \<or> phase c = Finishing e"
  shows "pill (view (fst (shell_step c a))) \<noteq> None"
proof -
  have "phase (fst (shell_step c a)) \<noteq> Idle"
    using assms shell_step_session [of c a]
    by (cases "phase c") (auto elim: session_from_recording session_from_finishing)
  then show ?thesis by (simp add: view_def pill_of_None_iff del: not_None_eq)
qed

text \<open>
  C25. While capture is live in a reachable state the recording pill is on screen with a
  working Stop button, the menu-bar item is in its recording state and shows the elapsed
  time, and no detection prompt is shown; and no single action of any kind takes the pill
  down while a session is recording or being written.
\<close>

theorem indicator_while_capturing:
  assumes "reachable shell_step shell_new c"
  shows "(capture c \<longrightarrow>
      (\<exists>p. pill (view c) = Some p \<and> stop_enabled p \<and> pill_tone p = ToneLive \<and>
           tray_title (tray (view c)) = Some (elapsed_label p)) \<and>
      tray_state (tray (view c)) = TrayRecording \<and> prompt_shown (view c) = None)
    \<and> (is_recording (phase c) \<or> phase c = Finishing e \<longrightarrow>
      pill (view (fst (shell_step c a))) \<noteq> None)"
proof -
  have "capture c \<Longrightarrow> (\<exists>t e. phase c = Recording t e) \<and> prompt c = None"
    using shell.inv_reachable [OF assms] by (cases "phase c") (auto simp: shell_inv_def)
  then show ?thesis using view_recording pill_survives by blast
qed

theorem indicator_while_capturing_witness:
  "capture (fst (shell_step shell_new (Toggle (from_secs 1) OriginHotkey)))
   \<and> pill (view (fst (shell_step (fst (shell_step shell_new (Toggle (from_secs 1) OriginHotkey)))
        (Handle Dismiss)))) \<noteq> None"
proof -
  let ?c = "fst (shell_step shell_new (Toggle (from_secs 1) OriginHotkey))"
  have r: "reachable shell_step shell_new ?c" by (rule reachable.step [OF reachable.start])
  have p: "capture ?c" "is_recording (phase ?c)"
    by (simp_all add: toggle_def handle_def start_blocked_def shell_new_def)
  show ?thesis using indicator_while_capturing [OF r, of 0 "Handle Dismiss"] p by blast
qed

section \<open>The blocking warning\<close>

text \<open>
  The acknowledgement in a run is a tick of the box for the prompt now on screen: it was
  given while this very meeting was being asked about, the question stayed up ever since,
  and the box was not cleared.
\<close>

definition ticked_for :: "shell_action list \<Rightarrow> detected_meeting \<Rightarrow> bool" where
  "ticked_for as m \<longleftrightarrow>
     (\<exists>xs ys. as = xs @ Handle (PromptAcknowledged True) # ys \<and>
        Handle (PromptAcknowledged False) \<notin> set ys \<and>
        (\<forall>n \<le> length ys. prompt (run_state shell_step shell_new
            (xs @ Handle (PromptAcknowledged True) # take n ys)) = Some m))"

lemma handle_acknowledged:
  assumes "acknowledged (fst (handle c i))" and "shell_inv c"
  shows "i = PromptAcknowledged True \<and> prompt (fst (handle c i)) = prompt c \<and> prompt c \<noteq> None \<or>
    acknowledged c \<and> prompt (fst (handle c i)) = prompt c \<and> i \<noteq> PromptAcknowledged False"
  using assms(1) shell_inv_acknowledged [OF assms(2)]
  by (cases i)
    (auto simp: handle_def answer_prompt_def Let_def split: if_splits option.splits prompt_choice.splits)

lemma toggle_acknowledged:
  assumes "acknowledged (fst (toggle c now orig))" and "shell_inv c"
  shows "acknowledged c \<and> prompt (fst (toggle c now orig)) = prompt c"
proof -
  have "toggle c now orig = (c, []) \<or> toggle c now orig = handle c StopRequested \<or>
      toggle c now orig = handle c (Start now orig)"
    by (auto simp: toggle_def split: phase.splits)
  with assms show ?thesis
    using handle_acknowledged [of c StopRequested] handle_acknowledged [of c "Start now orig"]
    by auto
qed

lemma shell_step_acknowledged:
  assumes "acknowledged (fst (shell_step c a))" and "shell_inv c"
  shows "a = Handle (PromptAcknowledged True) \<and> prompt (fst (shell_step c a)) = prompt c
      \<and> prompt c \<noteq> None \<or>
    acknowledged c \<and> prompt (fst (shell_step c a)) = prompt c \<and> a \<noteq> Handle (PromptAcknowledged False)"
proof (cases a)
  case (Handle i)
  with assms handle_acknowledged [of c i] show ?thesis by auto
next
  case (Menu m now)
  with assms toggle_acknowledged [of c now OriginMenu] show ?thesis
    by (auto simp: on_menu_def split: if_splits menu_action.splits)
next
  case (Toggle now orig)
  with assms toggle_acknowledged [of c now orig] show ?thesis by auto
qed

lemma ticked_for_here:
  "prompt (fst (shell_step (run_state shell_step shell_new as) (Handle (PromptAcknowledged True))))
     = Some m \<Longrightarrow> ticked_for (as @ [Handle (PromptAcknowledged True)]) m"
  unfolding ticked_for_def by (intro exI [of _ as] exI [of _ "[]"]) simp

lemma ticked_for_later:
  assumes "ticked_for as m" and "a \<noteq> Handle (PromptAcknowledged False)"
    and "prompt (run_state shell_step shell_new (as @ [a])) = Some m"
  shows "ticked_for (as @ [a]) m"
proof -
  let ?tick = "Handle (PromptAcknowledged True)"
  from assms(1) obtain xs ys where as: "as = xs @ ?tick # ys"
    and ys: "Handle (PromptAcknowledged False) \<notin> set ys"
    and up: "\<forall>n \<le> length ys. prompt (run_state shell_step shell_new (xs @ ?tick # take n ys)) = Some m"
    by (auto simp: ticked_for_def)
  have "prompt (run_state shell_step shell_new (xs @ ?tick # take n (ys @ [a]))) = Some m"
    if "n \<le> length (ys @ [a])" for n
    using that up assms(3) as by (cases "n \<le> length ys") (auto simp: not_le le_Suc_eq)
  with ys assms(2) show ?thesis
    unfolding ticked_for_def as by (intro exI [of _ xs] exI [of _ "ys @ [a]"]) auto
qed

lemma acknowledged_ticked:
  "acknowledged (run_state shell_step shell_new as) \<Longrightarrow>
    \<exists>m. prompt (run_state shell_step shell_new as) = Some m \<and> ticked_for as m"
proof (induction as rule: rev_induct)
  case Nil
  then show ?case by (simp add: shell_new_def)
next
  case (snoc a as)
  let ?c = "run_state shell_step shell_new as"
  from snoc.prems have "acknowledged (fst (shell_step ?c a))" by simp
  from shell_step_acknowledged [OF this shell.inv_run_start] show ?case
  proof
    assume "a = Handle (PromptAcknowledged True) \<and> prompt (fst (shell_step ?c a)) = prompt ?c
      \<and> prompt ?c \<noteq> None"
    then show ?thesis using ticked_for_here [of as] by auto
  next
    assume "acknowledged ?c \<and> prompt (fst (shell_step ?c a)) = prompt ?c
      \<and> a \<noteq> Handle (PromptAcknowledged False)"
    then show ?thesis using snoc.IH ticked_for_later [of as _ a] by auto
  qed
qed

lemma answer_prompt_needs_ack:
  assumes "prompt c = Some m" and "requires_acknowledgement m"
    and "StartCapture \<in> set (snd (answer_prompt c choice t))" and "\<not> acknowledged c"
  shows "choice = ChooseStart True"
  using assms by (auto simp: answer_prompt_def split: prompt_choice.splits if_splits)

lemma start_needs_ack:
  assumes "shell_inv c" and "prompt c = Some m" and "requires_acknowledgement m"
    and "StartCapture \<in> set (snd (shell_step c a))" and "\<not> acknowledged c"
  shows "\<exists>t. a = Handle (PromptResponse t (ChooseStart True))"
proof -
  have blocked: "start_blocked c" using assms(2,3,5) by (simp add: start_blocked_def)
  have idle: "phase c = Idle" using assms(1,2) by (cases "phase c") (auto simp: shell_inv_def)
  have start: "snd (handle c (Start t orig)) = []" for t orig
    using blocked by (simp add: handle_def)
  from shell_step_starts [OF assms(1,4)] obtain orig where "person_start a = Some orig" by blast
  with assms(4) idle start answer_prompt_needs_ack [OF assms(2,3) _ assms(5)] show ?thesis
    by (cases a rule: person_start.cases)
      (auto simp: toggle_def on_menu_def handle_def split: if_splits)
qed

text \<open>
  C26. Take any run of a fresh shell and an action that begins capturing while a prompt with
  a blocking consent warning is on screen. Then either that action is the prompt's Start
  answered with the acknowledgement, or the acknowledgement box was ticked earlier in the
  run while this same meeting was being asked about, with the prompt up unchanged ever
  since and the box not cleared. An acknowledgement never carries over to another meeting.
\<close>

theorem blocking_warning_acknowledged:
  assumes "c = run_state shell_step shell_new as"
    and "prompt c = Some m" and "requires_acknowledgement m"
    and "StartCapture \<in> set (snd (shell_step c a))"
  shows "(\<exists>t. a = Handle (PromptResponse t (ChooseStart True))) \<or> ticked_for as m"
proof (cases "acknowledged c")
  case True
  with acknowledged_ticked [of as] assms(1,2) show ?thesis by auto
next
  case False
  have "shell_inv c" unfolding assms(1) by (rule shell.inv_run_start)
  from start_needs_ack [OF this assms(2-4) False] show ?thesis by blast
qed

definition zoom_all_party :: detected_meeting where
  "zoom_all_party = \<lparr>app_key = ''us.zoom.xos'', app_name = ''Zoom'', evidence = [], title = None,
     consent_notice = ''all-party'', requires_acknowledgement = True\<rparr>"

theorem blocking_warning_acknowledged_witness:
  "ticked_for [Handle (MeetingDetected (from_secs 1) zoom_all_party), Handle (PromptAcknowledged True)]
     zoom_all_party"
proof -
  let ?as = "[Handle (MeetingDetected (from_secs 1) zoom_all_party), Handle (PromptAcknowledged True)]"
  let ?c = "run_state shell_step shell_new ?as"
  have "prompt ?c = Some zoom_all_party"
    by (simp add: handle_def shell_new_def)
  moreover have "StartCapture \<in> set (snd (shell_step ?c (Menu ToggleRecording (from_secs 2))))"
    by (simp add: handle_def shell_new_def on_menu_def view_def menu_of_def menu_build_def
        toggle_def start_blocked_def transition_effects)
  ultimately show ?thesis
    using blocking_warning_acknowledged [OF refl, of ?as zoom_all_party "Menu ToggleRecording (from_secs 2)"]
    by (simp add: zoom_all_party_def)
qed

section \<open>The prompt's Start button and the effects\<close>

text \<open>
  The Start button the renderer draws agrees with the state machine: in every reachable
  state with a prompt, pressing Start (with no acknowledgement in the answer) begins a
  recording exactly when the view says the button is enabled, and otherwise changes nothing
  at all.
\<close>

theorem start_button_agrees:
  assumes "reachable shell_step shell_new c" and "prompt_shown (view c) = Some v"
  shows "(if start_enabled v
     then snd (handle c (PromptResponse t (ChooseStart False)))
            = [AuditStart OriginDetectionPrompt, StartCapture, StartTicking]
     else handle c (PromptResponse t (ChooseStart False)) = (c, []))"
proof -
  from assms(2) obtain m where m: "prompt c = Some m"
    and v: "start_enabled v = (\<not> requires_acknowledgement m \<or> acknowledged c)"
    by (auto simp: view_def prompt_view_of_def)
  have "phase c = Idle" "\<not> capture c" "\<not> ticking c"
    using shell.inv_reachable [OF assms(1)] m by (cases "phase c"; auto simp: shell_inv_def)+
  then show ?thesis
    by (simp add: m v handle_def answer_prompt_def transition_effects)
qed

theorem start_button_agrees_witness:
  "snd (handle (fst (shell_step shell_new (Handle (MeetingDetected (from_secs 1)
        (zoom_all_party\<lparr>requires_acknowledgement := False\<rparr>)))))
      (PromptResponse (from_secs 2) (ChooseStart False)))
     = [AuditStart OriginDetectionPrompt, StartCapture, StartTicking]"
proof -
  let ?m = "zoom_all_party\<lparr>requires_acknowledgement := False\<rparr>"
  let ?c = "fst (shell_step shell_new (Handle (MeetingDetected (from_secs 1) ?m)))"
  have r: "reachable shell_step shell_new ?c" by (rule reachable.step [OF reachable.start])
  have "\<exists>v. prompt_shown (view ?c) = Some v \<and> start_enabled v"
    by (simp add: handle_def shell_new_def view_def prompt_view_of_def)
  then obtain v where "prompt_shown (view ?c) = Some v" "start_enabled v" by blast
  with start_button_agrees [OF r, of v "from_secs 2"] show ?thesis by simp
qed

end
