(* ===== verification/Hotkey.thy ===== *)
theory Hotkey
  imports Prelude
begin

text \<open>
  Global hotkeys (\<^verbatim>\<open>crates/fotw-shell/src/hotkey.rs\<close>): which chords may be registered,
  and the table from chords to actions. A \<^verbatim>\<open>char\<close> is its code point, and the modifier
  set its \<^verbatim>\<open>u8\<close>.
\<close>

unbundle bit_operations_syntax

type_synonym modifiers = "8 word"

definition CONTROL :: modifiers where "CONTROL = 1"

definition OPTION :: modifiers where "OPTION = 2"

definition SHIFT :: modifiers where "SHIFT = 4"

definition COMMAND :: modifiers where "COMMAND = 8"

definition contains_mods :: "modifiers \<Rightarrow> modifiers \<Rightarrow> bool" where
  "contains_mods self other \<longleftrightarrow> self AND other = other"

datatype media_key =
    PlayPause | NextTrack | PreviousTrack | FastForward | Rewind | MediaStop
  | VolumeUp | VolumeDown | Mute

fun needs_event_tap :: "media_key \<Rightarrow> bool" where
  "needs_event_tap PlayPause = True"
| "needs_event_tap NextTrack = True"
| "needs_event_tap PreviousTrack = True"
| "needs_event_tap FastForward = True"
| "needs_event_tap Rewind = True"
| "needs_event_tap _ = False"

datatype key =
    Letter nat | Digit nat | Function nat | Space | Return | Escape | Comma | Period | Slash
  | Media media_key

fun is_safe_bare :: "key \<Rightarrow> bool" where
  "is_safe_bare (Function n) = (13 \<le> n \<and> n \<le> 20)"
| "is_safe_bare _ = False"

record chord =
  mods :: modifiers
  chord_key :: key

datatype hotkey_action = HotkeyToggleRecording | HotkeyOpenNotes

datatype hotkey_error =
    MediaKeyNeedsAccessibility media_key
  | UnsupportedKey media_key
  | SystemReserved media_key
  | NoModifier key
  | InvalidKey key
  | DuplicateChord chord hotkey_action
  | DuplicateAction hotkey_action chord

fun reject_media :: "media_key \<Rightarrow> hotkey_error" where
  "reject_media MediaStop = UnsupportedKey MediaStop"
| "reject_media VolumeUp = SystemReserved VolumeUp"
| "reject_media VolumeDown = SystemReserved VolumeDown"
| "reject_media Mute = SystemReserved Mute"
| "reject_media k = MediaKeyNeedsAccessibility k"

definition is_ascii_lowercase :: "nat \<Rightarrow> bool" where
  "is_ascii_lowercase c \<longleftrightarrow> 97 \<le> c \<and> c \<le> 122"

fun key_in_range :: "key \<Rightarrow> bool" where
  "key_in_range (Letter c) = is_ascii_lowercase c"
| "key_in_range (Digit d) = (d \<le> 9)"
| "key_in_range (Function n) = (n \<noteq> 0 \<and> n \<le> 20)"
| "key_in_range _ = True"

definition validate :: "chord \<Rightarrow> (hotkey_error, unit) outcome" where
  "validate c =
     (case chord_key c of
        Media m \<Rightarrow> Err (reject_media m)
      | k \<Rightarrow>
          if \<not> key_in_range k then Err (InvalidKey k)
          else if mods c = 0 \<and> \<not> is_safe_bare k then Err (NoModifier k)
          else Ok ())"

type_synonym hotkey_map = "(chord \<times> hotkey_action) list"

definition bind :: "hotkey_map \<Rightarrow> chord \<Rightarrow> hotkey_action \<Rightarrow> (hotkey_error, hotkey_map) outcome" where
  "bind m c a =
     outcome_bind (validate c) (\<lambda>_.
       case find (\<lambda>(c', _). c' = c) m of
         Some (_, existing) \<Rightarrow> Err (DuplicateChord c existing)
       | None \<Rightarrow>
           (case find (\<lambda>(_, a'). a' = a) m of
              Some (existing, _) \<Rightarrow> Err (DuplicateAction a existing)
            | None \<Rightarrow> Ok (m @ [(c, a)])))"

definition action_for :: "hotkey_map \<Rightarrow> chord \<Rightarrow> hotkey_action option" where
  "action_for m c = map_option snd (find (\<lambda>(c', _). c' = c) m)"

definition chord_for :: "hotkey_map \<Rightarrow> hotkey_action \<Rightarrow> chord option" where
  "chord_for m a = map_option fst (find (\<lambda>(_, a'). a' = a) m)"

text \<open>The shipped table; the two \<^verbatim>\<open>expect\<close>s panic when a default cannot be bound.\<close>

definition expect :: "('e, 'a) outcome \<Rightarrow> ('e, 'a) outcome" where
  "expect r = (case r of Ok x \<Rightarrow> Ok x | _ \<Rightarrow> Panic)"

definition hotkey_defaults :: "(hotkey_error, hotkey_map) outcome" where
  "hotkey_defaults =
     outcome_bind
       (expect (bind [] \<lparr>mods = COMMAND OR SHIFT, chord_key = Letter 114\<rparr> HotkeyToggleRecording))
       (\<lambda>m. expect (bind m \<lparr>mods = COMMAND OR SHIFT, chord_key = Letter 110\<rparr> HotkeyOpenNotes))"

section \<open>Tables built by binding\<close>

definition map_wf :: "hotkey_map \<Rightarrow> bool" where
  "map_wf m \<longleftrightarrow> distinct (map fst m) \<and> distinct (map snd m) \<and> (\<forall>(c, a) \<in> set m. validate c = Ok ())"

lemma find_fst: "find (\<lambda>(c', _). c' = c) m = map_option (Pair c) (map_of m c)"
  by (induction m) auto

lemma find_snd_None: "find (\<lambda>(_, a'). a' = a) m = None \<longleftrightarrow> a \<notin> snd ` set m"
  by (induction m) auto

lemma find_snd_Some:
  "distinct (map snd m) \<Longrightarrow> (c, a) \<in> set m \<Longrightarrow> find (\<lambda>(_, a'). a' = a) m = Some (c, a)"
  by (induction m) (auto simp: rev_image_eqI)

lemma find_snd_SomeD: "find (\<lambda>(_, a'). a' = a) m = Some (c, b) \<Longrightarrow> b = a \<and> (c, a) \<in> set m"
  by (induction m) (auto split: if_splits)

lemma bind_ok_iff [ok_iff]:
  "bind m c a = Ok m' \<longleftrightarrow>
     validate c = Ok () \<and> c \<notin> fst ` set m \<and> a \<notin> snd ` set m \<and> m' = m @ [(c, a)]"
  by (cases "validate c")
    (auto simp: bind_def find_fst find_snd_None [symmetric] map_of_eq_None_iff [symmetric]
      split: option.splits)

lemma bind_wf: "map_wf m \<Longrightarrow> bind m c a = Ok m' \<Longrightarrow> map_wf m'"
  by (auto simp: map_wf_def ok_iff)

lemma action_for_iff: "map_wf m \<Longrightarrow> action_for m c = Some a \<longleftrightarrow> (c, a) \<in> set m"
  by (simp add: action_for_def find_fst map_wf_def map_of_eq_Some_iff option.map_comp comp_def)

lemma chord_for_iff: "map_wf m \<Longrightarrow> chord_for m a = Some c \<longleftrightarrow> (c, a) \<in> set m"
  by (auto simp: chord_for_def map_wf_def find_snd_Some dest: find_snd_SomeD)

lemma validate_media: "validate c = Ok () \<Longrightarrow> chord_key c \<noteq> Media k"
  by (auto simp: validate_def)

text \<open>The outcome of a series of binds, refused ones leaving the table as it was.\<close>

primrec bind_all :: "hotkey_map \<Rightarrow> (chord \<times> hotkey_action) list \<Rightarrow> hotkey_map" where
  "bind_all m [] = m"
| "bind_all m (b # bs) = bind_all (case bind m (fst b) (snd b) of Ok m' \<Rightarrow> m' | _ \<Rightarrow> m) bs"

lemma bind_all_wf: "map_wf m \<Longrightarrow> map_wf (bind_all m bs)"
  by (induction bs arbitrary: m) (auto intro: bind_wf split: outcome.splits)

text \<open>
  C27. However a hotkey table is built by binding, the lookups in its two directions are
  inverse to each other, every chord in it passes validation, and none is a media key
  (those would need the Accessibility grant); the shipped defaults build without panicking
  and bind both actions.
\<close>

theorem hotkey_table_bijective:
  "(chord_for (bind_all [] bs) a = Some c \<longleftrightarrow> action_for (bind_all [] bs) c = Some a)
   \<and> (action_for (bind_all [] bs) c = Some a \<longrightarrow> validate c = Ok () \<and> chord_key c \<noteq> Media k)
   \<and> (\<exists>m. hotkey_defaults = Ok m \<and> chord_for m HotkeyToggleRecording \<noteq> None
        \<and> chord_for m HotkeyOpenNotes \<noteq> None)"
proof -
  have wf: "map_wf (bind_all [] bs)" by (rule bind_all_wf) (simp add: map_wf_def)
  have "action_for (bind_all [] bs) c = Some a \<Longrightarrow> validate c = Ok ()"
    using wf by (auto simp: action_for_iff map_wf_def)
  moreover have "\<exists>m. hotkey_defaults = Ok m \<and> chord_for m HotkeyToggleRecording \<noteq> None
        \<and> chord_for m HotkeyOpenNotes \<noteq> None"
    by (simp add: hotkey_defaults_def bind_def validate_def expect_def is_ascii_lowercase_def
        COMMAND_def SHIFT_def chord_for_def)
  ultimately show ?thesis
    using wf validate_media by (auto simp: action_for_iff chord_for_iff)
qed

theorem hotkey_table_bijective_witness:
  "validate \<lparr>mods = COMMAND, chord_key = Letter 114\<rparr> = Ok ()
   \<and> chord_for (bind_all [] [(\<lparr>mods = COMMAND, chord_key = Letter 114\<rparr>, HotkeyOpenNotes)])
        HotkeyOpenNotes = Some \<lparr>mods = COMMAND, chord_key = Letter 114\<rparr>"
proof -
  let ?c = "\<lparr>mods = COMMAND, chord_key = Letter 114\<rparr>"
  have "action_for (bind_all [] [(?c, HotkeyOpenNotes)]) ?c = Some HotkeyOpenNotes"
    by (simp add: bind_def validate_def is_ascii_lowercase_def COMMAND_def action_for_def)
  with hotkey_table_bijective [of "[(?c, HotkeyOpenNotes)]" HotkeyOpenNotes ?c Mute]
  show ?thesis by blast
qed

end
