(* ===== verification/Shell_Runtime.thy ===== *)
theory Shell_Runtime
  imports Shell_Core Hotkey
begin

text \<open>
  The seam between the state machine and its host
  (\<^verbatim>\<open>crates/fotw-shell/src/runtime.rs\<close>). \<open>dispatch\<close> carries out the effects of a step,
  feeding a failed start back in as a capture failure. The host is the rest of the
  application behind a trait: a parameter that answers \<^verbatim>\<open>start_capture\<close>,
  \<^verbatim>\<open>level\<close> and \<^verbatim>\<open>poll_detection\<close> depending on every call made to it so far, with
  nothing assumed of the answers.
\<close>

datatype host_call =
    CallAuditStart start_origin
  | CallStartCapture
  | CallStopCapture
  | CallSetTicking bool
  | CallOpenNotes
  | CallOpenDisclosureKit
  | CallOpenSettings
  | CallOpenAbout
  | CallQuit
  | CallSnoozeDetection
  | CallSuppressApp string
  | CallLevel
  | CallPollDetection

record shell_host =
  start_result :: "host_call list \<Rightarrow> string option"
  level_result :: "host_call list \<Rightarrow> level"
  detection_result :: "host_call list \<Rightarrow> detection_update option"

record runtime =
  core :: shell_core
  calls :: "host_call list"

definition runtime_new :: runtime where
  "runtime_new = \<lparr>core = shell_new, calls = []\<rparr>"

definition call :: "host_call \<Rightarrow> runtime \<Rightarrow> runtime" where
  "call k rt = rt\<lparr>calls := calls rt @ [k]\<rparr>"

text \<open>One effect: the host call it becomes, and the effects it adds to the queue.\<close>

definition dispatch_one ::
  "shell_host \<Rightarrow> runtime \<Rightarrow> shell_effect \<Rightarrow> runtime \<times> shell_effect list" where
  "dispatch_one host rt eff =
     (case eff of
        AuditStart origin \<Rightarrow> (call (CallAuditStart origin) rt, [])
      | SnoozeDetection \<Rightarrow> (call CallSnoozeDetection rt, [])
      | SuppressApp k \<Rightarrow> (call (CallSuppressApp k) rt, [])
      | StartCapture \<Rightarrow>
          (let rt' = call CallStartCapture rt
           in case start_result host (calls rt) of
                None \<Rightarrow> (rt', [])
              | Some reason \<Rightarrow>
                  (case handle (core rt') (CaptureFailed reason) of
                     (c, effs) \<Rightarrow> (rt'\<lparr>core := c\<rparr>, effs)))
      | StopCapture \<Rightarrow> (call CallStopCapture rt, [])
      | StartTicking \<Rightarrow> (call (CallSetTicking True) rt, [])
      | StopTicking \<Rightarrow> (call (CallSetTicking False) rt, [])
      | OpenNotes \<Rightarrow> (call CallOpenNotes rt, [])
      | OpenDisclosureKit \<Rightarrow> (call CallOpenDisclosureKit rt, [])
      | OpenSettings \<Rightarrow> (call CallOpenSettings rt, [])
      | OpenAbout \<Rightarrow> (call CallOpenAbout rt, [])
      | Quit \<Rightarrow> (call CallQuit rt, []))"

text \<open>
  The loop over the queue. The guard stops it after 64 effects; the second component of the
  result is what the guard would have dropped.
\<close>

primrec dispatch_loop ::
  "nat \<Rightarrow> shell_host \<Rightarrow> runtime \<Rightarrow> shell_effect list \<Rightarrow> runtime \<times> shell_effect list" where
  "dispatch_loop 0 host rt queue = (rt, queue)"
| "dispatch_loop (Suc guard) host rt queue =
     (case queue of
        [] \<Rightarrow> (rt, [])
      | eff # rest \<Rightarrow>
          (case dispatch_one host rt eff of
             (rt', added) \<Rightarrow> dispatch_loop guard host rt' (rest @ added)))"

definition dispatch :: "shell_host \<Rightarrow> runtime \<Rightarrow> shell_effect list \<Rightarrow> runtime" where
  "dispatch host rt effects = fst (dispatch_loop 64 host rt effects)"

text \<open>Most methods of the runtime hand one input to the core and dispatch what it returns.\<close>

definition feed :: "shell_host \<Rightarrow> runtime \<Rightarrow> shell_action \<Rightarrow> runtime" where
  "feed host rt a =
     (case shell_step (core rt) a of (c, effects) \<Rightarrow> dispatch host (rt\<lparr>core := c\<rparr>) effects)"

definition runtime_tick :: "shell_host \<Rightarrow> runtime \<Rightarrow> monotonic \<Rightarrow> runtime" where
  "runtime_tick host rt now =
     (let upd = detection_result host (calls rt);
          rt0 = call CallPollDetection rt;
          rt1 = (case upd of
                   Some (Armed meeting) \<Rightarrow> feed host rt0 (Handle (MeetingDetected now meeting))
                 | Some Cleared \<Rightarrow> feed host rt0 (Handle DetectionCleared)
                 | None \<Rightarrow> rt0);
          rt2 = (if is_recording (phase (core rt1))
                 then feed host (call CallLevel rt1) (Handle (LevelMeasured (level_result host (calls rt1))))
                 else rt1)
      in feed host rt2 (Handle (Tick now)))"

definition on_chord ::
  "shell_host \<Rightarrow> hotkey_map \<Rightarrow> runtime \<Rightarrow> chord \<Rightarrow> monotonic \<Rightarrow> runtime \<times> bool" where
  "on_chord host hotkeys rt c now =
     (case action_for hotkeys c of
        None \<Rightarrow> (rt, False)
      | Some HotkeyToggleRecording \<Rightarrow> (feed host rt (Toggle now OriginHotkey), True)
      | Some HotkeyOpenNotes \<Rightarrow> (dispatch host rt [OpenNotes], True))"

text \<open>The other entry points, by the input each hands on.\<close>

datatype runtime_event =
    EvTick monotonic
  | EvChord chord monotonic
  | MeetingDetectedCall monotonic detected_meeting
  | DetectionClearedCall
  | AcknowledgePrompt bool
  | RespondToPrompt prompt_choice monotonic
  | RequestStart start_origin monotonic
  | OnMenu menu_action monotonic
  | RequestStop
  | CaptureFinishedReport monotonic
  | CaptureFailedReport string
  | DismissCall

fun runtime_step :: "shell_host \<Rightarrow> hotkey_map \<Rightarrow> runtime \<Rightarrow> runtime_event \<Rightarrow> runtime" where
  "runtime_step host hk rt (EvTick now) = runtime_tick host rt now"
| "runtime_step host hk rt (EvChord c now) = fst (on_chord host hk rt c now)"
| "runtime_step host hk rt (MeetingDetectedCall t m) = feed host rt (Handle (MeetingDetected t m))"
| "runtime_step host hk rt DetectionClearedCall = feed host rt (Handle DetectionCleared)"
| "runtime_step host hk rt (AcknowledgePrompt b) = feed host rt (Handle (PromptAcknowledged b))"
| "runtime_step host hk rt (RespondToPrompt choice now) =
     feed host rt (Handle (PromptResponse now choice))"
| "runtime_step host hk rt (RequestStart origin now) = feed host rt (Handle (Start now origin))"
| "runtime_step host hk rt (OnMenu action now) = feed host rt (Menu action now)"
| "runtime_step host hk rt RequestStop = feed host rt (Handle StopRequested)"
| "runtime_step host hk rt (CaptureFinishedReport t) = feed host rt (Handle (StopCompleted t))"
| "runtime_step host hk rt (CaptureFailedReport reason) = feed host rt (Handle (CaptureFailed reason))"
| "runtime_step host hk rt DismissCall = feed host rt (Handle Dismiss)"

section \<open>What a dispatch does\<close>

text \<open>The calls an effect list turns into when no start fails.\<close>

fun effect_call :: "shell_effect \<Rightarrow> host_call" where
  "effect_call (AuditStart origin) = CallAuditStart origin"
| "effect_call StartCapture = CallStartCapture"
| "effect_call StopCapture = CallStopCapture"
| "effect_call StartTicking = CallSetTicking True"
| "effect_call StopTicking = CallSetTicking False"
| "effect_call OpenNotes = CallOpenNotes"
| "effect_call OpenDisclosureKit = CallOpenDisclosureKit"
| "effect_call OpenSettings = CallOpenSettings"
| "effect_call OpenAbout = CallOpenAbout"
| "effect_call Quit = CallQuit"
| "effect_call SnoozeDetection = CallSnoozeDetection"
| "effect_call (SuppressApp k) = CallSuppressApp k"

lemma dispatch_one_plain:
  "eff \<noteq> StartCapture \<Longrightarrow> dispatch_one host rt eff = (call (effect_call eff) rt, [])"
  by (cases eff) (simp_all add: dispatch_one_def)

lemma dispatch_loop_Nil [simp]: "dispatch_loop n host rt [] = (rt, [])"
  by (cases n) auto

lemma dispatch_loop_Cons:
  "0 < n \<Longrightarrow> dispatch_loop n host rt (eff # rest) =
     (case dispatch_one host rt eff of (rt', added) \<Rightarrow> dispatch_loop (n - 1) host rt' (rest @ added))"
  by (cases n) auto

lemma dispatch_loop_plain:
  assumes "StartCapture \<notin> set effs" and "length effs < n"
  shows "dispatch_loop n host rt effs = (rt\<lparr>calls := calls rt @ map effect_call effs\<rparr>, [])"
  using assms
proof (induction effs arbitrary: n rt)
  case Nil
  then show ?case by (cases n) auto
next
  case (Cons e effs)
  then obtain k where "n = Suc k" by (cases n) auto
  with Cons show ?case by (auto simp: dispatch_one_plain call_def)
qed

lemma transition_effects_length: "length (snd (transition c p orig)) \<le> 3"
  by (auto simp: transition_effects split: option.splits)

lemma handle_effects_length: "length (snd (handle c i)) \<le> 3"
  using transition_effects_length
  by (cases i)
    (auto simp: handle_def answer_prompt_def Let_def split: option.splits prompt_choice.splits)

lemma toggle_effects_length: "length (snd (toggle c now orig)) \<le> 3"
  using handle_effects_length by (auto simp: toggle_def split: phase.splits)

lemma shell_step_effects_length: "length (snd (shell_step c a)) \<le> 3"
  using handle_effects_length toggle_effects_length
  by (cases a) (auto simp: on_menu_def split: menu_action.splits)

text \<open>A result of a step whose start and stop effects are exactly its changes of capture.\<close>

definition edge_ok :: "shell_core \<Rightarrow> shell_core \<times> shell_effect list \<Rightarrow> bool" where
  "edge_ok c r \<longleftrightarrow>
     (StartCapture \<in> set (snd r) \<longleftrightarrow> \<not> capture c \<and> capture (fst r)) \<and>
     (StopCapture \<in> set (snd r) \<longrightarrow> capture c \<and> \<not> capture (fst r))"

lemma edge_ok_transition [simp]: "edge_ok c (transition c p orig)"
  by (auto simp: edge_ok_def transition_effects split: option.split)

lemma edge_ok_same [simp]:
  "capture c' = capture c \<Longrightarrow> StartCapture \<notin> set effs \<Longrightarrow> StopCapture \<notin> set effs \<Longrightarrow> edge_ok c (c', effs)"
  by (simp add: edge_ok_def)

lemma edge_ok_withdrawn [simp]: "edge_ok c (transition (withdraw_prompt c) p orig)"
  using edge_ok_transition [of "withdraw_prompt c" p orig] by (simp add: edge_ok_def)

lemma edge_ok_answer_prompt [simp]: "edge_ok c (answer_prompt c choice t)"
  by (simp add: answer_prompt_def Let_def split: option.split prompt_choice.split)

lemma edge_ok_handle [simp]: "edge_ok c (handle c i)"
  by (cases i) (simp_all add: handle_def)

lemma edge_ok_toggle [simp]: "edge_ok c (toggle c now orig)"
  by (simp add: toggle_def split: phase.split)

lemma edge_ok_step: "edge_ok c (shell_step c a)"
  by (cases a) (simp_all add: on_menu_def split: menu_action.split)

lemma step_capture_change:
  "StartCapture \<in> set (snd (shell_step c a)) \<longleftrightarrow> \<not> capture c \<and> capture (fst (shell_step c a))"
  "StopCapture \<in> set (snd (shell_step c a)) \<Longrightarrow> capture c \<and> \<not> capture (fst (shell_step c a))"
  using edge_ok_step [of c a] unfolding edge_ok_def by blast+

lemma started_state:
  assumes "shell_inv c" and "StartCapture \<in> set (snd (shell_step c a))"
  obtains t e where "phase (fst (shell_step c a)) = Recording t e"
    and "shell_inv (fst (shell_step c a))"
proof -
  have "shell_inv (fst (shell_step c a))" using assms(1) by (rule shell_step_inv)
  moreover have "capture (fst (shell_step c a))"
    using step_capture_change(1) assms(2) by blast
  ultimately show ?thesis
    using that by (cases "phase (fst (shell_step c a))") (auto simp: shell_inv_def)
qed

lemma failed_start:
  assumes "phase c = Recording t e" and "shell_inv c"
  shows "snd (handle c (CaptureFailed reason)) = [StopCapture]"
    and "phase (fst (handle c (CaptureFailed reason))) = Faulted e reason"
    and "\<not> capture (fst (handle c (CaptureFailed reason)))"
  using assms by (simp_all add: handle_def transition_effects shell_inv_def)

text \<open>
  The three ways a step ends: nothing to start, a start the host accepts, and a start it
  refuses, which is answered by a stop and leaves the shell in the failed phase.
\<close>

lemma feed_plain:
  assumes "StartCapture \<notin> set (snd (shell_step (core rt) a))"
  shows "dispatch_loop 64 host (rt\<lparr>core := fst (shell_step (core rt) a)\<rparr>) (snd (shell_step (core rt) a))
    = (\<lparr>core = fst (shell_step (core rt) a),
        calls = calls rt @ map effect_call (snd (shell_step (core rt) a))\<rparr>, [])"
proof -
  have "length (snd (shell_step (core rt) a)) < 64"
    using shell_step_effects_length [of "core rt" a] by simp
  from dispatch_loop_plain [OF assms this] show ?thesis by simp
qed

lemma feed_start:
  assumes "shell_inv (core rt)" and "StartCapture \<in> set (snd (shell_step (core rt) a))"
  shows "\<exists>orig ticks. set ticks \<subseteq> {CallSetTicking True} \<and>
    dispatch_loop 64 host (rt\<lparr>core := fst (shell_step (core rt) a)\<rparr>) (snd (shell_step (core rt) a)) =
      (case start_result host (calls rt @ [CallAuditStart orig]) of
         None \<Rightarrow>
           (\<lparr>core = fst (shell_step (core rt) a),
             calls = calls rt @ [CallAuditStart orig, CallStartCapture] @ ticks\<rparr>, [])
       | Some reason \<Rightarrow>
           (\<lparr>core = fst (handle (fst (shell_step (core rt) a)) (CaptureFailed reason)),
             calls = calls rt @ [CallAuditStart orig, CallStartCapture] @ ticks @ [CallStopCapture]\<rparr>, []))"
proof -
  from shell_step_starts [OF assms] obtain orig where effs: "snd (shell_step (core rt) a) =
      [AuditStart orig, StartCapture] @ (if ticking (core rt) then [] else [StartTicking])"
    by blast
  from started_state [OF assms] obtain t e
    where st: "phase (fst (shell_step (core rt) a)) = Recording t e"
      "shell_inv (fst (shell_step (core rt) a))" .
  let ?ticks = "map effect_call (if ticking (core rt) then [] else [StartTicking])"
  show ?thesis
    using failed_start [OF st]
    unfolding effs
    by (intro exI [of _ orig] exI [of _ ?ticks])
      (auto simp: dispatch_loop_Cons dispatch_one_def call_def Let_def case_prod_beta split: option.splits)
qed

section \<open>Properties of every run\<close>

text \<open>Every start in a log of host calls is directly preceded by its audit record.\<close>

definition audited :: "host_call list \<Rightarrow> bool" where
  "audited ks \<longleftrightarrow>
     (\<forall>n < length ks. ks ! n = CallStartCapture \<longrightarrow>
        (\<exists>orig. 0 < n \<and> ks ! (n - 1) = CallAuditStart orig))"

lemma audited_Nil [simp]: "audited []"
  by (simp add: audited_def)

lemma audited_append:
  assumes "audited xs" and "audited ys"
  shows "audited (xs @ ys)"
  unfolding audited_def
proof (intro allI impI)
  fix n
  assume n: "n < length (xs @ ys)" "(xs @ ys) ! n = CallStartCapture"
  show "\<exists>orig. 0 < n \<and> (xs @ ys) ! (n - 1) = CallAuditStart orig"
  proof (cases "n < length xs")
    case True
    with n assms(1) show ?thesis by (auto simp: audited_def nth_append)
  next
    case False
    with n have "n - length xs < length ys" "ys ! (n - length xs) = CallStartCapture"
      by (auto simp: nth_append)
    with assms(2) obtain orig where "0 < n - length xs" "ys ! (n - length xs - 1) = CallAuditStart orig"
      unfolding audited_def by blast
    with False show ?thesis by (auto simp: nth_append)
  qed
qed

lemma audited_no_start: "CallStartCapture \<notin> set ks \<Longrightarrow> audited ks"
  unfolding audited_def by (metis nth_mem)

lemma audited_append_no_start:
  "audited ks \<Longrightarrow> CallStartCapture \<notin> set new \<Longrightarrow> audited (ks @ new)"
  by (rule audited_append [OF _ audited_no_start])

lemma audited_start: "audited [CallAuditStart orig, CallStartCapture]"
  by (auto simp: audited_def less_Suc_eq)

text \<open>
  The host is capturing after a log: the last start in it was accepted and nothing has
  stopped it since.
\<close>

definition host_capturing :: "shell_host \<Rightarrow> host_call list \<Rightarrow> bool" where
  "host_capturing host ks \<longleftrightarrow>
     (\<exists>xs ys. ks = xs @ CallStartCapture # ys \<and> start_result host xs = None \<and>
        CallStartCapture \<notin> set ys \<and> CallStopCapture \<notin> set ys)"

lemma host_capturing_append:
  "host_capturing host ks \<Longrightarrow> CallStartCapture \<notin> set new \<Longrightarrow> CallStopCapture \<notin> set new \<Longrightarrow>
     host_capturing host (ks @ new)"
  unfolding host_capturing_def by (metis (no_types, opaque_lifting) append.assoc append_Cons Un_iff set_append)

definition runtime_inv :: "shell_host \<Rightarrow> runtime \<Rightarrow> bool" where
  "runtime_inv host rt \<longleftrightarrow>
     shell_inv (core rt) \<and> audited (calls rt) \<and> (capture (core rt) \<longrightarrow> host_capturing host (calls rt))"

lemma effect_call_start [simp]: "effect_call eff = CallStartCapture \<longleftrightarrow> eff = StartCapture"
  by (cases eff) auto

lemma effect_call_stop [simp]: "effect_call eff = CallStopCapture \<longleftrightarrow> eff = StopCapture"
  by (cases eff) auto

lemma effect_call_image [simp]:
  "CallStartCapture \<in> effect_call ` E \<longleftrightarrow> StartCapture \<in> E"
  "CallStopCapture \<in> effect_call ` E \<longleftrightarrow> StopCapture \<in> E"
  by (metis effect_call_start effect_call_stop imageE image_eqI)+

lemma feed_inv:
  assumes "runtime_inv host rt"
  shows "runtime_inv host (feed host rt a)"
proof (cases "StartCapture \<in> set (snd (shell_step (core rt) a))")
  case False
  have inv: "shell_inv (core rt)" using assms by (simp add: runtime_inv_def)
  note change = step_capture_change [of "core rt" a]
  have "capture (fst (shell_step (core rt) a)) \<Longrightarrow>
      host_capturing host (calls rt @ map effect_call (snd (shell_step (core rt) a)))"
    using assms False change by (intro host_capturing_append) (auto simp: runtime_inv_def)
  then show ?thesis
    using assms False feed_plain [OF False, of host] shell_step_inv [OF inv]
    by (auto simp: runtime_inv_def feed_def dispatch_def case_prod_beta
        intro!: audited_append_no_start)
next
  case True
  have inv: "shell_inv (core rt)" and aud: "audited (calls rt)"
    using assms by (simp_all add: runtime_inv_def)
  from feed_start [OF inv True] obtain orig ticks
    where ticks: "set ticks \<subseteq> {CallSetTicking True}"
    and res: "dispatch_loop 64 host (rt\<lparr>core := fst (shell_step (core rt) a)\<rparr>) (snd (shell_step (core rt) a)) =
      (case start_result host (calls rt @ [CallAuditStart orig]) of
         None \<Rightarrow>
           (\<lparr>core = fst (shell_step (core rt) a),
             calls = calls rt @ [CallAuditStart orig, CallStartCapture] @ ticks\<rparr>, [])
       | Some reason \<Rightarrow>
           (\<lparr>core = fst (handle (fst (shell_step (core rt) a)) (CaptureFailed reason)),
             calls = calls rt @ [CallAuditStart orig, CallStartCapture] @ ticks @ [CallStopCapture]\<rparr>, []))"
    by blast
  obtain t e where st: "phase (fst (shell_step (core rt) a)) = Recording t e"
    using started_state [OF inv True] by blast
  have inv': "shell_inv (fst (shell_step (core rt) a))" using inv by (rule shell_step_inv)
  have ks: "audited (calls rt @ [CallAuditStart orig, CallStartCapture] @ ticks @ rest)"
    if "CallStartCapture \<notin> set rest" for rest
    using that ticks by (intro audited_append [OF aud audited_append [OF audited_start audited_no_start]]) auto
  have live: "host_capturing host (calls rt @ [CallAuditStart orig, CallStartCapture] @ ticks)"
    if "start_result host (calls rt @ [CallAuditStart orig]) = None"
    using that ticks unfolding host_capturing_def
    by (intro exI [of _ "calls rt @ [CallAuditStart orig]"] exI [of _ ticks]) auto
  have fed: "feed host rt a = fst (dispatch_loop 64 host (rt\<lparr>core := fst (shell_step (core rt) a)\<rparr>)
      (snd (shell_step (core rt) a)))"
    by (simp only: feed_def dispatch_def case_prod_beta)
  show ?thesis
  proof (cases "start_result host (calls rt @ [CallAuditStart orig])")
    case None
    with ks [of "[]"] live inv' show ?thesis
      unfolding fed res by (simp add: runtime_inv_def)
  next
    case (Some reason)
    with ks [of "[CallStopCapture]"] handle_inv [OF inv'] failed_start(3) [OF st inv'] show ?thesis
      unfolding fed res by (simp add: runtime_inv_def)
  qed
qed

lemma call_inv:
  "runtime_inv host rt \<Longrightarrow> k \<notin> {CallStartCapture, CallStopCapture} \<Longrightarrow> runtime_inv host (call k rt)"
  by (auto simp: runtime_inv_def call_def intro!: audited_append_no_start host_capturing_append)

lemma runtime_tick_inv:
  assumes "runtime_inv host rt"
  shows "runtime_inv host (runtime_tick host rt now)"
proof -
  define rt0 where "rt0 = call CallPollDetection rt"
  define rt1 where "rt1 = (case detection_result host (calls rt) of
      Some (Armed meeting) \<Rightarrow> feed host rt0 (Handle (MeetingDetected now meeting))
    | Some Cleared \<Rightarrow> feed host rt0 (Handle DetectionCleared)
    | None \<Rightarrow> rt0)"
  define rt2 where "rt2 = (if is_recording (phase (core rt1))
    then feed host (call CallLevel rt1) (Handle (LevelMeasured (level_result host (calls rt1))))
    else rt1)"
  have tick: "runtime_tick host rt now = feed host rt2 (Handle (Tick now))"
    unfolding runtime_tick_def Let_def rt0_def rt1_def rt2_def by (rule refl)
  have "runtime_inv host rt0" using assms by (simp add: rt0_def call_inv)
  then have "runtime_inv host rt1"
    by (simp add: rt1_def feed_inv split: option.split detection_update.split)
  then have "runtime_inv host rt2" by (simp add: rt2_def feed_inv call_inv)
  then show ?thesis unfolding tick by (rule feed_inv)
qed

lemma on_chord_inv:
  assumes "runtime_inv host rt"
  shows "runtime_inv host (fst (on_chord host hk rt c now))"
proof -
  have "runtime_inv host (dispatch host rt [OpenNotes])"
    using assms by (simp add: dispatch_def dispatch_loop_Cons dispatch_one_plain call_inv)
  with assms show ?thesis
    by (simp add: on_chord_def feed_inv split: option.split hotkey_action.split)
qed

lemma runtime_step_inv: "runtime_inv host rt \<Longrightarrow> runtime_inv host (runtime_step host hk rt ev)"
  by (cases ev) (simp_all add: runtime_tick_inv on_chord_inv feed_inv)

interpretation shell_runtime:
  machine "\<lambda>rt ev. (runtime_step host hk rt ev, ())" runtime_new "runtime_inv host" for host hk
proof unfold_locales
  show "runtime_inv host runtime_new"
    using shell.inv_start by (simp add: runtime_inv_def runtime_new_def shell_new_def)
qed (simp add: runtime_step_inv)

text \<open>
  C28. Whatever the host answers and whatever the user, the clock and the capture layer do,
  in the calls a running shell has made to its host every request to start capturing comes
  directly after the audit record of the person's action that caused it.
\<close>

theorem starts_are_audited_calls:
  assumes "rt = run_state (\<lambda>rt ev. (runtime_step host hk rt ev, ())) runtime_new evs"
    and "n < length (calls rt)" and "calls rt ! n = CallStartCapture"
  shows "\<exists>orig. 0 < n \<and> calls rt ! (n - 1) = CallAuditStart orig"
  using shell_runtime.inv_run_start [of host hk evs] assms
  by (auto simp: runtime_inv_def audited_def)

definition eager_host :: shell_host where
  "eager_host = \<lparr>start_result = (\<lambda>_. None), level_result = (\<lambda>_. SILENT), detection_result = (\<lambda>_. None)\<rparr>"

lemma eager_start_calls:
  "feed eager_host runtime_new (Handle (Start (from_secs 7) OriginWebUi)) =
     \<lparr>core = fst (handle shell_new (Start (from_secs 7) OriginWebUi)),
      calls = [CallAuditStart OriginWebUi, CallStartCapture, CallSetTicking True]\<rparr>"
  by (simp add: feed_def dispatch_def runtime_new_def handle_def start_blocked_def shell_new_def
      case_prod_beta transition_effects dispatch_loop_Cons dispatch_one_def call_def eager_host_def)

theorem starts_are_audited_calls_witness:
  "\<exists>orig. calls (runtime_step eager_host [] runtime_new (RequestStart OriginWebUi (from_secs 7))) ! 0
     = CallAuditStart orig"
  using starts_are_audited_calls [OF refl, of 1 eager_host "[]" "[RequestStart OriginWebUi (from_secs 7)]"]
  by (simp add: eager_start_calls)

text \<open>
  C29. When the shell believes capture is live, the host really is capturing: its last start
  request was accepted and no stop has been sent since. A start the host refuses therefore
  never leaves the indicator claiming a recording. The loop that carries out effects never
  reaches its 64-effect guard, so no effect is ever dropped.
\<close>

theorem live_means_host_capturing:
  assumes "rt = run_state (\<lambda>rt ev. (runtime_step host hk rt ev, ())) runtime_new evs"
  shows "(capture (core rt) \<longrightarrow> host_capturing host (calls rt))
    \<and> snd (dispatch_loop 64 host (rt\<lparr>core := fst (shell_step (core rt) a)\<rparr>)
        (snd (shell_step (core rt) a))) = []"
proof -
  have inv: "runtime_inv host rt" unfolding assms by (rule shell_runtime.inv_run_start)
  have "snd (dispatch_loop 64 host (rt\<lparr>core := fst (shell_step (core rt) a)\<rparr>)
      (snd (shell_step (core rt) a))) = []"
    using inv feed_plain [of rt a host] feed_start [of rt a host]
    by (cases "StartCapture \<in> set (snd (shell_step (core rt) a))")
      (auto simp: runtime_inv_def split: option.splits)
  with inv show ?thesis by (simp add: runtime_inv_def)
qed

theorem live_means_host_capturing_witness:
  "host_capturing eager_host
     (calls (runtime_step eager_host [] runtime_new (RequestStart OriginWebUi (from_secs 7))))"
  using live_means_host_capturing [OF refl, of eager_host "[]" "[RequestStart OriginWebUi (from_secs 7)]"]
  by (simp add: eager_start_calls handle_def start_blocked_def shell_new_def)

end
