(* ===== verification/Retry.thy ===== *)
theory Retry
  imports Prelude
begin

text \<open>
  Who may try again, and when. Two budgets guard the program against a peer that dies at
  once every time it is started: the restarts of the speech helper
  (\<^verbatim>\<open>crates/fotw-speechd-client/src/restart.rs\<close>) and the reconnects of a
  transcription stream (\<^verbatim>\<open>crates/fotw-stt/src/backoff.rs\<close>), the latter with its
  capped exponential schedule and its jitter generator. The clock is an argument in both,
  so times are numbers: nanoseconds since some epoch in the first, milliseconds in the
  second.
\<close>

section \<open>Restarting the helper\<close>

record restart_policy =
  max_attempts :: nat
  min_interval :: nat

definition restart_policy_default :: restart_policy where
  "restart_policy_default = \<lparr>max_attempts = 3, min_interval = 2 * 10 ^ 9\<rparr>"

record restart_budget =
  policy :: restart_policy
  attempts :: nat
  last_spawn :: "nat option"

datatype exhausted = Exhausted nat

definition restart_new :: "restart_policy \<Rightarrow> restart_budget" where
  "restart_new p = \<lparr>policy = p, attempts = 0, last_spawn = None\<rparr>"

definition take_attempt :: "restart_budget \<Rightarrow> nat \<Rightarrow> restart_budget \<times> (exhausted, nat) outcome" where
  "take_attempt b now =
     (if max_attempts (policy b) \<le> attempts b then (b, Err (Exhausted (attempts b)))
      else (b\<lparr>attempts := attempts b + 1\<rparr>,
            Ok (case last_spawn b of None \<Rightarrow> 0 | Some t \<Rightarrow> (t + min_interval (policy b)) - now)))"

definition spawned :: "restart_budget \<Rightarrow> nat \<Rightarrow> restart_budget" where
  "spawned b t = b\<lparr>last_spawn := Some t\<rparr>"

definition succeeded :: "restart_budget \<Rightarrow> restart_budget" where
  "succeeded b = b\<lparr>attempts := 0\<rparr>"

text \<open>The budget's owner calls it in any order.\<close>

datatype restart_event = TakeAttempt nat | Spawned nat | Succeeded

fun restart_step ::
  "restart_budget \<Rightarrow> restart_event \<Rightarrow> restart_budget \<times> (exhausted, nat) outcome option" where
  "restart_step b (TakeAttempt now) = map_prod id Some (take_attempt b now)"
| "restart_step b (Spawned t) = (spawned b t, None)"
| "restart_step b Succeeded = (succeeded b, None)"

text \<open>
  What the budget promises, told on the sequence of calls alone: how many attempts were
  asked for since the last success, and when the last spawn was.
\<close>

fun asked_since_success :: "restart_event list \<Rightarrow> nat \<Rightarrow> nat" where
  "asked_since_success [] n = n"
| "asked_since_success (TakeAttempt _ # es) n = asked_since_success es (n + 1)"
| "asked_since_success (Spawned _ # es) n = asked_since_success es n"
| "asked_since_success (Succeeded # es) n = asked_since_success es 0"

fun last_spawned :: "restart_event list \<Rightarrow> nat option \<Rightarrow> nat option" where
  "last_spawned [] t = t"
| "last_spawned (Spawned t # es) _ = last_spawned es (Some t)"
| "last_spawned (_ # es) t = last_spawned es t"

lemma asked_since_success_snoc:
  "asked_since_success (es @ [e]) n =
     (case e of TakeAttempt _ \<Rightarrow> asked_since_success es n + 1
      | Spawned _ \<Rightarrow> asked_since_success es n | Succeeded \<Rightarrow> 0)"
  by (induction es n rule: asked_since_success.induct) (auto split: restart_event.split)

lemma last_spawned_snoc:
  "last_spawned (es @ [e]) t = (case e of Spawned t' \<Rightarrow> Some t' | _ \<Rightarrow> last_spawned es t)"
  by (induction es t rule: last_spawned.induct) (auto split: restart_event.split)

lemma restart_state:
  "run_state restart_step (restart_new p) es =
     \<lparr>policy = p, attempts = min (max_attempts p) (asked_since_success es 0),
      last_spawn = last_spawned es None\<rparr>"
proof (induction es rule: rev_induct)
  case Nil
  then show ?case by (simp add: restart_new_def)
next
  case (snoc e es)
  then show ?case
    by (cases e)
      (auto simp: asked_since_success_snoc last_spawned_snoc take_attempt_def spawned_def succeeded_def
        min_def split: if_splits)
qed

text \<open>
  C10. The restart budget is exactly what its calls say. After any sequence of calls, one
  more request is refused if and only if the policy's limit has been asked for since the
  last success, and the refusal reports that limit; otherwise the wait it returns is the
  rest of the minimum interval since the last spawn, nothing if that has passed or there was
  none. A success refills the attempts but never shortens the spacing.
\<close>

theorem restart_budget_exact:
  "snd (restart_step (run_state restart_step (restart_new p) es) (TakeAttempt now)) =
     Some (if max_attempts p \<le> asked_since_success es 0 then Err (Exhausted (max_attempts p))
           else Ok (case last_spawned es None of None \<Rightarrow> 0 | Some t \<Rightarrow> t + min_interval p - now))"
  by (auto simp: restart_state take_attempt_def split: option.split)

section \<open>The reconnect schedule\<close>

record backoff_policy =
  base_ms :: nat
  factor :: nat
  cap_ms :: nat
  bp_max_attempts :: nat
  window_ms :: nat

definition DEFAULT_BASE_MS :: nat where "DEFAULT_BASE_MS = 250"

definition DEFAULT_CAP_MS :: nat where "DEFAULT_CAP_MS = 8000"

definition DEFAULT_MAX_ATTEMPTS :: nat where "DEFAULT_MAX_ATTEMPTS = 6"

definition DEFAULT_WINDOW_MS :: nat where "DEFAULT_WINDOW_MS = 60000"

definition backoff_spec :: backoff_policy where
  "backoff_spec = \<lparr>base_ms = DEFAULT_BASE_MS, factor = 2, cap_ms = DEFAULT_CAP_MS,
     bp_max_attempts = DEFAULT_MAX_ATTEMPTS, window_ms = DEFAULT_WINDOW_MS\<rparr>"

text \<open>The loop multiplies the delay once per attempt and leaves as soon as the cap is reached.\<close>

primrec delay_loop :: "backoff_policy \<Rightarrow> nat \<Rightarrow> nat \<Rightarrow> nat" where
  "delay_loop p 0 delay = min delay (cap_ms p)"
| "delay_loop p (Suc n) delay =
     (let delay' = sat_mul64 delay (factor p)
      in if cap_ms p \<le> delay' then cap_ms p else delay_loop p n delay')"

definition unjittered_delay_ms :: "backoff_policy \<Rightarrow> nat \<Rightarrow> nat" where
  "unjittered_delay_ms p attempt = delay_loop p attempt (base_ms p)"

lemma capped_stays_capped:
  assumes "(cap::nat) \<le> delay * f" and "0 < f"
  shows "cap \<le> delay * f ^ Suc n"
proof -
  have "delay * f * 1 \<le> delay * f * f ^ n" using assms(2) by (intro mult_left_mono) simp_all
  then have "delay * f \<le> delay * f ^ Suc n" by (simp only: power_Suc mult_1_right mult.assoc)
  with assms(1) show ?thesis by (rule order_trans)
qed

lemma delay_loop_closed:
  assumes "cap_ms p \<le> u64_max"
  shows "delay_loop p n delay = min (delay * factor p ^ n) (cap_ms p)"
proof (induction n arbitrary: delay)
  case (Suc n)
  show ?case
  proof (cases "cap_ms p \<le> sat_mul64 delay (factor p)")
    case True
    then have "cap_ms p \<le> delay * factor p" unfolding sat_mul64_def by linarith
    then have "cap_ms p = 0 \<or> cap_ms p \<le> delay * factor p \<and> 0 < factor p" by (cases "factor p") simp_all
    then have "cap_ms p \<le> delay * factor p ^ Suc n" using capped_stays_capped by (metis le0)
    with True show ?thesis by (simp only: delay_loop.simps Let_def if_True min.absorb2)
  next
    case False
    then have "sat_mul64 delay (factor p) = delay * factor p"
      using assms by (auto simp: sat_mul64_def min_def split: if_splits)
    with False show ?thesis by (simp add: Suc mult.assoc)
  qed
qed simp

text \<open>
  The delay before a retry is the capped exponential: the base times the factor to the
  attempt number, or the cap if that is smaller, whatever the numbers are. The saturating
  multiplication never folds a huge delay back to a short one.
\<close>

theorem unjittered_delay_exponential:
  assumes "cap_ms p \<le> u64_max"
  shows "unjittered_delay_ms p n = min (base_ms p * factor p ^ n) (cap_ms p)"
  unfolding unjittered_delay_ms_def by (rule delay_loop_closed [OF assms])

theorem unjittered_delay_exponential_witness:
  "unjittered_delay_ms backoff_spec 4 = 4000 \<and> unjittered_delay_ms backoff_spec 70 = 8000"
proof -
  have ok: "cap_ms backoff_spec \<le> u64_max"
    by (simp add: backoff_spec_def DEFAULT_CAP_MS_def u64_max_def)
  show ?thesis
    using unjittered_delay_exponential [OF ok, of 4] unjittered_delay_exponential [OF ok, of 70]
    by (simp add: backoff_spec_def DEFAULT_BASE_MS_def DEFAULT_CAP_MS_def)
qed

section \<open>The rolling window\<close>

record reconnect_budget =
  rb_max_attempts :: nat
  rb_window_ms :: nat
  rb_attempts :: "nat list"

definition reconnect_new :: "nat \<Rightarrow> nat \<Rightarrow> reconnect_budget" where
  "reconnect_new m w = \<lparr>rb_max_attempts = m, rb_window_ms = w, rb_attempts = []\<rparr>"

definition budget :: "backoff_policy \<Rightarrow> reconnect_budget" where
  "budget p = reconnect_new (bp_max_attempts p) (window_ms p)"

definition as_u32 :: "nat \<Rightarrow> nat" where
  "as_u32 n = n mod 2 ^ 32"

primrec prune_front :: "nat \<Rightarrow> nat \<Rightarrow> nat list \<Rightarrow> nat list" where
  "prune_front w now [] = []"
| "prune_front w now (oldest # rest) =
     (if sat_add64 oldest w \<le> now then prune_front w now rest else oldest # rest)"

definition prune :: "reconnect_budget \<Rightarrow> nat \<Rightarrow> reconnect_budget" where
  "prune b now = b\<lparr>rb_attempts := prune_front (rb_window_ms b) now (rb_attempts b)\<rparr>"

definition try_record :: "reconnect_budget \<Rightarrow> nat \<Rightarrow> reconnect_budget \<times> nat option" where
  "try_record b now =
     (let b = prune b now
      in if rb_max_attempts b \<le> as_u32 (length (rb_attempts b)) then (b, None)
         else (let b = b\<lparr>rb_attempts := rb_attempts b @ [now]\<rparr>
               in (b, Some (as_u32 (length (rb_attempts b)) - 1))))"

definition remaining :: "reconnect_budget \<Rightarrow> nat \<Rightarrow> reconnect_budget \<times> nat" where
  "remaining b now =
     (let b = prune b now in (b, rb_max_attempts b - as_u32 (length (rb_attempts b))))"

definition clear :: "reconnect_budget \<Rightarrow> reconnect_budget" where
  "clear b = b\<lparr>rb_attempts := []\<rparr>"

text \<open>
  The abstract window: it keeps every granted time and, at each request, counts those that
  are still inside the window. The code keeps only the recent ones in a queue.
\<close>

definition recent :: "nat \<Rightarrow> nat \<Rightarrow> nat list \<Rightarrow> nat list" where
  "recent w now granted = filter (\<lambda>g. now < g + w) granted"

primrec window_results :: "nat \<Rightarrow> nat \<Rightarrow> nat list \<Rightarrow> nat list \<Rightarrow> nat option list" where
  "window_results m w granted [] = []"
| "window_results m w granted (now # nows) =
     (if m \<le> length (recent w now granted) then None # window_results m w granted nows
      else Some (length (recent w now granted)) # window_results m w (granted @ [now]) nows)"

text \<open>The times at which a sequence of requests was granted.\<close>

definition granted_times :: "nat list \<Rightarrow> nat option list \<Rightarrow> nat list" where
  "granted_times nows results = map fst (filter (\<lambda>(_, r). r \<noteq> None) (zip nows results))"

lemma granted_times_Cons [simp]:
  "granted_times (now # nows) (r # rs) = (if r = None then [] else [now]) @ granted_times nows rs"
  "granted_times [] [] = []"
  by (auto simp: granted_times_def)

lemma prune_front_recent:
  assumes "sorted ts" and "now < u64_max"
  shows "prune_front w now ts = recent w now ts"
  using assms(1)
proof (induction ts)
  case (Cons t ts)
  have iff: "sat_add64 t w \<le> now \<longleftrightarrow> \<not> now < t + w" using assms(2) by (auto simp: sat_add64_def)
  show ?case
  proof (cases "now < t + w")
    case True
    then have "\<forall>x\<in>set ts. now < x + w" using Cons.prems by (auto intro: less_le_trans)
    with True show ?thesis by (simp add: iff recent_def)
  next
    case False
    with Cons show ?thesis by (simp add: iff recent_def)
  qed
qed (simp add: recent_def)

lemma recent_later: "now \<le> later \<Longrightarrow> recent w later (recent w now ts) = recent w later ts"
  by (auto simp: recent_def intro: filter_cong)

lemma sorted_recent [simp]: "sorted ts \<Longrightarrow> sorted (recent w now ts)"
  by (simp add: recent_def sorted_wrt_filter)

lemma recent_append [simp]: "recent w now (xs @ ys) = recent w now xs @ recent w now ys"
  by (simp add: recent_def)

text \<open>One request: the queue is the recent part of the granted times before and after it.\<close>

lemma try_record_recent:
  assumes "sorted granted" and "last_now \<le> now" and "now < u64_max"
    and "rb_attempts b = recent (rb_window_ms b) last_now granted"
    and "length (rb_attempts b) \<le> rb_max_attempts b" and "rb_max_attempts b < 2 ^ 32"
  shows "try_record b now =
    (let q = recent (rb_window_ms b) now granted
     in if rb_max_attempts b \<le> length q then (b\<lparr>rb_attempts := q\<rparr>, None)
        else (b\<lparr>rb_attempts := q @ [now]\<rparr>, Some (length q)))"
proof -
  have q: "prune_front (rb_window_ms b) now (rb_attempts b) = recent (rb_window_ms b) now granted"
    using assms(1-4) by (simp add: prune_front_recent recent_later)
  have "length (recent (rb_window_ms b) now granted) \<le> length (rb_attempts b)"
    using recent_later [OF assms(2), of "rb_window_ms b" granted]
    by (metis assms(4) length_filter_le recent_def)
  then have len: "length (recent (rb_window_ms b) now granted) \<le> rb_max_attempts b"
    using assms(5) by linarith
  then show ?thesis
    using assms(6) by (simp add: try_record_def prune_def q Let_def as_u32_def)
qed

definition window_ok :: "nat \<Rightarrow> nat \<Rightarrow> nat list \<Rightarrow> bool" where
  "window_ok m w granted \<longleftrightarrow> (\<forall>t. length (filter (\<lambda>g. t \<le> g \<and> g < t + w) granted) \<le> m)"

lemma window_ok_grant:
  assumes "window_ok m w granted" and "length (recent w now granted) < m"
    and "\<forall>g\<in>set granted. g \<le> now"
  shows "window_ok m w (granted @ [now])"
  unfolding window_ok_def
proof
  fix t
  show "length (filter (\<lambda>g. t \<le> g \<and> g < t + w) (granted @ [now])) \<le> m"
  proof (cases "t \<le> now \<and> now < t + w")
    case True
    have "filter (\<lambda>g. t \<le> g \<and> g < t + w) granted = filter (\<lambda>g. t \<le> g \<and> g < t + w) (recent w now granted)"
      using True by (auto simp: recent_def intro: filter_cong)
    then have "length (filter (\<lambda>g. t \<le> g \<and> g < t + w) granted) \<le> length (recent w now granted)"
      by (metis length_filter_le)
    with True assms(2) show ?thesis by simp
  next
    case False
    then have "filter (\<lambda>g. t \<le> g \<and> g < t + w) (granted @ [now])
        = filter (\<lambda>g. t \<le> g \<and> g < t + w) granted"
      by auto
    with assms(1) show ?thesis unfolding window_ok_def by metis
  qed
qed

lemma window_refines:
  assumes "sorted (granted @ nows)" and "\<forall>now\<in>set nows. last_now \<le> now \<and> now < u64_max"
    and "0 < rb_window_ms b" and "rb_max_attempts b < 2 ^ 32"
    and "rb_attempts b = recent (rb_window_ms b) last_now granted"
    and "length (rb_attempts b) \<le> rb_max_attempts b"
    and "window_ok (rb_max_attempts b) (rb_window_ms b) granted"
  shows "run_log try_record b nows = window_results (rb_max_attempts b) (rb_window_ms b) granted nows
    \<and> window_ok (rb_max_attempts b) (rb_window_ms b) (granted @ granted_times nows (run_log try_record b nows))"
  using assms
proof (induction nows arbitrary: granted b last_now)
  case (Cons now nows)
  let ?q = "recent (rb_window_ms b) now granted"
  have step: "try_record b now = (let q = ?q in if rb_max_attempts b \<le> length q
      then (b\<lparr>rb_attempts := q\<rparr>, None) else (b\<lparr>rb_attempts := q @ [now]\<rparr>, Some (length q)))"
    using Cons.prems by (intro try_record_recent) (auto simp: sorted_append)
  have le: "\<forall>g\<in>set granted. g \<le> now" and later: "\<forall>n\<in>set nows. now \<le> n \<and> n < u64_max"
    using Cons.prems by (auto simp: sorted_append)
  show ?case
  proof (cases "rb_max_attempts b \<le> length ?q")
    case True
    have "length ?q \<le> length (rb_attempts b)"
      using recent_later [of last_now now "rb_window_ms b" granted] Cons.prems(2,5)
      by (metis length_filter_le list.set_intros(1) recent_def)
    moreover from step True have "try_record b now = (b\<lparr>rb_attempts := ?q\<rparr>, None)"
      by (simp add: Let_def)
    ultimately show ?thesis
      using Cons.IH [of granted now "b\<lparr>rb_attempts := ?q\<rparr>"] Cons.prems True later
      by (auto simp: sorted_append)
  next
    case False
    have "window_ok (rb_max_attempts b) (rb_window_ms b) (granted @ [now])"
      using Cons.prems False le by (intro window_ok_grant) auto
    moreover have "?q @ [now] = recent (rb_window_ms b) now (granted @ [now])"
      using Cons.prems(3) by (simp add: recent_def)
    moreover from step False have "try_record b now = (b\<lparr>rb_attempts := ?q @ [now]\<rparr>, Some (length ?q))"
      by (simp add: Let_def)
    ultimately show ?thesis
      using Cons.IH [of "granted @ [now]" now "b\<lparr>rb_attempts := ?q @ [now]\<rparr>"] Cons.prems False later
      by auto
  qed
qed simp

text \<open>
  C9. The reconnect budget is a true rolling window. For requests at any non-decreasing
  times, the answers are exactly those of a counter that remembers every grant and refuses
  while the window before the request already holds the limit; the index returned is the
  number of grants still in the window. And no interval as long as the window, wherever it
  starts, ever contains more grants than the limit, so a socket that opens and dies at once
  cannot loop.
\<close>

theorem reconnect_budget_window:
  assumes "sorted nows" and "\<forall>now\<in>set nows. now < u64_max" and "0 < w" and "m < 2 ^ 32"
    and "results = run_log try_record (reconnect_new m w) nows"
  shows "results = window_results m w [] nows
    \<and> length (filter (\<lambda>g. t \<le> g \<and> g < t + w) (granted_times nows results)) \<le> m"
proof -
  have "window_ok m w []" by (simp add: window_ok_def)
  with window_refines [of "[]" nows 0 "reconnect_new m w"] assms(1-4)
  have "run_log try_record (reconnect_new m w) nows = window_results m w [] nows"
    "window_ok m w (granted_times nows (run_log try_record (reconnect_new m w) nows))"
    by (auto simp: reconnect_new_def recent_def)
  then show ?thesis unfolding assms(5) window_ok_def by blast
qed

theorem reconnect_budget_window_witness:
  "run_log try_record (reconnect_new 2 100) [10, 50, 80, 110, 120] = [Some 0, Some 1, None, Some 1, None]"
  using reconnect_budget_window [of "[10, 50, 80, 110, 120]" 100 2, OF _ _ _ _ refl]
  by (simp add: u64_max_def recent_def)

section \<open>The jitter generator\<close>

text \<open>
  The xorshift64* generator. A draw is the top 53 bits of the product over \<open>2 ^ 53\<close>, which
  a \<^verbatim>\<open>f64\<close> represents exactly, so it is the rational number below.
\<close>

type_synonym process_jitter = "64 word"

definition from_seed :: "64 word \<Rightarrow> process_jitter" where
  "from_seed seed = (if seed = 0 then 0x9E3779B97F4A7C15 else seed)"

definition xorshift :: "process_jitter \<Rightarrow> process_jitter" where
  "xorshift s =
     (let s = xor s (drop_bit 12 s); s = xor s (push_bit 25 s) in xor s (drop_bit 27 s))"

definition unit_draw :: "process_jitter \<Rightarrow> process_jitter \<times> rat" where
  "unit_draw s =
     (let s = xorshift s; value = s * 0x2545F4914F6CDD1D
      in (s, of_nat (unat (drop_bit 11 value)) / 2 ^ 53))"

lemma drop_bit_fixed:
  assumes "(x :: 'a::len word) = drop_bit n x" and "0 < n"
  shows "x = 0"
proof -
  have "unat x = unat x div 2 ^ n" using assms(1) by (metis drop_bit_eq_div unat_drop_bit_eq)
  moreover have "(1::nat) < 2 ^ n" using assms(2) by (rule one_less_power [rotated]) simp
  then have "unat x div 2 ^ n < unat x" if "0 < unat x"
    using that by (rule div_less_dividend)
  ultimately show ?thesis by (metis less_irrefl neq0_conv unat_eq_0)
qed

lemma push_bit_fixed:
  assumes "(x :: 'a::len word) = push_bit n x" and "0 < n"
  shows "x = 0"
proof (rule bit_eqI)
  fix k
  show "bit x k = bit (0 :: 'a word) k"
  proof (induction k rule: less_induct)
    case (less k)
    have "bit x k = (n \<le> k \<and> bit x (k - n) \<and> k < LENGTH('a))"
      by (subst assms(1)) (auto simp: bit_push_bit_iff)
    then show ?case using less [of "k - n"] assms(2) by (cases "n \<le> k") auto
  qed
qed

lemma xor_zero_iff: "xor x y = 0 \<longleftrightarrow> x = (y :: 'a::len word)"
  by (metis xor.commute xor.left_commute xor.right_neutral xor_self_eq)

lemma xorshift_nonzero: "s \<noteq> 0 \<Longrightarrow> xorshift s \<noteq> 0"
  unfolding xorshift_def Let_def
  by (metis drop_bit_fixed push_bit_fixed xor_zero_iff zero_less_numeral)

interpretation jitter: machine "\<lambda>s (_ :: unit). unit_draw s" "from_seed seed" "\<lambda>s. s \<noteq> 0" for seed
  by unfold_locales (simp_all add: from_seed_def unit_draw_def Let_def xorshift_nonzero)

lemma unit_draw_range: "0 \<le> snd (unit_draw s) \<and> snd (unit_draw s) < 1"
proof -
  have "unat (drop_bit 11 v) < 2 ^ 53" for v :: "64 word"
  proof -
    have "unat (drop_bit 11 v) = unat v div 2 ^ 11" by (metis unat_drop_bit_eq drop_bit_eq_div)
    moreover have "unat v < 2 ^ 64" using unsigned_less [of v, where 'a = nat] by simp
    ultimately show ?thesis by (simp add: less_mult_imp_div_less)
  qed
  then have "rat_of_nat (unat (drop_bit 11 v)) < 2 ^ 53" for v :: "64 word"
    by (metis of_nat_less_iff of_nat_numeral of_nat_power)
  moreover have "0 \<le> rat_of_nat (unat w)" for w :: "64 word" by (rule of_nat_0_le_iff)
  ultimately show ?thesis
    unfolding unit_draw_def Let_def snd_conv by (simp only: divide_less_eq_1 zero_le_divide_iff) simp
qed

text \<open>
  The jitter generator never gets stuck: from any seed, zero included, its state is never
  the zero fixed point of the shift steps, and every draw lies in the half-open unit interval
  that the schedule assumes.
\<close>

theorem jitter_never_degenerates:
  "run_state (\<lambda>s (_ :: unit). unit_draw s) (from_seed seed) draws \<noteq> 0
   \<and> list_all (\<lambda>d. 0 \<le> d \<and> d < 1) (run_log (\<lambda>s (_ :: unit). unit_draw s) (from_seed seed) draws)"
  using jitter.inv_run_start jitter.log_all [of "\<lambda>d. 0 \<le> d \<and> d < 1", OF unit_draw_range jitter.inv_start]
  by (auto simp: list_all_iff)

end
