(* ===== verification/Handoff.thy ===== *)
theory Handoff
  imports Prelude
begin

text \<open>
  When a transcription source leaves the cloud provider for the local engine
  (\<^verbatim>\<open>crates/fotwd/src/failover/policy.rs\<close>), with the error taxonomy it reads
  (\<^verbatim>\<open>crates/fotw-stt/src/error.rs\<close>) and the stream states it observes
  (\<^verbatim>\<open>crates/fotw-stt/src/stream.rs\<close>). Times are milliseconds of one monotonic clock,
  passed in with every observation.
\<close>

section \<open>Errors and stream states\<close>

datatype stt_error_class =
  Auth | Quota | RateLimit | Concurrency | BadRequest | Unsupported | Network | Server
| AudioFormat | SessionLimit

datatype failover_policy = FpFailover | FpBackoff | FpReconnect | FpSurface

fun class_failover_policy :: "stt_error_class \<Rightarrow> failover_policy" where
  "class_failover_policy Auth = FpFailover"
| "class_failover_policy Quota = FpFailover"
| "class_failover_policy RateLimit = FpBackoff"
| "class_failover_policy Concurrency = FpBackoff"
| "class_failover_policy Network = FpBackoff"
| "class_failover_policy Server = FpBackoff"
| "class_failover_policy SessionLimit = FpReconnect"
| "class_failover_policy BadRequest = FpSurface"
| "class_failover_policy Unsupported = FpSurface"
| "class_failover_policy AudioFormat = FpSurface"

fun is_retryable :: "stt_error_class \<Rightarrow> bool" where
  "is_retryable Auth = False"
| "is_retryable Quota = False"
| "is_retryable BadRequest = False"
| "is_retryable Unsupported = False"
| "is_retryable AudioFormat = False"
| "is_retryable _ = True"

definition counts_against_failure_budget :: "stt_error_class \<Rightarrow> bool" where
  "counts_against_failure_budget c \<longleftrightarrow> c \<noteq> SessionLimit"

record stt_error =
  cls :: stt_error_class
  provider :: string
  message :: string
  retryable :: bool
  retry_after_ms :: "nat option"
  detail :: "string option"

definition stt_error_new :: "stt_error_class \<Rightarrow> string \<Rightarrow> string \<Rightarrow> stt_error" where
  "stt_error_new c prov msg =
     \<lparr>cls = c, provider = prov, message = msg, retryable = is_retryable c,
      retry_after_ms = None, detail = None\<rparr>"

definition with_retry_after_ms :: "stt_error \<Rightarrow> nat \<Rightarrow> stt_error" where
  "with_retry_after_ms e ms = e\<lparr>retry_after_ms := Some ms\<rparr>"

definition not_retryable :: "stt_error \<Rightarrow> string \<Rightarrow> stt_error" where
  "not_retryable e d = e\<lparr>retryable := False, detail := Some d\<rparr>"

datatype stream_state = Connecting | Open | Reconnecting | Closed

datatype switch_reason =
  ByAuth | ByQuota | TransportBudget | RateLimitBudget | SpeechStall | Manual | ResumePending
| FinishingTail

section \<open>The policy of one source\<close>

record handoff_limits =
  lim_failed_cycles :: nat
  retry_budget_ms :: nat
  speech_samples_without_final :: nat
  healthy_open_ms :: nat
  rate_pressure_budget_ms :: nat

definition handoff_limits_default :: handoff_limits where
  "handoff_limits_default = \<lparr>lim_failed_cycles = 3, retry_budget_ms = 15000,
     speech_samples_without_final = 45 * 16000, healthy_open_ms = 3000,
     rate_pressure_budget_ms = 15000\<rparr>"

datatype decision = KeepCloud | Switch switch_reason | Surface

record handoff_policy =
  limits :: handoff_limits
  decision :: decision
  transport_since :: "nat option"
  pressure_since :: "nat option"
  recovering :: bool
  cycle_armed :: bool
  last_state :: "stream_state option"
  failed_cycles :: nat
  opened_since :: "nat option"
  speech_at_final :: nat

definition handoff_new :: "handoff_limits \<Rightarrow> handoff_policy" where
  "handoff_new l = \<lparr>limits = l, decision = KeepCloud, transport_since = None, pressure_since = None,
     recovering = False, cycle_armed = False, last_state = None, failed_cycles = 0,
     opened_since = None, speech_at_final = 0\<rparr>"

definition recovered :: "handoff_policy \<Rightarrow> handoff_policy" where
  "recovered p = p\<lparr>recovering := False, cycle_armed := False, failed_cycles := 0,
     transport_since := None, pressure_since := None, opened_since := None\<rparr>"

definition pressure_remaining :: "handoff_policy \<Rightarrow> nat \<Rightarrow> nat" where
  "pressure_remaining p now =
     (let budget = min (rate_pressure_budget_ms (limits p)) (retry_budget_ms (limits p));
          pressure = budget - (case pressure_since p of None \<Rightarrow> 0 | Some start \<Rightarrow> now - start);
          transport = retry_budget_ms (limits p)
            - (case transport_since p of None \<Rightarrow> 0 | Some start \<Rightarrow> now - start)
      in min pressure transport)"

definition transport_expired :: "handoff_policy \<Rightarrow> nat \<Rightarrow> bool" where
  "transport_expired p now \<longleftrightarrow>
     is_some_and (transport_since p) (\<lambda>start. retry_budget_ms (limits p) \<le> now - start)"

definition pressure_expired :: "handoff_policy \<Rightarrow> nat \<Rightarrow> bool" where
  "pressure_expired p now \<longleftrightarrow>
     is_some_and (pressure_since p)
       (\<lambda>start. min (rate_pressure_budget_ms (limits p)) (retry_budget_ms (limits p)) \<le> now - start)"

definition tick_recovery :: "handoff_policy \<Rightarrow> nat \<Rightarrow> handoff_policy" where
  "tick_recovery p now =
     (if is_some_and (opened_since p) (\<lambda>opened. healthy_open_ms (limits p) \<le> now - opened)
      then recovered p else p)"

definition expire :: "handoff_policy \<Rightarrow> nat \<Rightarrow> nat \<Rightarrow> decision" where
  "expire p now voiced =
     (if pressure_since p \<noteq> None \<and> (pressure_expired p now \<or> transport_expired p now)
      then Switch RateLimitBudget
      else if transport_expired p now then Switch TransportBudget
      else if speech_samples_without_final (limits p) \<le> voiced - speech_at_final p
      then Switch SpeechStall
      else decision p)"

definition tick :: "handoff_policy \<Rightarrow> nat \<Rightarrow> nat \<Rightarrow> handoff_policy" where
  "tick p now voiced =
     (if decision p \<noteq> KeepCloud then p
      else (let p = tick_recovery p now in p\<lparr>decision := expire p now voiced\<rparr>))"

definition u32_max :: nat where
  "u32_max = 2 ^ 32 - 1"

definition transport_failure :: "handoff_policy \<Rightarrow> nat \<Rightarrow> stt_error_class \<Rightarrow> handoff_policy" where
  "transport_failure p now c =
     (let p = p\<lparr>opened_since :=
                  (if c = Server \<and> last_state p = Some Open then Some now else None),
                transport_since := get_or_insert (transport_since p) now\<rparr>
      in if cycle_armed p
         then (let p = p\<lparr>cycle_armed := False, failed_cycles := min (failed_cycles p + 1) u32_max\<rparr>
               in if lim_failed_cycles (limits p) \<le> failed_cycles p
                  then p\<lparr>decision := Switch TransportBudget\<rparr> else p)
         else p)"

definition pressure_failure :: "handoff_policy \<Rightarrow> nat \<Rightarrow> stt_error \<Rightarrow> handoff_policy" where
  "pressure_failure p now e =
     (let p = p\<lparr>opened_since := None, pressure_since := get_or_insert (pressure_since p) now\<rparr>
      in if is_some_and (retry_after_ms e) (\<lambda>wait. pressure_remaining p now < wait)
         then p\<lparr>decision := Switch RateLimitBudget\<rparr> else p)"

definition classify_error :: "handoff_policy \<Rightarrow> nat \<Rightarrow> stt_error \<Rightarrow> handoff_policy" where
  "classify_error p now e =
     (case cls e of
        Auth \<Rightarrow> p\<lparr>decision := Switch ByAuth\<rparr>
      | Quota \<Rightarrow> p\<lparr>decision := Switch ByQuota\<rparr>
      | SessionLimit \<Rightarrow> p
      | BadRequest \<Rightarrow> p\<lparr>decision := Surface\<rparr>
      | Unsupported \<Rightarrow> p\<lparr>decision := Surface\<rparr>
      | AudioFormat \<Rightarrow> p\<lparr>decision := Surface\<rparr>
      | Network \<Rightarrow> transport_failure p now Network
      | Server \<Rightarrow> transport_failure p now Server
      | RateLimit \<Rightarrow> pressure_failure p now e
      | Concurrency \<Rightarrow> pressure_failure p now e)"

definition error :: "handoff_policy \<Rightarrow> nat \<Rightarrow> stt_error \<Rightarrow> handoff_policy" where
  "error p now e =
     (if decision p \<noteq> KeepCloud then p
      else (let p = classify_error p now e in tick p now (speech_at_final p)))"

definition state :: "handoff_policy \<Rightarrow> nat \<Rightarrow> stream_state \<Rightarrow> handoff_policy" where
  "state p now st =
     (if decision p \<noteq> KeepCloud then p
      else (let p = p\<lparr>last_state := Some st\<rparr>
            in case st of
                 Reconnecting \<Rightarrow> p\<lparr>recovering := True, cycle_armed := True, opened_since := None\<rparr>
               | Open \<Rightarrow> (if recovering p \<or> transport_since p \<noteq> None
                         then p\<lparr>opened_since := Some now\<rparr> else p)
               | Connecting \<Rightarrow> p\<lparr>transport_since := get_or_insert (transport_since p) now\<rparr>
               | Closed \<Rightarrow> p\<lparr>opened_since := None\<rparr>))"

definition confirmed_final :: "handoff_policy \<Rightarrow> nat \<Rightarrow> handoff_policy" where
  "confirmed_final p voiced =
     (if decision p \<noteq> KeepCloud then p else recovered (p\<lparr>speech_at_final := voiced\<rparr>))"

text \<open>The four observations; the first and the last also return the decision.\<close>

datatype observation =
  ObsError nat stt_error | ObsState nat stream_state | ObsFinal nat | ObsTick nat nat

fun observe :: "handoff_policy \<Rightarrow> observation \<Rightarrow> handoff_policy \<times> decision" where
  "observe p (ObsError now e) = (error p now e, decision (error p now e))"
| "observe p (ObsState now st) = (state p now st, decision (state p now st))"
| "observe p (ObsFinal voiced) = (confirmed_final p voiced, decision (confirmed_final p voiced))"
| "observe p (ObsTick now voiced) = (tick p now voiced, decision (tick p now voiced))"

section \<open>A decision is final\<close>

lemmas handoff_defs =
  tick_def tick_recovery_def recovered_def transport_failure_def pressure_failure_def
  classify_error_def error_def state_def confirmed_final_def Let_def

lemma observe_decided: "decision p \<noteq> KeepCloud \<Longrightarrow> fst (observe p ev) = p"
  by (cases ev) (simp_all add: error_def state_def confirmed_final_def tick_def)

lemma run_decided: "decision p \<noteq> KeepCloud \<Longrightarrow> run_state observe p evs = p"
  by (induction evs) (simp_all add: observe_decided)

lemma tick_limits [simp]: "limits (tick p now v) = limits p"
  by (simp add: tick_def tick_recovery_def recovered_def Let_def)

lemma classify_limits [simp]: "limits (classify_error p now e) = limits p"
  by (simp add: classify_error_def transport_failure_def pressure_failure_def Let_def
      split: stt_error_class.split)

lemma observation_limits [simp]:
  "limits (error p now e) = limits p" "limits (state p now st) = limits p"
  "limits (confirmed_final p v) = limits p"
  by (simp_all add: error_def state_def confirmed_final_def recovered_def Let_def split: stream_state.split)

lemma observe_limits [simp]: "limits (fst (observe p ev)) = limits p"
  by (cases ev) simp_all

lemma run_limits [simp]: "limits (run_state observe p evs) = limits p"
  by (induction evs arbitrary: p) simp_all

section \<open>Silence and long sessions\<close>

text \<open>
  Observations that are no failure: session limits, any state but the initial connecting, and
  ticks whose voiced samples since the last confirmed final stay below the stall limit.
\<close>

fun quiet :: "handoff_limits \<Rightarrow> nat \<Rightarrow> observation list \<Rightarrow> bool" where
  "quiet l base [] = True"
| "quiet l base (ObsError _ e # evs) = (cls e = SessionLimit \<and> quiet l base evs)"
| "quiet l base (ObsState _ st # evs) = (st \<noteq> Connecting \<and> quiet l base evs)"
| "quiet l base (ObsFinal v # evs) = quiet l v evs"
| "quiet l base (ObsTick _ v # evs) = (v - base < speech_samples_without_final l \<and> quiet l base evs)"

definition calm :: "handoff_policy \<Rightarrow> nat \<Rightarrow> bool" where
  "calm p base \<longleftrightarrow> decision p = KeepCloud \<and> transport_since p = None \<and> pressure_since p = None
     \<and> speech_at_final p = base"

lemma calm_tick:
  assumes "calm p base" and "v - base < speech_samples_without_final (limits p)"
  shows "calm (tick p now v) base"
  using assms
  by (simp add: calm_def tick_def tick_recovery_def recovered_def expire_def transport_expired_def Let_def)

lemma calm_run:
  assumes "calm p base" and "0 < speech_samples_without_final (limits p)" and "quiet (limits p) base evs"
  shows "decision (run_state observe p evs) = KeepCloud"
  using assms
proof (induction evs arbitrary: p base)
  case (Cons ev evs)
  show ?case
  proof (cases ev)
    case (ObsError now e)
    with Cons.prems have "calm (fst (observe p ev)) base"
      using calm_tick [of p base base now]
      by (simp add: error_def classify_error_def Let_def calm_def)
    with Cons ObsError show ?thesis by simp
  next
    case (ObsState now st)
    with Cons.prems have "calm (fst (observe p ev)) base"
      by (cases st) (simp_all add: state_def calm_def Let_def)
    with Cons ObsState show ?thesis by simp
  next
    case (ObsFinal v)
    with Cons.prems have "calm (fst (observe p ev)) v"
      by (simp add: confirmed_final_def recovered_def calm_def Let_def)
    with Cons ObsFinal show ?thesis by simp
  next
    case (ObsTick now v)
    with Cons.prems have "calm (fst (observe p ev)) base" by (simp add: calm_tick Let_def)
    with Cons ObsTick show ?thesis by simp
  qed
qed (simp add: calm_def)



section \<open>Outages\<close>

fun obs_time :: "observation \<Rightarrow> nat" where
  "obs_time (ObsError now _) = now"
| "obs_time (ObsState now _) = now"
| "obs_time (ObsFinal _) = 0"
| "obs_time (ObsTick now _) = now"

text \<open>Observations during which the cloud leg shows no sign of life.\<close>

fun no_recovery :: "observation \<Rightarrow> bool" where
  "no_recovery (ObsError _ e) = (cls e \<noteq> Server)"
| "no_recovery (ObsState _ st) = (st \<noteq> Open)"
| "no_recovery (ObsFinal _) = False"
| "no_recovery (ObsTick _ _) = True"

lemma since_bounded:
  assumes "list_all (\<lambda>ev. obs_time ev \<le> t0) evs" and "\<And>s. transport_since p = Some s \<Longrightarrow> s \<le> t0"
    and "transport_since (run_state observe p evs) = Some s"
  shows "s \<le> t0"
  using assms
proof (induction evs arbitrary: p)
  case (Cons ev evs)
  have "s \<le> t0" if "transport_since (fst (observe p ev)) = Some s" for s
    using that Cons.prems(1,2)
    by (cases ev)
      (auto simp: handoff_defs get_or_insert_def
        split: if_splits stt_error_class.splits stream_state.splits option.splits)
  then show ?case using Cons.IH [of "fst (observe p ev)"] Cons.prems(1,3) by simp
qed simp

definition failing :: "nat \<Rightarrow> handoff_policy \<Rightarrow> bool" where
  "failing t0 p \<longleftrightarrow> decision p \<noteq> KeepCloud
     \<or> opened_since p = None \<and> is_some_and (transport_since p) (\<lambda>s. s \<le> t0)"

lemma tick_failing: "failing t0 p \<Longrightarrow> failing t0 (tick p now v)"
  by (auto simp: failing_def tick_def tick_recovery_def Let_def)

lemma classify_failing:
  assumes "failing t0 p" and "decision p = KeepCloud" and "cls e \<noteq> Server"
  shows "failing t0 (classify_error p now e)"
proof -
  from assms(1,2) obtain s where "opened_since p = None" "transport_since p = Some s" "s \<le> t0"
    unfolding failing_def by (cases "transport_since p") auto
  with assms(3) show ?thesis
    by (simp add: failing_def classify_error_def transport_failure_def pressure_failure_def Let_def
        split: stt_error_class.split)
qed

lemma observe_failing:
  assumes "failing t0 p" and "no_recovery ev"
  shows "failing t0 (fst (observe p ev))"
proof (cases ev)
  case (ObsError now e)
  with assms show ?thesis
    using tick_failing [OF classify_failing [OF assms(1)]] by (simp add: error_def Let_def)
next
  case (ObsState now st)
  with assms show ?thesis by (cases st) (auto simp: failing_def state_def Let_def is_some_and_def split: option.splits)
qed (use assms in \<open>simp_all add: tick_failing\<close>)

lemma run_failing:
  "failing t0 p \<Longrightarrow> list_all no_recovery evs \<Longrightarrow> failing t0 (run_state observe p evs)"
  by (induction evs arbitrary: p) (simp_all add: observe_failing)

lemma network_error_failing:
  assumes "\<And>s. transport_since p = Some s \<Longrightarrow> s \<le> t0" and "cls e = Network"
  shows "failing t0 (error p t0 e)"
proof (cases "decision p = KeepCloud")
  case True
  have "failing t0 (classify_error p t0 e)"
    using assms
    by (simp add: failing_def classify_error_def transport_failure_def get_or_insert_def Let_def
        split: option.split)
  with True show ?thesis by (simp add: error_def Let_def tick_failing)
qed (simp add: error_def failing_def)

lemma failing_expires:
  assumes "failing t0 p" and "t0 + retry_budget_ms (limits p) \<le> now"
  shows "decision (tick p now v) \<noteq> KeepCloud"
proof (cases "decision p = KeepCloud")
  case True
  with assms(1) obtain s where "opened_since p = None" "transport_since p = Some s" "s \<le> t0"
    unfolding failing_def by (cases "transport_since p") auto
  moreover from this assms(2) have "retry_budget_ms (limits p) \<le> now - s" by linarith
  ultimately show ?thesis
    using True by (simp add: tick_def tick_recovery_def expire_def transport_expired_def Let_def)
qed (simp add: tick_def)

text \<open>
  C7. An outage ends in a handoff. Once the transport has failed at some time and the cloud
  leg shows no sign of life afterwards, that is no confirmed final, no reopened socket and no
  error message over a socket still open, the first tick at or after the retry budget finds
  the policy decided, whatever happened before the failure and whatever other errors, closes
  and reconnect attempts come in between. And what is decided never changes again.
\<close>

theorem outage_forces_handoff:
  assumes "list_all (\<lambda>ev. obs_time ev \<le> t0) before" and "cls e = Network"
    and "list_all no_recovery between" and "t0 + retry_budget_ms l \<le> now"
  shows "\<exists>d. d \<noteq> KeepCloud \<and> (\<forall>later. decision
    (run_state observe (handoff_new l) (before @ [ObsError t0 e] @ between @ [ObsTick now v] @ later)) = d)"
proof -
  let ?p = "run_state observe (handoff_new l) before"
  have "s \<le> t0" if "transport_since ?p = Some s" for s
    using that since_bounded [OF assms(1), of "handoff_new l"] by (simp add: handoff_new_def)
  then have "failing t0 (run_state observe (error ?p t0 e) between)"
    using assms(2,3) by (intro run_failing network_error_failing)
  then have "decision (tick (run_state observe (error ?p t0 e) between) now v) \<noteq> KeepCloud"
    using assms(4) by (intro failing_expires) (simp_all add: handoff_new_def)
  then show ?thesis by (simp add: run_decided)
qed

theorem outage_forces_handoff_witness:
  "\<exists>d. d \<noteq> KeepCloud \<and> (\<forall>later. decision
    (run_state observe (handoff_new handoff_limits_default)
      ([ObsState 10 Open] @ [ObsError 20 (stt_error_new Network ''deepgram'' ''reset'')]
       @ [ObsState 25 Reconnecting] @ [ObsTick 15020 0] @ later)) = d)"
  by (rule outage_forces_handoff) (simp_all add: stt_error_new_def handoff_limits_default_def)

text \<open>A failed reconnect cycle: the stream reconnects and the transport fails again.\<close>

fun failed_cycle :: "nat \<times> nat \<times> stt_error \<Rightarrow> observation list" where
  "failed_cycle (t, t', e) = [ObsState t Reconnecting, ObsError t' e]"

lemma failed_cycle_counts:
  assumes "decision p = KeepCloud" and "cls e \<in> {Network, Server}"
    and "lim_failed_cycles (limits p) \<le> u32_max"
    and "decision (run_state observe p (failed_cycle (t, t', e))) = KeepCloud"
  shows "failed_cycles (run_state observe p (failed_cycle (t, t', e))) = failed_cycles p + 1"
    and "failed_cycles p + 1 < lim_failed_cycles (limits p)"
proof -
  define q where
    "q = p\<lparr>last_state := Some Reconnecting, recovering := True, cycle_armed := True, opened_since := None\<rparr>"
  define r where "r = classify_error q t' e"
  have run: "run_state observe p (failed_cycle (t, t', e)) = tick r t' (speech_at_final r)"
    using assms(1) by (simp add: q_def r_def state_def error_def Let_def)
  have keep: "decision r = KeepCloud"
    using assms(4) unfolding run by (auto simp: tick_def split: if_splits)
  then have "opened_since r = None" "failed_cycles r = min (failed_cycles p + 1) u32_max"
    "min (failed_cycles p + 1) u32_max < lim_failed_cycles (limits p)"
    using assms(2) by (auto simp: r_def q_def classify_error_def transport_failure_def Let_def split: if_splits)
  with assms(3) keep show
    "failed_cycles (run_state observe p (failed_cycle (t, t', e))) = failed_cycles p + 1"
    "failed_cycles p + 1 < lim_failed_cycles (limits p)"
    unfolding run by (simp_all add: tick_def tick_recovery_def Let_def)
qed

lemma failed_cycles_decide:
  assumes "\<forall>(t, t', e) \<in> set cycles. cls e \<in> {Network, Server}"
    and "lim_failed_cycles (limits p) \<le> u32_max" and "cycles \<noteq> []"
    and "decision (run_state observe p (concat (map failed_cycle cycles))) = KeepCloud"
  shows "length cycles + failed_cycles p < lim_failed_cycles (limits p)"
  using assms
proof (induction cycles arbitrary: p)
  case (Cons c cycles)
  obtain t t' e where c: "c = (t, t', e)" by (cases c)
  let ?p = "run_state observe p (failed_cycle c)"
  have run: "run_state observe p (concat (map failed_cycle (c # cycles)))
      = run_state observe ?p (concat (map failed_cycle cycles))"
    by simp
  have "decision ?p = KeepCloud" using Cons.prems(4) run_decided [of ?p] unfolding run by metis
  moreover from this have "decision p = KeepCloud" using run_decided [of p] by metis
  ultimately have "failed_cycles ?p = failed_cycles p + 1" "failed_cycles p + 1 < lim_failed_cycles (limits p)"
    using failed_cycle_counts [of p e t t'] Cons.prems(1,2) c by auto
  then show ?case
    using Cons.IH [of ?p] Cons.prems by (cases "cycles = []") auto
qed simp



section \<open>Every decision has its cause\<close>

fun is_transport_trouble :: "observation \<Rightarrow> bool" where
  "is_transport_trouble (ObsError _ e) = (cls e \<in> {Network, Server})"
| "is_transport_trouble (ObsState _ st) = (st = Connecting)"
| "is_transport_trouble _ = False"

fun is_error_in :: "stt_error_class set \<Rightarrow> observation \<Rightarrow> bool" where
  "is_error_in C (ObsError _ e) = (cls e \<in> C)"
| "is_error_in C _ = False"

fun is_voiced :: "nat \<Rightarrow> observation \<Rightarrow> bool" where
  "is_voiced n (ObsTick _ v) = (n \<le> v)"
| "is_voiced n _ = False"

text \<open>What must have been observed for a decision to be taken.\<close>

fun has_cause :: "handoff_limits \<Rightarrow> observation list \<Rightarrow> decision \<Rightarrow> bool" where
  "has_cause l evs KeepCloud = True"
| "has_cause l evs Surface = list_ex (is_error_in {BadRequest, Unsupported, AudioFormat}) evs"
| "has_cause l evs (Switch r) =
     (case r of
        ByAuth \<Rightarrow> list_ex (is_error_in {Auth}) evs
      | ByQuota \<Rightarrow> list_ex (is_error_in {Quota}) evs
      | TransportBudget \<Rightarrow> list_ex is_transport_trouble evs
      | RateLimitBudget \<Rightarrow> list_ex (is_error_in {RateLimit, Concurrency}) evs
      | SpeechStall \<Rightarrow> list_ex (is_voiced (speech_samples_without_final l)) evs
      | _ \<Rightarrow> False)"

definition caused :: "observation list \<Rightarrow> handoff_policy \<Rightarrow> bool" where
  "caused evs p \<longleftrightarrow>
     (transport_since p \<noteq> None \<longrightarrow> list_ex is_transport_trouble evs) \<and>
     (pressure_since p \<noteq> None \<longrightarrow> list_ex (is_error_in {RateLimit, Concurrency}) evs) \<and>
     has_cause (limits p) evs (decision p)"

lemma has_cause_snoc: "has_cause l evs d \<Longrightarrow> has_cause l (evs @ [ev]) d"
  by (cases d) (auto split: switch_reason.splits)

lemma caused_snoc: "caused evs p \<Longrightarrow> caused (evs @ [ev]) p"
  by (auto simp: caused_def has_cause_snoc)

text \<open>A tick needs no cause of its own but the speech it reports.\<close>

lemma caused_tick:
  assumes "caused evs p" and "speech_samples_without_final (limits p) \<le> v - speech_at_final p \<Longrightarrow>
    list_ex (is_voiced (speech_samples_without_final (limits p))) evs"
  shows "caused evs (tick p now v)"
proof (cases "decision p = KeepCloud")
  case True
  have "caused evs (tick_recovery p now)" "decision (tick_recovery p now) = KeepCloud"
    "speech_at_final (tick_recovery p now) = speech_at_final p" "limits (tick_recovery p now) = limits p"
    using assms(1) True by (auto simp: tick_recovery_def recovered_def caused_def)
  then show ?thesis
    using True assms(2)
    by (auto simp: tick_def caused_def expire_def transport_expired_def pressure_expired_def
        is_some_and_def Let_def split: option.splits)
qed (use assms(1) in \<open>simp add: tick_def\<close>)

lemma caused_classify:
  assumes "caused evs p"
  shows "caused (evs @ [ObsError now e]) (classify_error p now e)"
  using caused_snoc [OF assms, of "ObsError now e"]
  by (cases "cls e")
    (auto simp: classify_error_def transport_failure_def pressure_failure_def Let_def caused_def)

lemma caused_observe:
  assumes "caused evs p" and "0 < speech_samples_without_final (limits p)"
  shows "caused (evs @ [ev]) (fst (observe p ev))"
proof (cases "decision p = KeepCloud")
  case True
  show ?thesis
  proof (cases ev)
    case (ObsError now e)
    with True assms(2) show ?thesis
      using caused_tick [OF caused_classify [OF assms(1)]] by (simp add: error_def Let_def)
  next
    case (ObsState now st)
    with True caused_snoc [OF assms(1), of ev] show ?thesis
      by (cases st) (auto simp: state_def caused_def Let_def)
  next
    case (ObsFinal v)
    with True show ?thesis by (simp add: confirmed_final_def recovered_def caused_def)
  next
    case (ObsTick now v)
    moreover from this have "caused (evs @ [ev]) (tick p now v)"
      by (intro caused_tick caused_snoc assms(1)) auto
    ultimately show ?thesis by simp
  qed
qed (simp add: observe_decided caused_snoc assms(1))

text \<open>
  Every decision has its cause among what was observed. Rejected credentials and spent
  quota are the only ways to those two reasons; only a request the provider rejects is
  surfaced; the transport and rate-limit budgets expire only after trouble of their own kind; a speech stall is declared
  only on a tick that reports at least the stall limit of voiced audio; and the policy never
  gives a reason that belongs to the user or to recovery.
\<close>

theorem handoff_has_cause:
  assumes "0 < speech_samples_without_final l"
  shows "has_cause l evs (decision (run_state observe (handoff_new l) evs))"
proof -
  have "caused evs (run_state observe (handoff_new l) evs)"
  proof (induction evs rule: rev_induct)
    case (snoc ev evs)
    then show ?case using caused_observe [of evs _ ev] assms by (simp add: handoff_new_def)
  qed (simp add: caused_def handoff_new_def)
  then show ?thesis by (simp add: caused_def handoff_new_def)
qed

theorem handoff_has_cause_witness:
  "has_cause handoff_limits_default [ObsError 4 (stt_error_new Quota ''deepgram'' ''credit'')] (Switch ByQuota)"
  using handoff_has_cause [of handoff_limits_default "[ObsError 4 (stt_error_new Quota ''deepgram'' ''credit'')]"]
  by (simp add: handoff_limits_default_def handoff_new_def error_def classify_error_def tick_def stt_error_new_def)

end
