(* ===== verification/Replay.thy ===== *)
theory Replay
  imports Octets
begin

text \<open>
  The canonical transcription audio of one source on disk
  (\<^verbatim>\<open>crates/fotw-pipeline/src/replay.rs\<close>): the file of PCM behind a small header, the
  writer that owns it, independent readers, and the marker files that prove a source sealed,
  completely transcribed and projected into the library. A directory is the contents of
  those files; markers are replaced by an atomic rename, so a marker is its decoded value.
  Every operation takes what the disk did as an argument. JSON belongs to serde: the codec
  of the header is a parameter. File locks are the operating system's and are not modelled.
\<close>

section \<open>Files\<close>

definition MAGIC :: "byte list" where
  "MAGIC = [0x46, 0x4F, 0x54, 0x57, 0x52, 0x50, 0x4C, 0x31]"

definition MAX_HEADER_BYTES :: nat where "MAX_HEADER_BYTES = 4096"

definition SAMPLE_RATE :: nat where "SAMPLE_RATE = 16000"

definition MAX_READ_SAMPLES :: nat where "MAX_READ_SAMPLES = SAMPLE_RATE"

datatype replay_source = ReplaySystem | ReplayMic

record replay_header =
  h_session_id :: string
  h_source :: replay_source
  h_sample_rate :: nat
  h_first_sample :: nat
  h_processing_id :: "string option"

record completion =
  c_schema :: nat
  c_session_id :: string
  c_source :: replay_source
  c_first_sample :: nat
  c_through_sample :: nat

record projection_proof =
  pp_boundary :: completion
  pp_journal_bytes :: nat

record prefix_projection =
  px_scope :: string
  px_boundary :: completion
  px_journal_bytes :: nat

record replay_dir =
  pcm_exists :: bool
  pcm_file :: "byte list"
  sealed_mark :: "completion option"
  complete_mark :: "completion option"
  projected_mark :: "projection_proof option"
  prefix_mark :: "prefix_projection option"
  coverage_file :: "byte list option"

definition valid_processing_id :: "string \<Rightarrow> bool" where
  "valid_processing_id s \<longleftrightarrow>
     length s = 64 \<and>
     list_all (\<lambda>c. let n = of_char c :: nat in 48 \<le> n \<and> n \<le> 57 \<or> 97 \<le> n \<and> n \<le> 102) s"

definition invalid :: "string \<Rightarrow> io_error" where
  "invalid msg = InvalidData msg"

section \<open>Readers\<close>

record replay_reader =
  rd_header :: replay_header
  audio_offset :: nat

text \<open>The header: magic, its length in four little-endian bytes, and its JSON.\<close>

definition from_file ::
  "(byte list \<Rightarrow> replay_header option) \<Rightarrow> byte list \<Rightarrow> string \<Rightarrow> replay_source
     \<Rightarrow> (io_error, replay_reader) outcome" where
  "from_file dec file session_id source =
     (if length file < 8 then Err UnexpectedEof
      else if take 8 file \<noteq> MAGIC then Err (invalid ''unsupported replay format'')
      else if length file < 12 then Err UnexpectedEof
      else (let len = unat (u32_from_le_bytes (file ! 8) (file ! 9) (file ! 10) (file ! 11))
            in if len = 0 \<or> MAX_HEADER_BYTES < len then Err (invalid ''invalid replay header length'')
               else if length file < 12 + len then Err UnexpectedEof
               else (case dec (take len (drop 12 file)) of
                       None \<Rightarrow> Err (invalid ''json'')
                     | Some h \<Rightarrow>
                         if h_session_id h \<noteq> session_id \<or> h_source h \<noteq> source
                            \<or> h_sample_rate h \<noteq> SAMPLE_RATE
                            \<or> is_some_and (h_processing_id h) (\<lambda>i. \<not> valid_processing_id i)
                         then Err (invalid ''replay identity or sample rate mismatch'')
                         else Ok \<lparr>rd_header = h, audio_offset = 12 + len\<rparr>)))"

definition reader_open ::
  "(byte list \<Rightarrow> replay_header option) \<Rightarrow> replay_dir \<Rightarrow> string \<Rightarrow> replay_source
     \<Rightarrow> (io_error, replay_reader) outcome" where
  "reader_open dec d session_id source =
     (if pcm_exists d then from_file dec (pcm_file d) session_id source else Err NotFound)"

definition has_identity :: "replay_reader \<Rightarrow> string \<Rightarrow> replay_source \<Rightarrow> bool" where
  "has_identity r session source \<longleftrightarrow>
     h_session_id (rd_header r) = session \<and> h_source (rd_header r) = source"

definition first_sample :: "replay_reader \<Rightarrow> nat" where
  "first_sample r = h_first_sample (rd_header r)"

definition available_end :: "replay_reader \<Rightarrow> byte list \<Rightarrow> (io_error, nat) outcome" where
  "available_end r file =
     (if length file < audio_offset r then Err (invalid ''replay header truncated'')
      else case checked_add64 (first_sample r) ((length file - audio_offset r) div 2) of
             None \<Rightarrow> Err (invalid ''replay sample clock overflow'')
           | Some e \<Rightarrow> Ok e)"

definition aligned :: "replay_reader \<Rightarrow> byte list \<Rightarrow> (io_error, bool) outcome" where
  "aligned r file =
     (if length file < audio_offset r then Err (invalid ''replay header truncated'')
      else Ok ((length file - audio_offset r) mod 2 = 0))"

definition saved_end :: "replay_reader \<Rightarrow> byte list \<Rightarrow> (io_error, nat) outcome" where
  "saved_end r file =
     outcome_bind (aligned r file) (\<lambda>ok.
       if \<not> ok then Err (invalid ''replay ends in a torn sample'') else available_end r file)"

definition complete_prefix_end :: "replay_reader \<Rightarrow> byte list \<Rightarrow> (io_error, nat) outcome" where
  "complete_prefix_end r file = available_end r file"

definition sync_through ::
  "bool \<Rightarrow> replay_reader \<Rightarrow> byte list \<Rightarrow> nat \<Rightarrow> (io_error, unit) outcome" where
  "sync_through sync_ok r file through =
     (if through < first_sample r then Err (invalid ''checkpoint is outside saved replay audio'')
      else outcome_bind (available_end r file) (\<lambda>e.
             if e < through then Err (invalid ''checkpoint is outside saved replay audio'')
             else if sync_ok then Ok () else Err Disk))"

definition read_from ::
  "replay_reader \<Rightarrow> byte list \<Rightarrow> nat \<Rightarrow> nat \<Rightarrow> (io_error, sample list) outcome" where
  "read_from r file absolute maximum =
     (if maximum = 0 \<or> MAX_READ_SAMPLES < maximum
      then Err (invalid ''replay reads must contain 1..=16000 samples'')
      else if absolute < first_sample r then Err (invalid ''replay cursor precedes source anchor'')
      else outcome_bind (available_end r file) (\<lambda>e.
        let relative = absolute - first_sample r; samples = e - first_sample r
        in if samples < relative then Err (invalid ''replay cursor exceeds available audio'')
           else (let count = min (samples - relative) maximum; offset = relative * 2 + audio_offset r
                 in if u64_max < offset then Err (invalid ''replay byte offset overflow'')
                    else if length (drop offset file) < count * 2 then Err UnexpectedEof
                    else Ok (pcm_of_bytes (take (count * 2) (drop offset file))))))"

section \<open>Markers\<close>

text \<open>
  A marker is written to a temporary file, synced and renamed. It may fail with the old marker
  in place, or after the rename, when only the directory could not be synced.
\<close>

datatype marker_io = MarkerOk | MarkerFails | MarkerUnsynced

fun write_marker :: "marker_io \<Rightarrow> 'm option \<Rightarrow> 'm \<Rightarrow> 'm option \<times> (io_error, unit) outcome" where
  "write_marker MarkerOk old m = (Some m, Ok ())"
| "write_marker MarkerFails old m = (old, Err Disk)"
| "write_marker MarkerUnsynced old m = (Some m, Err Disk)"

definition boundary ::
  "bool \<Rightarrow> replay_reader \<Rightarrow> byte list \<Rightarrow> nat \<Rightarrow> (io_error, completion) outcome" where
  "boundary sync_ok r file through =
     outcome_bind (aligned r file) (\<lambda>al.
     outcome_bind (if al then available_end r file else Ok 0) (\<lambda>e.
       if \<not> al \<or> through \<noteq> e
       then Err (invalid ''completion must cover the entire aligned replay stream'')
       else outcome_bind (sync_through sync_ok r file through) (\<lambda>_.
         Ok \<lparr>c_schema = 1, c_session_id = h_session_id (rd_header r), c_source = h_source (rd_header r),
             c_first_sample = first_sample r, c_through_sample = through\<rparr>)))"

definition matches_boundary ::
  "replay_reader \<Rightarrow> byte list \<Rightarrow> completion \<Rightarrow> (io_error, bool) outcome" where
  "matches_boundary r file b =
     outcome_bind (aligned r file) (\<lambda>al.
       if al \<and> c_session_id b = h_session_id (rd_header r) \<and> c_source b = h_source (rd_header r)
          \<and> c_first_sample b = first_sample r
       then outcome_bind (available_end r file) (\<lambda>e. Ok (c_through_sample b = e))
       else Ok False)"

definition read_boundary :: "completion option \<Rightarrow> (io_error, completion option) outcome" where
  "read_boundary m =
     (case m of
        None \<Rightarrow> Ok None
      | Some b \<Rightarrow> if c_schema b \<noteq> 1 then Err (invalid ''unsupported replay boundary proof'')
                 else Ok (Some b))"

definition sealed_end :: "replay_reader \<Rightarrow> replay_dir \<Rightarrow> (io_error, nat option) outcome" where
  "sealed_end r d =
     outcome_bind (read_boundary (sealed_mark d)) (\<lambda>m.
       case m of
         None \<Rightarrow> Ok None
       | Some b \<Rightarrow> outcome_bind (matches_boundary r (pcm_file d) b) (\<lambda>ok.
           if ok then Ok (Some (c_through_sample b))
           else Err (invalid ''sealed replay input has changed or belongs to another source'')))"

definition is_complete :: "replay_reader \<Rightarrow> replay_dir \<Rightarrow> (io_error, bool) outcome" where
  "is_complete r d =
     outcome_bind (sealed_end r d) (\<lambda>_.
     outcome_bind (read_boundary (complete_mark d)) (\<lambda>m.
       case m of None \<Rightarrow> Ok False | Some b \<Rightarrow> matches_boundary r (pcm_file d) b))"

definition is_projected :: "replay_reader \<Rightarrow> replay_dir \<Rightarrow> (io_error, bool) outcome" where
  "is_projected r d =
     outcome_bind (is_complete r d) (\<lambda>complete.
       if \<not> complete then Ok False
       else (case projected_mark d of
               None \<Rightarrow> Ok False
             | Some proof \<Rightarrow>
                 if c_schema (pp_boundary proof) \<noteq> 1 then Ok False
                 else outcome_bind (matches_boundary r (pcm_file d) (pp_boundary proof)) (\<lambda>ok.
                   if \<not> ok then Ok False
                   else (case coverage_file d of
                           None \<Rightarrow> Err NotFound
                         | Some journal \<Rightarrow> Ok (length journal = pp_journal_bytes proof)))))"

definition mark_complete ::
  "bool \<Rightarrow> marker_io \<Rightarrow> replay_reader \<Rightarrow> replay_dir \<Rightarrow> nat
     \<Rightarrow> replay_dir \<times> (io_error, unit) outcome" where
  "mark_complete sync_ok mio r d through =
     (case outcome_bind (sealed_end r d) (\<lambda>_. boundary sync_ok r (pcm_file d) through) of
        Ok b \<Rightarrow> (case write_marker mio (complete_mark d) b of (m, res) \<Rightarrow> (d\<lparr>complete_mark := m\<rparr>, res))
      | Err e \<Rightarrow> (d, Err e)
      | Panic \<Rightarrow> (d, Panic))"

definition mark_projected ::
  "bool \<Rightarrow> marker_io \<Rightarrow> replay_reader \<Rightarrow> replay_dir \<Rightarrow> nat \<Rightarrow> nat
     \<Rightarrow> replay_dir \<times> (io_error, unit) outcome" where
  "mark_projected sync_ok mio r d through journal_bytes =
     (case outcome_bind (is_complete r d) (\<lambda>complete.
             if \<not> complete then Err (invalid ''inference is not complete'')
             else (case coverage_file d of
                     None \<Rightarrow> Err NotFound
                   | Some journal \<Rightarrow>
                       if length journal \<noteq> journal_bytes
                       then Err (invalid ''projection does not cover the current journal'')
                       else boundary sync_ok r (pcm_file d) through)) of
        Ok b \<Rightarrow>
          (case write_marker mio (projected_mark d) \<lparr>pp_boundary = b, pp_journal_bytes = journal_bytes\<rparr> of
             (m, res) \<Rightarrow> (d\<lparr>projected_mark := m\<rparr>, res))
      | Err e \<Rightarrow> (d, Err e)
      | Panic \<Rightarrow> (d, Panic))"

text \<open>A projection of a prefix: it must end with a complete record of the journal.\<close>

definition mark_prefix_projected ::
  "bool \<Rightarrow> marker_io \<Rightarrow> replay_reader \<Rightarrow> replay_dir \<Rightarrow> nat \<Rightarrow> nat
     \<Rightarrow> replay_dir \<times> (io_error, unit) outcome" where
  "mark_prefix_projected sync_ok mio r d through journal_bytes =
     (case outcome_bind (sync_through sync_ok r (pcm_file d) through) (\<lambda>_.
             case coverage_file d of
               None \<Rightarrow> Err NotFound
             | Some journal \<Rightarrow>
                 if journal_bytes = 0 \<or> length journal < journal_bytes
                 then Err (invalid ''prefix projection exceeds saved journal'')
                 else if journal ! (journal_bytes - 1) \<noteq> 10
                 then Err (invalid ''prefix projection ends in an incomplete journal record'')
                 else Ok ()) of
        Ok _ \<Rightarrow>
          (case write_marker mio (prefix_mark d)
                  \<lparr>px_scope = ''saved-prefix-projection'',
                   px_boundary = \<lparr>c_schema = 1, c_session_id = h_session_id (rd_header r),
                     c_source = h_source (rd_header r), c_first_sample = first_sample r,
                     c_through_sample = through\<rparr>,
                   px_journal_bytes = journal_bytes\<rparr> of
             (m, res) \<Rightarrow> (d\<lparr>prefix_mark := m\<rparr>, res))
      | Err e \<Rightarrow> (d, Err e)
      | Panic \<Rightarrow> (d, Panic))"

definition is_prefix_projected ::
  "replay_reader \<Rightarrow> replay_dir \<Rightarrow> nat \<Rightarrow> nat \<Rightarrow> (io_error, bool) outcome" where
  "is_prefix_projected r d through journal_bytes =
     (case prefix_mark d of
        None \<Rightarrow> Ok False
      | Some proof \<Rightarrow>
          (case coverage_file d of
             None \<Rightarrow> Err NotFound
           | Some journal \<Rightarrow>
               let b = px_boundary proof
               in if px_scope proof = ''saved-prefix-projection'' \<and> journal_bytes \<le> length journal
                     \<and> c_schema b = 1 \<and> c_session_id b = h_session_id (rd_header r)
                     \<and> c_source b = h_source (rd_header r) \<and> c_first_sample b = first_sample r
                     \<and> c_through_sample b = through \<and> first_sample r \<le> through
                  then outcome_bind (available_end r (pcm_file d)) (\<lambda>e.
                         Ok (through \<le> e \<and> px_journal_bytes proof = journal_bytes))
                  else Ok False))"

text \<open>
  May the session's audio be retired? Every source that exists must be completely transcribed
  and projected, with nobody else holding it; a proof without audio is an error.
\<close>

fun retirement_guard ::
  "(byte list \<Rightarrow> replay_header option) \<Rightarrow> (replay_source \<Rightarrow> bool) \<Rightarrow> (replay_source \<Rightarrow> replay_dir) \<Rightarrow> string
     \<Rightarrow> replay_source list \<Rightarrow> (io_error, bool) outcome" where
  "retirement_guard dec held dirs session_id [] = Ok True"
| "retirement_guard dec held dirs session_id (source # sources) =
     (let d = dirs source
      in if \<not> pcm_exists d
         then (if complete_mark d \<noteq> None \<or> sealed_mark d \<noteq> None
               then Err (invalid ''completion proof has no replay audio'')
               else retirement_guard dec held dirs session_id sources)
         else if held source then Ok False
         else outcome_bind (reader_open dec d session_id source) (\<lambda>r.
              outcome_bind (is_complete r d) (\<lambda>complete.
                if \<not> complete then Ok False
                else outcome_bind (is_projected r d) (\<lambda>projected.
                  if \<not> projected then Ok False
                  else retirement_guard dec held dirs session_id sources))))"

section \<open>The writer\<close>

record replay_writer =
  end_sample :: nat
  w_failed :: bool
  w_source :: replay_source
  w_session_id :: string
  w_sealed :: bool
  prefix_only :: bool

definition create_inner ::
  "(replay_header \<Rightarrow> byte list) \<Rightarrow> bool \<Rightarrow> string \<Rightarrow> replay_source \<Rightarrow> nat \<Rightarrow> string option
     \<Rightarrow> replay_dir \<Rightarrow> (io_error, replay_writer \<times> replay_dir) outcome" where
  "create_inner enc io_ok session_id source first pid d =
     (if session_id = [] \<or> 512 < length session_id
      then Err (invalid ''invalid replay session identity'')
      else (let h = enc \<lparr>h_session_id = session_id, h_source = source, h_sample_rate = SAMPLE_RATE,
                         h_first_sample = first, h_processing_id = pid\<rparr>
            in if MAX_HEADER_BYTES < length h then Err (invalid ''replay header too large'')
               else if pcm_exists d then Err AlreadyExists
               else if \<not> io_ok then Err Disk
               else Ok (\<lparr>end_sample = first, w_failed = False, w_source = source,
                         w_session_id = session_id, w_sealed = False, prefix_only = False\<rparr>,
                        d\<lparr>pcm_exists := True,
                          pcm_file := MAGIC @ u32_to_le_bytes (of_nat (length h)) @ h\<rparr>)))"

definition create ::
  "(replay_header \<Rightarrow> byte list) \<Rightarrow> bool \<Rightarrow> string \<Rightarrow> replay_source \<Rightarrow> nat
     \<Rightarrow> replay_dir \<Rightarrow> (io_error, replay_writer \<times> replay_dir) outcome" where
  "create enc io_ok session_id source first d = create_inner enc io_ok session_id source first None d"

definition create_with_processing ::
  "(replay_header \<Rightarrow> byte list) \<Rightarrow> bool \<Rightarrow> string \<Rightarrow> replay_source \<Rightarrow> nat \<Rightarrow> string
     \<Rightarrow> replay_dir \<Rightarrow> (io_error, replay_writer \<times> replay_dir) outcome" where
  "create_with_processing enc io_ok session_id source first pid d =
     (if \<not> valid_processing_id pid then Err (invalid ''invalid processing fingerprint'')
      else create_inner enc io_ok session_id source first (Some pid) d)"

text \<open>Removing a stale proof: it may fail, or be removed without the directory being synced.\<close>

datatype remove_io = RemoveOk | RemoveFails | RemoveUnsynced

fun remove_proof :: "remove_io \<Rightarrow> 'm option \<Rightarrow> 'm option \<times> bool" where
  "remove_proof RemoveFails m = (m, False)"
| "remove_proof RemoveOk m = (None, True)"
| "remove_proof RemoveUnsynced m = (None, m = None)"

record append_io =
  rm_complete :: remove_io
  rm_projected :: remove_io
  pcm_write :: write_io

definition append_pcm ::
  "append_io \<Rightarrow> replay_writer \<Rightarrow> replay_dir \<Rightarrow> sample list
     \<Rightarrow> (replay_writer \<times> replay_dir) \<times> (io_error, unit) outcome" where
  "append_pcm io w d pcm =
     (if w_failed w then ((w, d), Err (invalid ''replay writer failed; recovery required''))
      else if w_sealed w \<or> prefix_only w
      then ((w, d), Err (invalid ''replay input is permanently sealed''))
      else if pcm = [] then ((w, d), Ok ())
      else case checked_add64 (end_sample w) (length pcm) of
        None \<Rightarrow> ((w, d), Err (invalid ''replay sample clock overflow''))
      | Some next \<Rightarrow>
          (case remove_proof (rm_complete io) (complete_mark d) of (m1, ok1) \<Rightarrow>
             let d = d\<lparr>complete_mark := m1\<rparr>
             in if \<not> ok1 then ((w\<lparr>w_failed := True\<rparr>, d), Err Disk)
                else (case remove_proof (rm_projected io) (projected_mark d) of (m2, ok2) \<Rightarrow>
                  let d = d\<lparr>projected_mark := m2\<rparr>
                  in if \<not> ok2 then ((w\<lparr>w_failed := True\<rparr>, d), Err Disk)
                     else (case write_all (pcm_write io) (pcm_file d) (concat (map i16_to_le_bytes pcm)) of
                       (file, ok) \<Rightarrow>
                         let d = d\<lparr>pcm_file := file\<rparr>
                         in if ok then ((w\<lparr>end_sample := next\<rparr>, d), Ok ())
                            else ((w\<lparr>w_failed := True\<rparr>, d), Err Disk)))))"

definition sync_pcm :: "bool \<Rightarrow> replay_writer \<Rightarrow> replay_writer \<times> (io_error, nat) outcome" where
  "sync_pcm sync_ok w =
     (if w_failed w then (w, Err (invalid ''replay writer failed; recovery required''))
      else if \<not> sync_ok then (w\<lparr>w_failed := True\<rparr>, Err Disk)
      else (w, Ok (end_sample w)))"

definition seal ::
  "(byte list \<Rightarrow> replay_header option) \<Rightarrow> bool \<Rightarrow> marker_io \<Rightarrow> replay_writer \<Rightarrow> replay_dir
     \<Rightarrow> (replay_writer \<times> replay_dir) \<times> (io_error, nat) outcome" where
  "seal dec sync_ok mio w d =
     (if w_failed w then ((w, d), Err (invalid ''replay writer failed; recovery required''))
      else if prefix_only w then ((w, d), Err (invalid ''prefix ownership cannot seal original input''))
      else case outcome_bind (reader_open dec d (w_session_id w) (w_source w)) (\<lambda>r.
                outcome_bind (sealed_end r d) (\<lambda>_. boundary sync_ok r (pcm_file d) (end_sample w))) of
             Ok b \<Rightarrow>
               (case write_marker mio (sealed_mark d) b of
                  (m, Ok _) \<Rightarrow> ((w\<lparr>w_sealed := True\<rparr>, d\<lparr>sealed_mark := m\<rparr>), Ok (end_sample w))
                | (m, _) \<Rightarrow> ((w, d\<lparr>sealed_mark := m\<rparr>), Err Disk))
           | Err e \<Rightarrow> ((w, d), Err e)
           | Panic \<Rightarrow> ((w, d), Panic))"

text \<open>
  Taking over after a crash. The ordinary owner drops a trailing half sample before it may
  append; the owner of a prefix changes nothing and may not append.
\<close>

definition resume ::
  "(byte list \<Rightarrow> replay_header option) \<Rightarrow> replay_dir \<Rightarrow> string \<Rightarrow> replay_source
     \<Rightarrow> (io_error, replay_writer \<times> replay_dir) outcome" where
  "resume dec d session_id source =
     outcome_bind (reader_open dec d session_id source) (\<lambda>r.
     outcome_bind (sealed_end r d) (\<lambda>s.
     outcome_bind (available_end r (pcm_file d)) (\<lambda>e.
       let audio_bytes = length (pcm_file d) - audio_offset r
       in Ok (\<lparr>end_sample = e, w_failed = False, w_source = source, w_session_id = session_id,
               w_sealed = (s \<noteq> None), prefix_only = False\<rparr>,
              if audio_bytes mod 2 \<noteq> 0
              then d\<lparr>pcm_file := take (length (pcm_file d) - 1) (pcm_file d)\<rparr> else d))))"

definition resume_prefix ::
  "(byte list \<Rightarrow> replay_header option) \<Rightarrow> bool \<Rightarrow> replay_dir \<Rightarrow> string \<Rightarrow> replay_source
     \<Rightarrow> (io_error, replay_writer) outcome" where
  "resume_prefix dec sync_ok d session_id source =
     outcome_bind (reader_open dec d session_id source) (\<lambda>r.
     outcome_bind (sealed_end r d) (\<lambda>s.
     outcome_bind (available_end r (pcm_file d)) (\<lambda>e.
       if sync_ok
       then Ok \<lparr>end_sample = e, w_failed = False, w_source = source, w_session_id = session_id,
                w_sealed = (s \<noteq> None), prefix_only = True\<rparr>
       else Err Disk)))"

section \<open>Runs of one source\<close>

datatype replay_op =
    OpAppend append_io "sample list"
  | OpSync bool
  | OpSeal bool marker_io
  | OpMarkComplete bool marker_io nat
  | OpMarkProjected bool marker_io nat nat
  | OpMarkPrefix bool marker_io nat nat
  | OpJournal "byte list"

text \<open>
  One call of the owner, of a reader \<open>r\<close>, or of the coverage journal beside the audio.
  The report is whether the call succeeded.
\<close>

fun replay_step ::
  "(byte list \<Rightarrow> replay_header option) \<Rightarrow> replay_reader \<Rightarrow> replay_writer \<times> replay_dir \<Rightarrow> replay_op
     \<Rightarrow> (replay_writer \<times> replay_dir) \<times> bool" where
  "replay_step dec r (w, d) (OpAppend io pcm) = map_prod id is_ok (append_pcm io w d pcm)"
| "replay_step dec r (w, d) (OpSync sync_ok) =
     ((fst (sync_pcm sync_ok w), d), is_ok (snd (sync_pcm sync_ok w)))"
| "replay_step dec r (w, d) (OpSeal sync_ok mio) = map_prod id is_ok (seal dec sync_ok mio w d)"
| "replay_step dec r (w, d) (OpMarkComplete sync_ok mio through) =
     map_prod (Pair w) is_ok (mark_complete sync_ok mio r d through)"
| "replay_step dec r (w, d) (OpMarkProjected sync_ok mio through n) =
     map_prod (Pair w) is_ok (mark_projected sync_ok mio r d through n)"
| "replay_step dec r (w, d) (OpMarkPrefix sync_ok mio through n) =
     map_prod (Pair w) is_ok (mark_prefix_projected sync_ok mio r d through n)"
| "replay_step dec r (w, d) (OpJournal bytes) =
     ((w, d\<lparr>coverage_file := Some ((case coverage_file d of None \<Rightarrow> [] | Some j \<Rightarrow> j) @ bytes)\<rparr>), True)"

text \<open>The audio a sequence of calls was told it had recorded.\<close>

fun accepted :: "replay_op list \<Rightarrow> bool list \<Rightarrow> sample list" where
  "accepted (OpAppend io pcm # ops) (ok # oks) = (if ok then pcm else []) @ accepted ops oks"
| "accepted (_ # ops) (_ # oks) = accepted ops oks"
| "accepted _ _ = []"

definition audio :: "replay_reader \<Rightarrow> replay_dir \<Rightarrow> byte list" where
  "audio r d = drop (audio_offset r) (pcm_file d)"

section \<open>Headers\<close>

lemma from_file_offset:
  "from_file dec file s src = Ok r \<Longrightarrow> 12 < audio_offset r \<and> audio_offset r \<le> length file"
  by (auto simp: from_file_def Let_def split: if_splits option.splits)

lemma from_file_identity:
  "from_file dec file s src = Ok r \<Longrightarrow> h_session_id (rd_header r) = s \<and> h_source (rd_header r) = src"
  by (auto simp: from_file_def Let_def split: if_splits option.splits)

text \<open>Only the header decides how a file opens.\<close>

lemma from_file_cong:
  assumes ok: "from_file dec file s src = Ok r"
    and len: "audio_offset r \<le> length file'"
    and eq: "take (audio_offset r) file' = take (audio_offset r) file"
  shows "from_file dec file' s src = Ok r"
proof -
  have nth: "file' ! i = file ! i" if "i < audio_offset r" for i
    using that by (metis eq nth_take)
  have tk: "take n file' = take n file" if "n \<le> audio_offset r" for n
    using that by (metis eq min.absorb1 take_take)
  define n where "n = unat (u32_from_le_bytes (file ! 8) (file ! 9) (file ! 10) (file ! 11))"
  have off: "audio_offset r = 12 + n" and conds: "take 8 file = MAGIC" "n \<noteq> 0" "n \<le> MAX_HEADER_BYTES"
    "12 + n \<le> length file"
    using ok by (simp_all add: from_file_def Let_def n_def [symmetric] split: if_splits option.splits) auto
  have "n = unat (u32_from_le_bytes (file' ! 8) (file' ! 9) (file' ! 10) (file' ! 11))"
    by (simp add: n_def nth off)
  moreover have "take n (drop 12 file') = take n (drop 12 file)"
    by (simp add: take_drop tk off)
  moreover have "12 + n \<le> length file'" "take 8 file' = MAGIC"
    using len conds(1) tk [of 8] by (simp_all add: off)
  ultimately show ?thesis
    using ok conds by (simp add: from_file_def Let_def n_def [symmetric])
qed

lemma from_file_append:
  assumes "from_file dec file s src = Ok r"
  shows "from_file dec (file @ new) s src = Ok r"
  using assms from_file_offset [OF assms] by (intro from_file_cong [OF assms]) auto

lemma u32_le_of_nat:
  assumes "n < 2 ^ 32"
  shows "\<exists>a b c e. u32_to_le_bytes (of_nat n) = [a, b, c, e] \<and> unat (u32_from_le_bytes a b c e) = n"
proof -
  let ?w = "of_nat n :: 32 word"
  have "unat ?w = n" using assms by (simp add: unat_of_nat)
  then show ?thesis
    by (simp add: u32_to_le_bytes_def u32_to_be_bytes_def u32_from_le_bytes_def)
qed

lemma from_file_created:
  assumes "0 < length h" and "length h \<le> MAX_HEADER_BYTES" and "dec h = Some hdr"
    and "h_session_id hdr = s" and "h_source hdr = src" and "h_sample_rate hdr = SAMPLE_RATE"
    and "\<not> is_some_and (h_processing_id hdr) (\<lambda>i. \<not> valid_processing_id i)"
  shows "from_file dec (MAGIC @ u32_to_le_bytes (of_nat (length h)) @ h) s src
    = Ok \<lparr>rd_header = hdr, audio_offset = 12 + length h\<rparr>"
proof -
  obtain a b c e where le: "u32_to_le_bytes (of_nat (length h)) = [a, b, c, e]"
    "unat (u32_from_le_bytes a b c e) = length h"
    using u32_le_of_nat [of "length h"] assms(2) by (auto simp: MAX_HEADER_BYTES_def)
  show ?thesis
    using assms unfolding from_file_def le(1) by (simp add: MAGIC_def le(2) Let_def)
qed

section \<open>What the calls do to the audio\<close>

lemma write_marker_dir [simp]: "pcm_file (d\<lparr>complete_mark := m\<rparr>) = pcm_file d"
  by simp

lemma mark_complete_pcm [simp]:
  "pcm_file (fst (mark_complete so mio r d t)) = pcm_file d"
  "pcm_exists (fst (mark_complete so mio r d t)) = pcm_exists d"
  "sealed_mark (fst (mark_complete so mio r d t)) = sealed_mark d"
  by (simp_all add: mark_complete_def split: outcome.split prod.split)

lemma mark_projected_pcm [simp]:
  "pcm_file (fst (mark_projected so mio r d t n)) = pcm_file d"
  "pcm_exists (fst (mark_projected so mio r d t n)) = pcm_exists d"
  "sealed_mark (fst (mark_projected so mio r d t n)) = sealed_mark d"
  "complete_mark (fst (mark_projected so mio r d t n)) = complete_mark d"
  by (simp_all add: mark_projected_def split: outcome.split prod.split)

lemma mark_prefix_projected_pcm [simp]:
  "pcm_file (fst (mark_prefix_projected so mio r d t n)) = pcm_file d"
  "pcm_exists (fst (mark_prefix_projected so mio r d t n)) = pcm_exists d"
  "sealed_mark (fst (mark_prefix_projected so mio r d t n)) = sealed_mark d"
  "complete_mark (fst (mark_prefix_projected so mio r d t n)) = complete_mark d"
  by (simp_all add: mark_prefix_projected_def split: outcome.split prod.split)

lemma seal_pcm [simp]:
  "pcm_file (snd (fst (seal dec so mio w d))) = pcm_file d"
  "pcm_exists (snd (fst (seal dec so mio w d))) = pcm_exists d"
  "complete_mark (snd (fst (seal dec so mio w d))) = complete_mark d"
  "end_sample (fst (fst (seal dec so mio w d))) = end_sample w"
  "w_failed (fst (fst (seal dec so mio w d))) = w_failed w"
  "w_session_id (fst (fst (seal dec so mio w d))) = w_session_id w"
  "w_source (fst (fst (seal dec so mio w d))) = w_source w"
  by (simp_all add: seal_def split: outcome.split prod.split)

lemma sync_pcm_simps [simp]:
  "end_sample (fst (sync_pcm so w)) = end_sample w"
  "w_session_id (fst (sync_pcm so w)) = w_session_id w"
  "w_source (fst (sync_pcm so w)) = w_source w"
  "w_sealed (fst (sync_pcm so w)) = w_sealed w"
  "prefix_only (fst (sync_pcm so w)) = prefix_only w"
  "w_failed w \<Longrightarrow> w_failed (fst (sync_pcm so w))"
  by (simp_all add: sync_pcm_def)

text \<open>An append either records all of its samples, or changes nothing, or fails the writer.\<close>

lemma append_pcm_cases:
  assumes "append_pcm io w d pcm = ((w', d'), res)"
  obtains (nothing) "w' = w" "d' = d" "is_ok res \<longrightarrow> pcm = []"
  | (recorded) "res = Ok ()" "w' = w\<lparr>end_sample := end_sample w + length pcm\<rparr>"
      "d' = d\<lparr>complete_mark := None, projected_mark := None,
              pcm_file := pcm_file d @ concat (map i16_to_le_bytes pcm)\<rparr>"
      "end_sample w + length pcm \<le> u64_max"
  | (failed) "\<not> is_ok res" "w' = w\<lparr>w_failed := True\<rparr>" "pcm_exists d' = pcm_exists d"
      "sealed_mark d' = sealed_mark d" "\<exists>n. pcm_file d' = pcm_file d @ take n (concat (map i16_to_le_bytes pcm))"
      "complete_mark d' = None \<or> complete_mark d' = complete_mark d"
proof (cases "w_failed w \<or> w_sealed w \<or> prefix_only w \<or> pcm = [] \<or> u64_max < end_sample w + length pcm")
  case True
  then have "append_pcm io w d pcm = ((w, d), snd (append_pcm io w d pcm))"
    "is_ok (snd (append_pcm io w d pcm)) \<longrightarrow> pcm = []"
    by (auto simp: append_pcm_def checked_add64_def)
  with assms have "w' = w" "d' = d" "is_ok res \<longrightarrow> pcm = []" by auto
  then show ?thesis by (rule nothing)
next
  case False
  then have le: "end_sample w + length pcm \<le> u64_max" by simp
  obtain m1 ok1 where rm1: "remove_proof (rm_complete io) (complete_mark d) = (m1, ok1)" by fastforce
  obtain m2 ok2 where rm2: "remove_proof (rm_projected io) (projected_mark d) = (m2, ok2)" by fastforce
  have m1: "m1 = None \<or> m1 = complete_mark d" "ok1 \<Longrightarrow> m1 = None"
    using rm1 by (cases "rm_complete io"; auto)+
  have m2: "ok2 \<Longrightarrow> m2 = None" using rm2 by (cases "rm_projected io") auto
  have step: "((w', d'), res) =
      (if \<not> ok1 then ((w\<lparr>w_failed := True\<rparr>, d\<lparr>complete_mark := m1\<rparr>), Err Disk)
       else if \<not> ok2 then ((w\<lparr>w_failed := True\<rparr>, d\<lparr>complete_mark := m1, projected_mark := m2\<rparr>), Err Disk)
       else (case write_all (pcm_write io) (pcm_file d) (concat (map i16_to_le_bytes pcm)) of (file, ok) \<Rightarrow>
         if ok then ((w\<lparr>end_sample := end_sample w + length pcm\<rparr>,
                      d\<lparr>complete_mark := m1, projected_mark := m2, pcm_file := file\<rparr>), Ok ())
         else ((w\<lparr>w_failed := True\<rparr>, d\<lparr>complete_mark := m1, projected_mark := m2, pcm_file := file\<rparr>), Err Disk)))"
    using assms [symmetric] False rm1 rm2 le by (simp add: append_pcm_def checked_add64_def Let_def)
  show ?thesis
  proof (cases "ok1 \<and> ok2 \<and> pcm_write io = WriteOk")
    case True
    with step m1(2) m2 le show ?thesis by (intro recorded) auto
  next
    case fail: False
    then show ?thesis
      using step m1
      by (cases "pcm_write io"; intro failed) (auto intro: exI [of _ 0] split: if_splits)
  qed
qed

text \<open>Only an append touches the audio.\<close>

lemma replay_step_other:
  assumes "replay_step dec r (w, d) op = ((w', d'), ok)" and "\<And>io pcm. op \<noteq> OpAppend io pcm"
  shows "pcm_file d' = pcm_file d \<and> pcm_exists d' = pcm_exists d \<and> end_sample w' = end_sample w
    \<and> w_session_id w' = w_session_id w \<and> w_source w' = w_source w \<and> (w_failed w \<longrightarrow> w_failed w')"
proof (cases op)
  case (OpSeal so mio)
  with assms have "w' = fst (fst (seal dec so mio w d))" "d' = snd (fst (seal dec so mio w d))"
    by (cases "seal dec so mio w d"; auto)+
  then show ?thesis by simp
next
  case (OpMarkComplete so mio t)
  with assms have "w' = w" "d' = fst (mark_complete so mio r d t)"
    by (cases "mark_complete so mio r d t"; auto)+
  then show ?thesis by simp
next
  case (OpMarkProjected so mio t n)
  with assms have "w' = w" "d' = fst (mark_projected so mio r d t n)"
    by (cases "mark_projected so mio r d t n"; auto)+
  then show ?thesis by simp
next
  case (OpMarkPrefix so mio t n)
  with assms have "w' = w" "d' = fst (mark_prefix_projected so mio r d t n)"
    by (cases "mark_prefix_projected so mio r d t n"; auto)+
  then show ?thesis by simp
qed (use assms in auto)

lemma replay_step_append:
  assumes "replay_step dec r (w, d) (OpAppend io pcm) = ((w', d'), ok)"
  obtains res where "append_pcm io w d pcm = ((w', d'), res)" "ok = is_ok res"
  using assms by (cases "append_pcm io w d pcm") auto

text \<open>
  The audio file only grows, the owner keeps its identity, and a writer that failed stays
  failed, whatever is called.
\<close>

lemma replay_step_grows:
  assumes "replay_step dec r (w, d) op = ((w', d'), ok)"
  shows "(\<exists>new. pcm_file d' = pcm_file d @ new) \<and> pcm_exists d' = pcm_exists d
    \<and> w_session_id w' = w_session_id w \<and> w_source w' = w_source w \<and> (w_failed w \<longrightarrow> w_failed w')"
proof (cases "\<exists>io pcm. op = OpAppend io pcm")
  case True
  then obtain io pcm where "op = OpAppend io pcm" by blast
  with assms obtain res where "append_pcm io w d pcm = ((w', d'), res)"
    using replay_step_append by metis
  then show ?thesis by (cases rule: append_pcm_cases) auto
next
  case False
  then show ?thesis using replay_step_other [OF assms] by auto
qed

text \<open>The state of a healthy writer: its file opens as \<open>r\<close> and holds exactly these samples.\<close>

definition records :: "(byte list \<Rightarrow> replay_header option) \<Rightarrow> replay_reader \<Rightarrow> sample list
    \<Rightarrow> replay_writer \<times> replay_dir \<Rightarrow> bool" where
  "records dec r samples st \<longleftrightarrow>
     (case st of (w, d) \<Rightarrow>
        reader_open dec d (w_session_id w) (w_source w) = Ok r \<and>
        (\<not> w_failed w \<longrightarrow> audio r d = concat (map i16_to_le_bytes samples) \<and>
           end_sample w = first_sample r + length samples))"

lemma records_step:
  assumes "records dec r samples (w, d)" and "replay_step dec r (w, d) op = ((w', d'), ok)"
  shows "records dec r (samples @ accepted [op] [ok]) (w', d')"
proof -
  note grow = replay_step_grows [OF assms(2)]
  have opened: "pcm_exists d" "from_file dec (pcm_file d) (w_session_id w) (w_source w) = Ok r"
    using assms(1) by (auto simp: records_def reader_open_def split: if_splits)
  have opens: "reader_open dec d' (w_session_id w') (w_source w') = Ok r"
    using grow opened from_file_append [OF opened(2)] by (auto simp: reader_open_def)
  have off: "audio_offset r \<le> length (pcm_file d)" using from_file_offset [OF opened(2)] by simp
  show ?thesis
  proof (cases "\<exists>io pcm. op = OpAppend io pcm")
    case True
    then obtain io pcm where op: "op = OpAppend io pcm" by blast
    with assms(2) obtain res where "append_pcm io w d pcm = ((w', d'), res)" "ok = is_ok res"
      using replay_step_append by metis
    then show ?thesis
      using assms(1) opens off op
      by (cases rule: append_pcm_cases) (auto simp: records_def audio_def)
  next
    case False
    then have "accepted [op] [ok] = []" by (cases op) auto
    with False replay_step_other [OF assms(2)] assms(1) opens show ?thesis
      by (auto simp: records_def audio_def)
  qed
qed

lemma accepted_Cons: "accepted (op # ops) (ok # oks) = accepted [op] [ok] @ accepted ops oks"
  by (cases op) simp_all

lemma records_run:
  assumes "records dec r samples st"
  shows "records dec r (samples @ accepted ops (run_log (replay_step dec r) st ops))
    (run_state (replay_step dec r) st ops)"
  using assms
proof (induction ops arbitrary: samples st)
  case (Cons op ops)
  obtain w d w' d' ok where "st = (w, d)" "replay_step dec r (w, d) op = ((w', d'), ok)"
    by (metis surj_pair)
  moreover from this have "records dec r (samples @ accepted [op] [ok]) (w', d')"
    using Cons.prems records_step by blast
  ultimately show ?case
    using Cons.IH [of "samples @ accepted [op] [ok]" "(w', d')"] by (simp add: accepted_Cons [of op ops])
qed simp

text \<open>Reading is indexing the complete samples of the file, torn tail or not.\<close>

lemma pcm_of_bytes_take: "pcm_of_bytes (take (2 * n) bs) = take n (pcm_of_bytes bs)"
proof (induction bs arbitrary: n rule: pcm_of_bytes.induct)
  case (1 lo hi rest)
  then show ?case by (cases n) auto
qed (auto simp: take_Cons' )

lemma pcm_of_bytes_drop: "pcm_of_bytes (drop (2 * n) bs) = drop n (pcm_of_bytes bs)"
proof (induction bs arbitrary: n rule: pcm_of_bytes.induct)
  case (1 lo hi rest)
  then show ?case by (cases n) auto
qed (auto simp: drop_Cons' )

lemma read_from_samples:
  assumes "audio_offset r \<le> length file" and "length file \<le> u64_max"
    and "samples = pcm_of_bytes (drop (audio_offset r) file)"
    and "first_sample r + length samples \<le> u64_max"
    and "first_sample r \<le> s" and "s \<le> first_sample r + length samples"
    and "0 < n" and "n \<le> MAX_READ_SAMPLES"
  shows "read_from r file s n = Ok (take n (drop (s - first_sample r) samples))"
proof -
  define bytes where "bytes = length file - audio_offset r"
  define rel where "rel = s - first_sample r"
  have len: "length samples = bytes div 2" by (simp add: assms(3) bytes_def)
  have ends: "available_end r file = Ok (first_sample r + length samples)"
    using assms(1,4) by (simp add: available_end_def checked_add64_def len bytes_def)
  have rel: "rel \<le> length samples" using assms(5,6) by (simp add: rel_def)
  define count where "count = min (length samples - rel) n"
  have fits: "rel * 2 + count * 2 \<le> bytes" using rel len by (auto simp: count_def)
  have "pcm_of_bytes (take (count * 2) (drop (rel * 2 + audio_offset r) file)) = take count (drop rel samples)"
    using pcm_of_bytes_take [of count] pcm_of_bytes_drop [of rel "drop (audio_offset r) file"]
    by (simp add: assms(3) mult.commute)
  also have "\<dots> = take n (drop rel samples)" by (simp add: count_def min_def)
  finally have "pcm_of_bytes (take (count * 2) (drop (rel * 2 + audio_offset r) file)) = take n (drop rel samples)" .
  moreover have "rel * 2 + audio_offset r \<le> u64_max" "count * 2 \<le> length file - (rel * 2 + audio_offset r)"
    using fits assms(1,2) by (simp_all add: bytes_def)
  ultimately show ?thesis
    using assms(1,2,5,7,8) rel ends
    by (simp add: read_from_def Let_def rel_def [symmetric] count_def [symmetric] bytes_def)
qed

lemma records_created:
  assumes "create_inner enc io_ok s src first pid d = Ok (w, d')"
    and "hdr = \<lparr>h_session_id = s, h_source = src, h_sample_rate = SAMPLE_RATE,
           h_first_sample = first, h_processing_id = pid\<rparr>"
    and "dec (enc hdr) = Some hdr" and "enc hdr \<noteq> []"
    and "\<not> is_some_and pid (\<lambda>i. \<not> valid_processing_id i)"
  shows "records dec \<lparr>rd_header = hdr, audio_offset = 12 + length (enc hdr)\<rparr> [] (w, d')"
proof -
  have "from_file dec (MAGIC @ u32_to_le_bytes (of_nat (length (enc hdr))) @ enc hdr) s src
      = Ok \<lparr>rd_header = hdr, audio_offset = 12 + length (enc hdr)\<rparr>"
    using assms by (intro from_file_created) (auto simp: create_inner_def Let_def split: if_splits)
  moreover have "length (u32_to_le_bytes x) = 4" for x
    by (simp add: u32_to_le_bytes_def u32_to_be_bytes_def)
  ultimately show ?thesis
    using assms(1,2)
    by (auto simp: create_inner_def Let_def records_def reader_open_def audio_def first_sample_def
        MAGIC_def split: if_splits)
qed

text \<open>After a crash the new owner keeps every complete sample and drops at most a torn one.\<close>

lemma take_even_length: "take (2 * (length bs div 2)) bs = (if even (length bs) then bs else butlast bs)"
  by (auto simp: butlast_conv_take elim!: oddE)

lemma concat_pcm_butlast:
  "concat (map i16_to_le_bytes (pcm_of_bytes bs)) = (if even (length bs) then bs else butlast bs)"
proof (cases "even (length bs)")
  case False
  have "pcm_of_bytes bs = pcm_of_bytes (take (2 * (length bs div 2)) bs)"
    by (simp add: pcm_of_bytes_take)
  also have "\<dots> = pcm_of_bytes (butlast bs)" using False by (simp add: butlast_conv_take odd_two_times_div_two_nat)
  finally show ?thesis using False by (simp add: concat_pcm_of_bytes)
qed (simp add: concat_pcm_of_bytes)

lemma pcm_of_bytes_cut: "pcm_of_bytes (take k bs) = take (k div 2) (pcm_of_bytes bs)"
proof (induction bs arbitrary: k rule: pcm_of_bytes.induct)
  case (1 lo hi rest)
  show ?case
  proof (cases "k < 2")
    case True
    then show ?thesis by (auto simp: take_Cons' less_2_cases_iff)
  next
    case False
    then obtain j where "k = Suc (Suc j)" by (metis less_2_cases_iff not0_implies_Suc One_nat_def)
    with 1 show ?thesis by simp
  qed
qed (auto simp: take_Cons')

lemma resume_records:
  assumes opens: "reader_open dec d s src = Ok r" and "sealed_mark d = None"
    and samples: "samples = pcm_of_bytes (audio r d)" and fits: "first_sample r + length samples \<le> u64_max"
  obtains w' d' where "resume dec d s src = Ok (w', d')" "records dec r samples (w', d')" "\<not> w_failed w'"
proof -
  have opened: "pcm_exists d" "from_file dec (pcm_file d) s src = Ok r"
    using opens by (auto simp: reader_open_def split: if_splits)
  note off = from_file_offset [OF opened(2)]
  define n where "n = length (pcm_file d) - audio_offset r"
  define d' where "d' = (if n mod 2 \<noteq> 0 then d\<lparr>pcm_file := take (length (pcm_file d) - 1) (pcm_file d)\<rparr> else d)"
  define w' where "w' = \<lparr>end_sample = first_sample r + length samples, w_failed = False, w_source = src,
    w_session_id = s, w_sealed = False, prefix_only = False\<rparr>"
  have len: "length samples = n div 2" by (simp add: samples audio_def n_def)
  then have "available_end r (pcm_file d) = Ok (first_sample r + length samples)"
    using off fits by (simp add: available_end_def checked_add64_def n_def)
  then have res: "resume dec d s src = Ok (w', d')"
    using assms(2) opens
    by (simp add: resume_def sealed_end_def read_boundary_def Let_def n_def [symmetric] w'_def d'_def)
  have "audio r d' = (if even (length (audio r d)) then audio r d else butlast (audio r d))"
    using off by (simp add: d'_def audio_def n_def even_iff_mod_2_eq_zero butlast_conv_take drop_take)
  then have audio: "audio r d' = concat (map i16_to_le_bytes samples)"
    by (simp add: samples concat_pcm_butlast)
  have "audio_offset r \<le> length (pcm_file d')" "take (audio_offset r) (pcm_file d') = take (audio_offset r) (pcm_file d)"
    using off by (auto simp: d'_def n_def min_def)
  then have "from_file dec (pcm_file d') s src = Ok r" by (rule from_file_cong [OF opened(2)])
  then have "records dec r samples (w', d')"
    using audio opened(1) by (simp add: records_def reader_open_def w'_def d'_def)
  then show ?thesis using that res by (simp add: w'_def)
qed

lemma records_read:
  assumes "records dec r samples (w, d)" and "\<not> w_failed w" and "length (pcm_file d) \<le> u64_max"
    and "first_sample r + length samples \<le> u64_max"
    and "first_sample r \<le> s" and "s \<le> first_sample r + length samples"
    and "0 < n" and "n \<le> MAX_READ_SAMPLES"
  shows "read_from r (pcm_file d) s n = Ok (take n (drop (s - first_sample r) samples))"
proof -
  have "audio r d = concat (map i16_to_le_bytes samples)" and opened: "from_file dec (pcm_file d) (w_session_id w) (w_source w) = Ok r"
    using assms(1,2) by (auto simp: records_def reader_open_def split: if_splits)
  then show ?thesis
    using assms(3-) from_file_offset [OF opened]
    by (intro read_from_samples) (simp_all add: audio_def)
qed

lemma records_crash:
  assumes "records dec r samples (w, d)" and "\<not> w_failed w" and "sealed_mark d = None"
    and "audio_offset r \<le> k" and "first_sample r + length samples \<le> u64_max"
  obtains w' d' where "resume dec (d\<lparr>pcm_file := take k (pcm_file d)\<rparr>) (w_session_id w) (w_source w) = Ok (w', d')"
    "records dec r (take ((k - audio_offset r) div 2) samples) (w', d')" "\<not> w_failed w'"
proof -
  let ?d = "d\<lparr>pcm_file := take k (pcm_file d)\<rparr>"
  have audio: "audio r d = concat (map i16_to_le_bytes samples)" and ex: "pcm_exists d"
    and opened: "from_file dec (pcm_file d) (w_session_id w) (w_source w) = Ok r"
    using assms(1,2) by (auto simp: records_def reader_open_def split: if_splits)
  note off = from_file_offset [OF opened]
  have "from_file dec (take k (pcm_file d)) (w_session_id w) (w_source w) = Ok r"
    using off assms(4) by (intro from_file_cong [OF opened]) (auto simp: min_def)
  then have opens: "reader_open dec ?d (w_session_id w) (w_source w) = Ok r"
    using ex by (simp add: reader_open_def)
  have "audio r ?d = take (k - audio_offset r) (audio r d)"
    using assms(4) by (simp add: audio_def drop_take)
  then have "pcm_of_bytes (audio r ?d) = take ((k - audio_offset r) div 2) samples"
    using audio pcm_of_bytes_cut [of "k - audio_offset r" "audio r d"] by simp
  note cut = this
  show ?thesis
  proof (rule resume_records [OF opens _ cut [symmetric]])
    show "sealed_mark ?d = None" using assms(3) by simp
    show "first_sample r + length (take ((k - audio_offset r) div 2) samples) \<le> u64_max"
      using assms(5) by simp
  qed (rule that)
qed

text \<open>
  C4. Audio that the writer accepted is read back, sample by sample and at its own position
  on the session clock, across a crash. Take any calls on a fresh source, let the process
  die with the file cut anywhere behind its header, resume, and make any further calls: as
  long as the new owner has not failed, every read returns the accepted samples that were
  complete in the file at the crash, followed by those accepted since, and nothing else.
\<close>

theorem replay_survives_crash:
  assumes "create enc io_ok sid src first d0 = Ok st0"
    and "hdr = \<lparr>h_session_id = sid, h_source = src, h_sample_rate = SAMPLE_RATE,
          h_first_sample = first, h_processing_id = None\<rparr>"
    and "dec (enc hdr) = Some hdr" and "enc hdr \<noteq> []"
    and "r = \<lparr>rd_header = hdr, audio_offset = 12 + length (enc hdr)\<rparr>"
    and "(w1, d1) = run_state (replay_step dec r) st0 ops1" and "\<not> w_failed w1" and "sealed_mark d1 = None"
    and "heard1 = accepted ops1 (run_log (replay_step dec r) st0 ops1)"
    and "12 + length (enc hdr) \<le> k" and "first + length heard1 \<le> u64_max"
  shows "\<exists>st2. resume dec (d1\<lparr>pcm_file := take k (pcm_file d1)\<rparr>) sid src = Ok st2 \<and>
    (\<forall>ops2 w3 d3 heard s n.
       (w3, d3) = run_state (replay_step dec r) st2 ops2 \<longrightarrow>
       heard = take ((k - (12 + length (enc hdr))) div 2) heard1
                 @ accepted ops2 (run_log (replay_step dec r) st2 ops2) \<longrightarrow>
       \<not> w_failed w3 \<longrightarrow> length (pcm_file d3) \<le> u64_max \<longrightarrow> first + length heard \<le> u64_max \<longrightarrow>
       first \<le> s \<and> s \<le> first + length heard \<and> 0 < n \<and> n \<le> MAX_READ_SAMPLES \<longrightarrow>
       read_from r (pcm_file d3) s n = Ok (take n (drop (s - first) heard)))"
proof -
  obtain w0 d0' where st0: "st0 = (w0, d0')" by fastforce
  have r: "audio_offset r = 12 + length (enc hdr)" "first_sample r = first"
    using assms(2,5) by (simp_all add: first_sample_def)
  have "records dec r [] st0"
    unfolding st0 assms(5)
    by (rule records_created [where enc = enc and dec = dec, OF assms(1) [unfolded create_def st0] assms(2-4)]) simp
  then have rec1: "records dec r heard1 (w1, d1)"
    using records_run [of dec r "[]" st0 ops1] by (simp add: assms(6,9))
  have "from_file dec (pcm_file d1) (w_session_id w1) (w_source w1) = Ok r"
    using rec1 by (simp add: records_def reader_open_def split: if_splits)
  from from_file_identity [OF this] have "w_session_id w1 = sid" "w_source w1 = src"
    using assms(2,5) by auto
  then obtain w2 d2 where res: "resume dec (d1\<lparr>pcm_file := take k (pcm_file d1)\<rparr>) sid src = Ok (w2, d2)"
    and rec2: "records dec r (take ((k - audio_offset r) div 2) heard1) (w2, d2)" "\<not> w_failed w2"
    using records_crash [OF rec1 assms(7,8), of k] assms(10,11) r by auto
  have reads: "read_from r (pcm_file d3) s n = Ok (take n (drop (s - first) heard))"
    if "(w3, d3) = run_state (replay_step dec r) (w2, d2) ops2"
      "heard = take ((k - (12 + length (enc hdr))) div 2) heard1
         @ accepted ops2 (run_log (replay_step dec r) (w2, d2) ops2)"
      "\<not> w_failed w3" "length (pcm_file d3) \<le> u64_max" "first + length heard \<le> u64_max"
      "first \<le> s \<and> s \<le> first + length heard \<and> 0 < n \<and> n \<le> MAX_READ_SAMPLES"
    for ops2 w3 d3 heard s n
  proof -
    have "records dec r heard (w3, d3)" using records_run [OF rec2(1), of ops2] that(1,2) r(1) by simp
    then show ?thesis using records_read [of dec r heard w3 d3 s n] that r(2) by simp
  qed
  show ?thesis
    by (intro exI [of _ "(w2, d2)"] conjI allI impI res, rule reads; assumption)
qed

definition disk_ok :: append_io where
  "disk_ok = \<lparr>rm_complete = RemoveOk, rm_projected = RemoveOk, pcm_write = WriteOk\<rparr>"

definition empty_dir :: replay_dir where
  "empty_dir = \<lparr>pcm_exists = False, pcm_file = [], sealed_mark = None, complete_mark = None,
     projected_mark = None, prefix_mark = None, coverage_file = None\<rparr>"

definition header_of :: "string \<Rightarrow> nat \<Rightarrow> replay_header" where
  "header_of sid first = \<lparr>h_session_id = sid, h_source = ReplayMic, h_sample_rate = SAMPLE_RATE,
     h_first_sample = first, h_processing_id = None\<rparr>"

theorem replay_survives_crash_witness:
  "\<exists>st2. resume (\<lambda>bs. Some (header_of ''s'' 100))
     (empty_dir\<lparr>pcm_exists := True, pcm_file := take 16 (MAGIC @ [1, 0, 0, 0] @ [7] @ [1, 0, 2, 0])\<rparr>)
     ''s'' ReplayMic = Ok st2"
proof -
  define hdr where "hdr = header_of ''s'' 100"
  define r where "r = \<lparr>rd_header = hdr, audio_offset = 13\<rparr>"
  define dec where "dec = (\<lambda>bs :: byte list. Some hdr)"
  define w where "w = (\<lambda>e. \<lparr>end_sample = e, w_failed = False, w_source = ReplayMic,
    w_session_id = ''s'', w_sealed = False, prefix_only = False\<rparr>)"
  define d where "d = (\<lambda>bytes. empty_dir\<lparr>pcm_exists := True, pcm_file := MAGIC @ [1, 0, 0, 0] @ [7] @ bytes\<rparr>)"
  have c: "create (\<lambda>_. [7]) True ''s'' ReplayMic 100 empty_dir = Ok (w 100, d [])"
    by (simp add: create_def create_inner_def empty_dir_def w_def d_def MAX_HEADER_BYTES_def
        u32_to_le_bytes_def u32_to_be_bytes_def)
  have "run_state (replay_step dec r) (w 100, d []) [OpAppend disk_ok [1, 2]] = (w 102, d [1, 0, 2, 0])"
    by (simp add: w_def d_def append_pcm_def disk_ok_def u64_max_def checked_add64_def i16_to_le_bytes_def empty_dir_def)
  note run = this [symmetric]
  have "hdr = \<lparr>h_session_id = ''s'', h_source = ReplayMic, h_sample_rate = SAMPLE_RATE,
      h_first_sample = 100, h_processing_id = None\<rparr>"
    by (simp add: hdr_def header_of_def)
  moreover have "dec ((\<lambda>_. [7]) hdr) = Some hdr" "r = \<lparr>rd_header = hdr, audio_offset = 12 + length ((\<lambda>_. [7 :: byte]) hdr)\<rparr>"
    by (simp_all add: dec_def r_def)
  moreover have "\<not> w_failed (w 102)" "sealed_mark (d [1, 0, 2, 0]) = None"
    by (simp_all add: w_def d_def empty_dir_def)
  moreover have "100 + length (accepted [OpAppend disk_ok [1, 2]]
      (run_log (replay_step dec r) (w 100, d []) [OpAppend disk_ok [1, 2]])) \<le> u64_max"
    by (simp add: u64_max_def)
  ultimately have "\<exists>st2. resume dec ((d [1, 0, 2, 0])\<lparr>pcm_file := take 16 (pcm_file (d [1, 0, 2, 0]))\<rparr>)
      ''s'' ReplayMic = Ok st2"
    using replay_survives_crash [OF c _ _ _ _ run _ _ refl, of hdr 16] by force
  then show ?thesis by (simp add: dec_def d_def hdr_def empty_dir_def)
qed
section \<open>Proofs never outlive their audio\<close>

text \<open>
  A marker that matches a source pins the length of its file. Since the file only grows, a
  completion that still matches was made for exactly the audio that is there now.
\<close>

lemma replay_run_grows:
  assumes "run_state (replay_step dec r) (w, d) ops = (w', d')"
  shows "\<exists>new. pcm_file d' = pcm_file d @ new"
  using assms
proof (induction ops arbitrary: w d)
  case (Cons op ops)
  obtain w1 d1 ok where step: "replay_step dec r (w, d) op = ((w1, d1), ok)" by (metis surj_pair)
  with Cons.prems Cons.IH [of w1 d1] replay_step_grows [OF step] show ?case by auto
qed simp

definition pins :: "replay_reader \<Rightarrow> completion \<Rightarrow> byte list \<Rightarrow> bool" where
  "pins r b file \<longleftrightarrow> audio_offset r \<le> length file \<and> even (length file - audio_offset r) \<and>
     c_through_sample b = first_sample r + (length file - audio_offset r) div 2"

lemma pins_unique:
  assumes "pins r b file" and "pins r b (file @ new)"
  shows "new = []"
proof -
  define n where "n = length file - audio_offset r"
  have len: "length (file @ new) - audio_offset r = n + length new"
    using assms(1) by (simp add: pins_def n_def)
  have "even n" "c_through_sample b = first_sample r + n div 2"
    using assms(1) unfolding pins_def n_def by blast+
  moreover have "even (n + length new)" "c_through_sample b = first_sample r + (n + length new) div 2"
    using assms(2) unfolding pins_def len by blast+
  ultimately have "even n" "even (n + length new)" "n div 2 = (n + length new) div 2" by linarith+
  then have "n = n + length new" by (metis dvd_div_mult_self)
  then show ?thesis by simp
qed

lemma matches_boundary_pins: "matches_boundary r file b = Ok True \<Longrightarrow> pins r b file"
  by (auto simp: matches_boundary_def aligned_def available_end_def pins_def ok_iff even_iff_mod_2_eq_zero
      split: if_splits option.splits)

lemma boundary_pins: "boundary so r file t = Ok b \<Longrightarrow> pins r b file"
  by (auto simp: boundary_def aligned_def available_end_def pins_def ok_iff even_iff_mod_2_eq_zero
      split: if_splits option.splits)

lemma mark_complete_mark:
  assumes "complete_mark (fst (mark_complete so mio r d t)) = Some b"
  shows "complete_mark d = Some b \<or> pins r b (pcm_file d)"
  using assms
  by (cases mio) (auto simp: mark_complete_def ok_iff dest: boundary_pins split: outcome.splits)

lemma step_complete_mark:
  assumes "replay_step dec r (w, d) op = ((w', d'), ok)" and "complete_mark d' = Some b"
  shows "complete_mark d = Some b \<or> (\<exists>so mio t. op = OpMarkComplete so mio t) \<and> pins r b (pcm_file d)"
proof (cases op)
  case (OpAppend io pcm)
  with assms(1) obtain res where "append_pcm io w d pcm = ((w', d'), res)"
    using replay_step_append by metis
  then show ?thesis using assms(2) by (cases rule: append_pcm_cases) auto
next
  case (OpMarkComplete so mio t)
  with assms have "complete_mark (fst (mark_complete so mio r d t)) = Some b"
    by (cases "mark_complete so mio r d t") auto
  with OpMarkComplete mark_complete_mark show ?thesis by blast
next
  case (OpMarkProjected so mio t n)
  with assms(1) have "d' = fst (mark_projected so mio r d t n)"
    by (cases "mark_projected so mio r d t n") auto
  with assms(2) show ?thesis by simp
next
  case (OpMarkPrefix so mio t n)
  with assms(1) have "d' = fst (mark_prefix_projected so mio r d t n)"
    by (cases "mark_prefix_projected so mio r d t n") auto
  with assms(2) show ?thesis by simp
next
  case (OpSeal so mio)
  with assms(1) have "d' = snd (fst (seal dec so mio w d))"
    by (cases "seal dec so mio w d") auto
  with assms(2) show ?thesis by simp
qed (use assms in auto)

lemma run_complete_mark:
  assumes "run_state (replay_step dec r) (w, d) ops = (w', d')" and "complete_mark d' = Some b"
    and "complete_mark d = None"
  shows "\<exists>pre so mio t post w0 d0. ops = pre @ OpMarkComplete so mio t # post \<and>
    run_state (replay_step dec r) (w, d) pre = (w0, d0) \<and> pins r b (pcm_file d0)"
  using assms
proof (induction ops arbitrary: w' d' rule: rev_induct)
  case (snoc op ops)
  obtain w1 d1 where run: "run_state (replay_step dec r) (w, d) ops = (w1, d1)" by fastforce
  obtain ok where step: "replay_step dec r (w1, d1) op = ((w', d'), ok)"
    using snoc.prems(1) run by (metis prod.collapse run_state.simps run_state_append)
  from step_complete_mark [OF step snoc.prems(2)] show ?case
  proof
    assume "complete_mark d1 = Some b"
    with snoc.IH [OF run] snoc.prems(3) show ?thesis by fastforce
  next
    assume "(\<exists>so mio t. op = OpMarkComplete so mio t) \<and> pins r b (pcm_file d1)"
    with run show ?thesis by blast
  qed
qed simp

text \<open>
  C5. A completion proof never outlives the audio it certifies. Whatever is called on a
  source that has no such proof yet, whichever of its disk operations fail and however
  partially, if the source is reported completely transcribed at the end, then somebody
  marked it complete in this run when its file was, byte for byte, what it is now. Audio that
  arrived later can therefore not be retired as transcribed.
\<close>

theorem completion_never_stale:
  assumes "complete_mark d = None" and "run_state (replay_step dec r) (w, d) ops = (w', d')"
    and "is_complete r d' = Ok True"
  shows "\<exists>pre so mio t post w0 d0. ops = pre @ OpMarkComplete so mio t # post \<and>
    run_state (replay_step dec r) (w, d) pre = (w0, d0) \<and> pcm_file d0 = pcm_file d'"
proof -
  obtain b where b: "complete_mark d' = Some b" "matches_boundary r (pcm_file d') b = Ok True"
    using assms(3)
    by (auto simp: is_complete_def ok_iff read_boundary_def split: option.splits if_splits)
  obtain pre so mio t post w0 d0 where ops: "ops = pre @ OpMarkComplete so mio t # post"
    "run_state (replay_step dec r) (w, d) pre = (w0, d0)" "pins r b (pcm_file d0)"
    using run_complete_mark [OF assms(2) b(1) assms(1)] by blast
  have "run_state (replay_step dec r) (w0, d0) (OpMarkComplete so mio t # post) = (w', d')"
    using assms(2) ops(1,2) by simp
  then obtain new where "pcm_file d' = pcm_file d0 @ new" using replay_run_grows by blast
  moreover from this have "new = []" using pins_unique ops(3) matches_boundary_pins [OF b(2)] by metis
  ultimately have "pcm_file d0 = pcm_file d'" by simp
  with ops(1,2) show ?thesis by blast
qed

theorem completion_never_stale_witness:
  "\<exists>pre so mio t post w0 d0.
     [OpAppend disk_ok [1], OpMarkComplete True MarkerOk 101] = pre @ OpMarkComplete so mio t # post \<and>
     run_state (replay_step (\<lambda>_. None) \<lparr>rd_header = header_of ''s'' 100, audio_offset = 2\<rparr>)
       (\<lparr>end_sample = 100, w_failed = False, w_source = ReplayMic, w_session_id = ''s'',
         w_sealed = False, prefix_only = False\<rparr>, empty_dir\<lparr>pcm_file := [7, 7]\<rparr>) pre = (w0, d0) \<and>
     pcm_file d0 = [7, 7, 1, 0]"
proof -
  define r where "r = \<lparr>rd_header = header_of ''s'' 100, audio_offset = 2\<rparr>"
  define w where "w = (\<lambda>e. \<lparr>end_sample = e, w_failed = False, w_source = ReplayMic,
    w_session_id = ''s'', w_sealed = False, prefix_only = False\<rparr>)"
  define d where "d = empty_dir\<lparr>pcm_file := [7, 7]\<rparr>"
  define b where "b = \<lparr>c_schema = 1, c_session_id = ''s'', c_source = ReplayMic, c_first_sample = 100,
    c_through_sample = 101\<rparr>"
  have none: "complete_mark d = None" by (simp add: d_def empty_dir_def)
  have run: "run_state (replay_step (\<lambda>_. None) r) (w 100, d) [OpAppend disk_ok [1], OpMarkComplete True MarkerOk 101]
      = (w 101, d\<lparr>pcm_file := [7, 7, 1, 0], complete_mark := Some b\<rparr>)"
    by (simp add: w_def d_def r_def b_def append_pcm_def disk_ok_def u64_max_def checked_add64_def
        i16_to_le_bytes_def empty_dir_def mark_complete_def sealed_end_def read_boundary_def boundary_def
        aligned_def available_end_def sync_through_def first_sample_def header_of_def)
  have "is_complete r (d\<lparr>pcm_file := [7, 7, 1, 0], complete_mark := Some b\<rparr>) = Ok True"
    by (simp add: d_def r_def b_def u64_max_def checked_add64_def empty_dir_def is_complete_def sealed_end_def
        read_boundary_def matches_boundary_def aligned_def available_end_def first_sample_def header_of_def)
  from completion_never_stale [OF none run this] show ?thesis
    by (simp add: r_def w_def d_def)
qed
end
