(* ===== verification/Transcript.thy ===== *)
theory Transcript
  imports Prelude
begin

text \<open>
  The canonical transcript and what keeps it consistent while providers revise it
  (\<^verbatim>\<open>crates/fotw-stt/src/transcript.rs\<close>, \<^verbatim>\<open>store.rs\<close>, \<^verbatim>\<open>speaker.rs\<close> and
  \<^verbatim>\<open>clock.rs\<close>): segments and words, the tracker that numbers the revisions of an
  utterance, the store that keeps the newest one, the registry of speaker labels, and the
  clocks that place provider times on the session. Minting a ULID belongs to the ulid
  library; the factory of ids is a parameter.
\<close>

section \<open>Segments\<close>

datatype source = Mic | System

datatype timestamp_source = Provider | Estimated

record word =
  word_text :: string
  word_start_ms :: nat
  word_end_ms :: nat
  word_confidence :: "f64 option"
  word_speaker :: "string option"

definition word_duration_ms :: "word \<Rightarrow> nat" where
  "word_duration_ms w = word_end_ms w - word_start_ms w"

record segment =
  seg_id :: string
  seg_session_id :: string
  seg_source :: source
  seg_speaker :: "string option"
  seg_text :: string
  seg_start_ms :: nat
  seg_end_ms :: nat
  seg_words :: "word list"
  seg_confidence :: "f64 option"
  seg_language :: "string option"
  is_final :: bool
  revision :: nat
  seg_provider :: string
  seg_model :: string
  timestamp_source :: timestamp_source

definition segment_new :: "string \<Rightarrow> string \<Rightarrow> source \<Rightarrow> string \<Rightarrow> string \<Rightarrow> segment" where
  "segment_new fresh_id session src prov mdl =
     \<lparr>seg_id = fresh_id, seg_session_id = session, seg_source = src, seg_speaker = None, seg_text = [],
      seg_start_ms = 0, seg_end_ms = 0, seg_words = [], seg_confidence = None, seg_language = None,
      is_final = False, revision = 0, seg_provider = prov, seg_model = mdl,
      timestamp_source = Provider\<rparr>"

definition segment_duration_ms :: "segment \<Rightarrow> nat" where
  "segment_duration_ms s = seg_end_ms s - seg_start_ms s"

definition supersedes :: "segment \<Rightarrow> segment \<Rightarrow> bool" where
  "supersedes s other \<longleftrightarrow> seg_id s = seg_id other \<and> revision other < revision s"

section \<open>Numbering the revisions\<close>

text \<open>A factory of ids is a state and a function that mints the next id from it.\<close>

record counting_id_factory =
  cf_prefix :: string
  cf_next :: nat

definition counting_next :: "counting_id_factory \<Rightarrow> counting_id_factory \<times> string" where
  "counting_next f = (f\<lparr>cf_next := cf_next f + 1\<rparr>, cf_prefix f @ ''-'' @ show_nat (cf_next f))"

record 'f utterance_tracker =
  factory :: 'f
  open_id :: "string option"
  next_revision :: nat

definition with_id_factory :: "'f \<Rightarrow> 'f utterance_tracker" where
  "with_id_factory f = \<lparr>factory = f, open_id = None, next_revision = 0\<rparr>"

definition open_or_start ::
  "('f \<Rightarrow> 'f \<times> string) \<Rightarrow> 'f utterance_tracker \<Rightarrow> 'f utterance_tracker \<times> string" where
  "open_or_start next_id t =
     (case open_id t of
        Some i \<Rightarrow> (t, i)
      | None \<Rightarrow> (case next_id (factory t) of
                  (f, i) \<Rightarrow> (t\<lparr>factory := f, open_id := Some i, next_revision := 0\<rparr>, i)))"

text \<open>The revision is a \<^verbatim>\<open>u32\<close> and wraps.\<close>

definition next_partial ::
  "('f \<Rightarrow> 'f \<times> string) \<Rightarrow> 'f utterance_tracker \<Rightarrow> 'f utterance_tracker \<times> string \<times> nat" where
  "next_partial next_id t =
     (case open_or_start next_id t of
        (t, i) \<Rightarrow> (t\<lparr>next_revision := (next_revision t + 1) mod 2 ^ 32\<rparr>, i, next_revision t))"

definition next_final ::
  "('f \<Rightarrow> 'f \<times> string) \<Rightarrow> 'f utterance_tracker \<Rightarrow> 'f utterance_tracker \<times> string \<times> nat" where
  "next_final next_id t =
     (case open_or_start next_id t of
        (t, i) \<Rightarrow> (t\<lparr>open_id := None, next_revision := 0\<rparr>, i, next_revision t))"

definition abandon :: "'f utterance_tracker \<Rightarrow> 'f utterance_tracker" where
  "abandon t = t\<lparr>open_id := None, next_revision := 0\<rparr>"

section \<open>The newest revision wins\<close>

datatype store_outcome = Inserted | Superseded nat | RejectedStale nat nat

fun applied :: "store_outcome \<Rightarrow> bool" where
  "applied (RejectedStale _ _) = False"
| "applied _ = True"

record segment_store =
  by_id :: "string \<rightharpoonup> segment"
  order :: "string list"

definition store_new :: segment_store where
  "store_new = \<lparr>by_id = Map.empty, order = []\<rparr>"

definition upsert :: "segment_store \<Rightarrow> segment \<Rightarrow> segment_store \<times> store_outcome" where
  "upsert st s =
     (case by_id st (seg_id s) of
        Some existing \<Rightarrow>
          if revision s \<le> revision existing then (st, RejectedStale (revision existing) (revision s))
          else (st\<lparr>by_id := (by_id st)(seg_id s \<mapsto> s)\<rparr>, Superseded (revision existing))
      | None \<Rightarrow>
          (st\<lparr>order := order st @ [seg_id s], by_id := (by_id st)(seg_id s \<mapsto> s)\<rparr>, Inserted))"

definition store_get :: "segment_store \<Rightarrow> string \<Rightarrow> segment option" where
  "store_get st i = by_id st i"

definition segments :: "segment_store \<Rightarrow> segment list" where
  "segments st = List.map_filter (by_id st) (order st)"

definition pending_ids :: "segment_store \<Rightarrow> string list" where
  "pending_ids st = map seg_id (filter (\<lambda>s. \<not> is_final s) (segments st))"

text \<open>
  Told on the sequence of segments alone: the one that counts for an id is the first to carry
  the highest revision, and the transcript is in the order in which ids first appeared.
\<close>

definition newest :: "segment list \<Rightarrow> string \<Rightarrow> segment \<Rightarrow> bool" where
  "newest segs i s \<longleftrightarrow>
     (\<exists>pre post. segs = pre @ s # post \<and> seg_id s = i \<and>
        (\<forall>x\<in>set pre. seg_id x = i \<longrightarrow> revision x < revision s) \<and>
        (\<forall>x\<in>set post. seg_id x = i \<longrightarrow> revision x \<le> revision s))"

fun first_seen :: "'a list \<Rightarrow> 'a list \<Rightarrow> 'a list" where
  "first_seen acc [] = acc"
| "first_seen acc (x # xs) = first_seen (if x \<in> set acc then acc else acc @ [x]) xs"

lemma first_seen_snoc:
  "first_seen acc (xs @ [x]) = (let ys = first_seen acc xs in if x \<in> set ys then ys else ys @ [x])"
  by (induction xs arbitrary: acc) (simp_all add: Let_def)

lemma set_first_seen [simp]: "set (first_seen acc xs) = set acc \<union> set xs"
  by (induction xs arbitrary: acc) auto

lemma distinct_first_seen: "distinct acc \<Longrightarrow> distinct (first_seen acc xs)"
  by (induction xs arbitrary: acc) auto

lemma newestI:
  "segs = pre @ s # post \<Longrightarrow> seg_id s = i \<Longrightarrow> \<forall>x\<in>set pre. seg_id x = i \<longrightarrow> revision x < revision s \<Longrightarrow>
     \<forall>x\<in>set post. seg_id x = i \<longrightarrow> revision x \<le> revision s \<Longrightarrow> newest segs i s"
  unfolding newest_def by blast

lemma newest_snoc:
  "newest (segs @ [x]) i s \<longleftrightarrow>
     s = x \<and> seg_id x = i \<and> (\<forall>y\<in>set segs. seg_id y = i \<longrightarrow> revision y < revision x)
     \<or> newest segs i s \<and> (seg_id x = i \<longrightarrow> revision x \<le> revision s)"
proof
  assume "newest (segs @ [x]) i s"
  then obtain pre post where eq: "segs @ [x] = pre @ s # post" and s: "seg_id s = i"
    "\<forall>y\<in>set pre. seg_id y = i \<longrightarrow> revision y < revision s"
    "\<forall>y\<in>set post. seg_id y = i \<longrightarrow> revision y \<le> revision s"
    unfolding newest_def by blast
  show "s = x \<and> seg_id x = i \<and> (\<forall>y\<in>set segs. seg_id y = i \<longrightarrow> revision y < revision x)
     \<or> newest segs i s \<and> (seg_id x = i \<longrightarrow> revision x \<le> revision s)"
  proof (cases post rule: rev_cases)
    case Nil
    with eq s show ?thesis by simp
  next
    case (snoc ys y)
    with eq have "segs = pre @ s # ys" "y = x" by simp_all
    with snoc s have "newest segs i s" "seg_id x = i \<longrightarrow> revision x \<le> revision s"
      by (auto intro: newestI)
    then show ?thesis by blast
  qed
next
  assume "s = x \<and> seg_id x = i \<and> (\<forall>y\<in>set segs. seg_id y = i \<longrightarrow> revision y < revision x)
     \<or> newest segs i s \<and> (seg_id x = i \<longrightarrow> revision x \<le> revision s)"
  then show "newest (segs @ [x]) i s"
  proof
    assume "s = x \<and> seg_id x = i \<and> (\<forall>y\<in>set segs. seg_id y = i \<longrightarrow> revision y < revision x)"
    then show ?thesis by (intro newestI [of _ segs _ "[]"]) auto
  next
    assume new: "newest segs i s \<and> (seg_id x = i \<longrightarrow> revision x \<le> revision s)"
    then obtain pre post where "segs = pre @ s # post" "seg_id s = i"
      "\<forall>y\<in>set pre. seg_id y = i \<longrightarrow> revision y < revision s"
      "\<forall>y\<in>set post. seg_id y = i \<longrightarrow> revision y \<le> revision s"
      unfolding newest_def by blast
    with new show ?thesis by (intro newestI [of _ pre _ "post @ [x]"]) auto
  qed
qed

lemma newest_le: "newest segs i s \<Longrightarrow> x \<in> set segs \<Longrightarrow> seg_id x = i \<Longrightarrow> revision x \<le> revision s"
  unfolding newest_def by force

definition store_inv :: "segment list \<Rightarrow> segment_store \<Rightarrow> bool" where
  "store_inv segs st \<longleftrightarrow>
     (\<forall>i s. by_id st i = Some s \<longleftrightarrow> newest segs i s) \<and>
     (\<forall>i. by_id st i = None \<longleftrightarrow> i \<notin> seg_id ` set segs) \<and>
     order st = first_seen [] (map seg_id segs)"

lemma store_inv_dests:
  assumes "store_inv segs st"
  shows "by_id st i = Some s \<longleftrightarrow> newest segs i s" and "by_id st i = None \<longleftrightarrow> i \<notin> seg_id ` set segs"
    and "order st = first_seen [] (map seg_id segs)"
  using assms unfolding store_inv_def by blast+

lemma newest_known:
  assumes "newest segs i e"
  shows "newest (segs @ [x]) i s \<longleftrightarrow> (if i = seg_id x \<and> revision e < revision x then s = x else newest segs i s)"
proof (cases "i = seg_id x")
  case True
  have "e \<in> set segs" "seg_id e = i" using assms by (auto simp: newest_def)
  then have "(\<forall>y\<in>set segs. seg_id y = i \<longrightarrow> revision y < revision x) \<longleftrightarrow> revision e < revision x"
    using newest_le [OF assms] le_less_trans by blast
  moreover have "revision s \<le> revision e" "revision e \<le> revision s" if "newest segs i s"
  proof -
    have "s \<in> set segs" "seg_id s = i" using that by (auto simp: newest_def)
    then show "revision s \<le> revision e" by (rule newest_le [OF assms])
    show "revision e \<le> revision s" using that \<open>e \<in> set segs\<close> \<open>seg_id e = i\<close> by (rule newest_le)
  qed
  ultimately show ?thesis using True by (auto simp: newest_snoc)
qed (simp add: newest_snoc)

lemma store_inv_upsert:
  assumes "store_inv segs st"
  shows "store_inv (segs @ [x]) (fst (upsert st x))"
proof (cases "by_id st (seg_id x)")
  case None
  then have up: "fst (upsert st x) = st\<lparr>order := order st @ [seg_id x], by_id := (by_id st)(seg_id x \<mapsto> x)\<rparr>"
    by (simp add: upsert_def)
  have fresh: "seg_id x \<notin> seg_id ` set segs"
    using None store_inv_dests(2) [OF assms] by blast
  have new: "newest (segs @ [x]) i s \<longleftrightarrow> (if i = seg_id x then s = x else newest segs i s)" for i s
  proof -
    have "\<not> newest segs (seg_id x) s" using None store_inv_dests(1) [OF assms] by (metis option.distinct(1))
    with fresh show ?thesis by (auto simp: newest_snoc image_iff)
  qed
  show ?thesis
    unfolding up store_inv_def
    using store_inv_dests [OF assms] fresh by (simp add: new first_seen_snoc eq_commute)
next
  case (Some e)
  then have up: "fst (upsert st x) =
      (if revision e < revision x then st\<lparr>by_id := (by_id st)(seg_id x \<mapsto> x)\<rparr> else st)"
    by (simp add: upsert_def)
  have e: "newest segs (seg_id x) e" using Some store_inv_dests(1) [OF assms] by blast
  then have known: "seg_id x \<in> seg_id ` set segs" by (auto simp: newest_def)
  have new: "newest (segs @ [x]) i s \<longleftrightarrow>
      (if i = seg_id x \<and> revision e < revision x then s = x else newest segs i s)" for i s
    using newest_known [OF e] newest_snoc [of segs x i s] by (cases "i = seg_id x") auto
  show ?thesis
    unfolding up store_inv_def
    using store_inv_dests [OF assms] known by (simp add: new first_seen_snoc eq_commute insert_absorb)
qed

lemma store_inv_run: "store_inv segs (run_state upsert store_new segs)"
proof (induction segs rule: rev_induct)
  case Nil
  then show ?case by (simp add: store_inv_def store_new_def newest_def)
next
  case (snoc x segs)
  then show ?case using store_inv_upsert by simp
qed

text \<open>
  C19. The newest revision wins. After any sequence of segments, replayed, reordered or
  repeated, the store holds for an id exactly the first segment that carried its highest
  revision, so a replayed partial never un-finalizes a line; and the transcript lists every
  id once, in the order of first appearance, which revisions never change.
\<close>

theorem store_newest_wins:
  "(store_get (run_state upsert store_new segs) i = Some s \<longleftrightarrow> newest segs i s) \<and>
   map seg_id (segments (run_state upsert store_new segs)) = first_seen [] (map seg_id segs)"
proof

  let ?st = "run_state upsert store_new segs"
  note inv = store_inv_dests [OF store_inv_run, of segs]
  show "store_get ?st i = Some s \<longleftrightarrow> newest segs i s"
    unfolding store_get_def by (rule inv(1))
  have held: "\<exists>s. by_id ?st j = Some s \<and> seg_id s = j" if "j \<in> seg_id ` set segs" for j
  proof -
    have "by_id ?st j \<noteq> None" using that inv(2) by blast
    then obtain s where s: "by_id ?st j = Some s" by blast
    then have "newest segs j s" by (simp only: inv(1))
    then have "seg_id s = j" by (auto simp: newest_def)
    with s show ?thesis by blast
  qed
  have "map seg_id (List.map_filter (by_id ?st) js) = js" if "set js \<subseteq> seg_id ` set segs" for js
    using that
  proof (induction js)
    case (Cons j js)
    with held obtain s where "by_id ?st j = Some s" "seg_id s = j" by force
    with Cons show ?case by (simp add: map_filter_simps)
  qed (simp add: map_filter_simps)
  then show "map seg_id (segments ?st) = first_seen [] (map seg_id segs)"
    by (simp add: segments_def inv(3))
qed

section \<open>A stream feeding a store\<close>

text \<open>
  What an adapter emits: partials and finals of utterances, stamped by the tracker, upserted
  into the store; or the open utterance is abandoned.
\<close>

datatype emission = EmitPartial segment | EmitFinal segment | EmitAbandon

definition stamp :: "segment \<Rightarrow> bool \<Rightarrow> string \<times> nat \<Rightarrow> segment" where
  "stamp s fin ir = s\<lparr>seg_id := fst ir, revision := snd ir, is_final := fin\<rparr>"

fun emit ::
  "('f \<Rightarrow> 'f \<times> string) \<Rightarrow> 'f utterance_tracker \<times> segment_store \<Rightarrow> emission
     \<Rightarrow> ('f utterance_tracker \<times> segment_store) \<times> store_outcome option" where
  "emit next_id (t, st) (EmitPartial s) =
     (case next_partial next_id t of (t, ir) \<Rightarrow>
        case upsert st (stamp s False ir) of (st, out) \<Rightarrow> ((t, st), Some out))"
| "emit next_id (t, st) (EmitFinal s) =
     (case next_final next_id t of (t, ir) \<Rightarrow>
        case upsert st (stamp s True ir) of (st, out) \<Rightarrow> ((t, st), Some out))"
| "emit next_id (t, st) EmitAbandon = ((abandon t, st), None)"

text \<open>The factory after minting \<open>n\<close> ids, and the id it mints next.\<close>

definition factory_at :: "('f \<Rightarrow> 'f \<times> string) \<Rightarrow> 'f \<Rightarrow> nat \<Rightarrow> 'f" where
  "factory_at next_id f n = ((fst \<circ> next_id) ^^ n) f"

definition minted :: "('f \<Rightarrow> 'f \<times> string) \<Rightarrow> 'f \<Rightarrow> nat \<Rightarrow> string" where
  "minted next_id f n = snd (next_id (factory_at next_id f n))"

text \<open>What the stream relies on: a factory never mints the same id twice.\<close>

locale id_factory =
  fixes next_id :: "'f \<Rightarrow> 'f \<times> string"
    and fresh :: 'f
  assumes minted_inj: "minted next_id fresh m = minted next_id fresh n \<Longrightarrow> m = n"
begin

text \<open>
  After minting \<open>n\<close> ids: only minted ids are stored, the open utterance has the last of
  them, and its stored revision is behind the next one.
\<close>

definition stream_inv :: "nat \<Rightarrow> nat \<Rightarrow> 'f utterance_tracker \<times> segment_store \<Rightarrow> bool" where
  "stream_inv n k ts \<longleftrightarrow>
     (case ts of (t, st) \<Rightarrow>
        factory t = factory_at next_id fresh n \<and> next_revision t \<le> k \<and>
        dom (by_id st) \<subseteq> minted next_id fresh ` {..<n} \<and>
        (open_id t = None \<longrightarrow> next_revision t = 0) \<and>
        (\<forall>i. open_id t = Some i \<longrightarrow> (\<forall>s. by_id st i = Some s \<longrightarrow> revision s < next_revision t) \<and>
           i \<in> minted next_id fresh ` {..<n}))"

lemma stream_inv_start: "stream_inv 0 0 (with_id_factory fresh, store_new)"
  by (simp add: stream_inv_def with_id_factory_def store_new_def factory_at_def)

lemma open_or_start_inv:
  assumes "stream_inv n k (t, st)"
  obtains n' i where "stream_inv n' k (fst (open_or_start next_id t), st)"
    "open_id (fst (open_or_start next_id t)) = Some i" "snd (open_or_start next_id t) = i"
proof (cases "open_id t")
  case (Some i)
  with assms that [of n i] show ?thesis by (simp add: open_or_start_def)
next
  case None
  define t' where "t' = t\<lparr>factory := factory_at next_id fresh (Suc n),
    open_id := Some (minted next_id fresh n), next_revision := 0\<rparr>"
  have started: "open_or_start next_id t = (t', minted next_id fresh n)"
    using None assms
    by (simp add: open_or_start_def stream_inv_def t'_def minted_def factory_at_def case_prod_beta)
  have "minted next_id fresh n \<notin> minted next_id fresh ` {..<n}" using minted_inj by fastforce
  then have "by_id st (minted next_id fresh n) = None"
    using assms by (auto simp: stream_inv_def)
  with assms have "stream_inv (Suc n) k (t', st)"
    by (auto simp: stream_inv_def t'_def lessThan_Suc)
  with that started show ?thesis by (simp add: t'_def)
qed

lemma upsert_newer:
  assumes "\<And>s. by_id st i = Some s \<Longrightarrow> revision s < r"
  shows "applied (snd (upsert st (stamp s fin (i, r))))"
    and "by_id (fst (upsert st (stamp s fin (i, r)))) = (by_id st)(i \<mapsto> stamp s fin (i, r))"
  using assms by (auto simp: upsert_def stamp_def split: option.split)

lemma emit_inv:
  assumes "stream_inv n k ts" and "k + 1 < 2 ^ 32"
  shows "(\<exists>n'. stream_inv n' (k + 1) (fst (emit next_id ts ev))) \<and>
    (\<forall>out. snd (emit next_id ts ev) = Some out \<longrightarrow> applied out)"
proof -
  obtain t st where ts: "ts = (t, st)" by (cases ts)
  obtain n' i t' where t': "stream_inv n' k (t', st)" "open_id t' = Some i"
    "open_or_start next_id t = (t', i)"
    using open_or_start_inv assms(1) unfolding ts by (metis prod.collapse)
  note newer = upsert_newer [of st i "next_revision t'"]
  have behind: "\<And>s. by_id st i = Some s \<Longrightarrow> revision s < next_revision t'" "next_revision t' \<le> k"
    using t'(1,2) by (auto simp: stream_inv_def)
  show ?thesis
  proof (cases ev)
    case (EmitPartial s)
    then have "emit next_id ts ev = ((t'\<lparr>next_revision := next_revision t' + 1\<rparr>,
        fst (upsert st (stamp s False (i, next_revision t')))), Some (snd (upsert st (stamp s False (i, next_revision t')))))"
      using t'(3) behind(2) assms(2) by (simp add: ts next_partial_def case_prod_beta)
    moreover have "stream_inv n' (k + 1) (t'\<lparr>next_revision := next_revision t' + 1\<rparr>,
        fst (upsert st (stamp s False (i, next_revision t'))))"
      using t'(1,2) newer(2) [OF behind(1)] by (auto simp: stream_inv_def stamp_def)
    ultimately show ?thesis using newer(1) [OF behind(1)] by auto
  next
    case (EmitFinal s)
    then have "emit next_id ts ev = ((t'\<lparr>open_id := None, next_revision := 0\<rparr>,
        fst (upsert st (stamp s True (i, next_revision t')))), Some (snd (upsert st (stamp s True (i, next_revision t')))))"
      using t'(3) by (simp add: ts next_final_def case_prod_beta)
    moreover have "stream_inv n' (k + 1) (t'\<lparr>open_id := None, next_revision := 0\<rparr>,
        fst (upsert st (stamp s True (i, next_revision t'))))"
      using t'(1,2) newer(2) [OF behind(1)] by (auto simp: stream_inv_def)
    ultimately show ?thesis using newer(1) [OF behind(1)] by auto
  next
    case EmitAbandon
    then have "stream_inv n (k + 1) (fst (emit next_id ts ev))"
      using assms(1) by (auto simp: ts stream_inv_def abandon_def)
    with EmitAbandon show ?thesis by (auto simp: ts)
  qed
qed

lemma emissions_applied:
  assumes "stream_inv n k ts" and "k + length evs < 2 ^ 32"
  shows "Some out \<in> set (run_log (emit next_id) ts evs) \<Longrightarrow> applied out"
  using assms
proof (induction evs arbitrary: n k ts)
  case (Cons ev evs)
  then have step: "\<exists>n'. stream_inv n' (k + 1) (fst (emit next_id ts ev))"
    "\<forall>out. snd (emit next_id ts ev) = Some out \<longrightarrow> applied out"
    using emit_inv [of n k ts ev] by auto
  with Cons show ?case by fastforce
qed simp

end

lemma counting_factory_at:
  "factory_at counting_next f n = f\<lparr>cf_next := cf_next f + n\<rparr>"
  by (induction n) (simp_all add: factory_at_def counting_next_def)

interpretation counting: id_factory counting_next "\<lparr>cf_prefix = p, cf_next = k\<rparr>" for p k
  by unfold_locales (simp add: minted_def counting_factory_at counting_next_def)



section \<open>Speakers\<close>

definition ME :: string where "ME = ''me''"

record speaker_registry =
  sr_order :: "string list"
  sr_index :: "string \<rightharpoonup> nat"

definition registry_new :: speaker_registry where
  "registry_new = \<lparr>sr_order = [], sr_index = Map.empty\<rparr>"

definition label_for :: "speaker_registry \<Rightarrow> string \<Rightarrow> speaker_registry \<times> string" where
  "label_for r l =
     (let next = length (sr_order r)
      in case sr_index r l of
           Some i \<Rightarrow> (r, ''S'' @ show_nat i)
         | None \<Rightarrow> (r\<lparr>sr_order := sr_order r @ [l], sr_index := (sr_index r)(l \<mapsto> next)\<rparr>, ''S'' @ show_nat next))"

record speaker_normalizer =
  sn_source :: source
  diarization_enabled :: bool
  registry :: speaker_registry

definition normalizer_new :: "source \<Rightarrow> bool \<Rightarrow> speaker_normalizer" where
  "normalizer_new src diar = \<lparr>sn_source = src, diarization_enabled = diar, registry = registry_new\<rparr>"

definition is_forced_me :: "speaker_normalizer \<Rightarrow> bool" where
  "is_forced_me n \<longleftrightarrow> sn_source n = Mic \<and> \<not> diarization_enabled n"

definition normalize_speaker :: "speaker_normalizer \<Rightarrow> string option \<Rightarrow> speaker_normalizer \<times> string option" where
  "normalize_speaker n lbl =
     (if is_forced_me n then (n, Some ME)
      else case lbl of
             None \<Rightarrow> (n, None)
           | Some l \<Rightarrow> (case label_for (registry n) l of (r, s) \<Rightarrow> (n\<lparr>registry := r\<rparr>, Some s)))"

definition normalize_index :: "speaker_normalizer \<Rightarrow> nat option \<Rightarrow> speaker_normalizer \<times> string option" where
  "normalize_index n idx =
     (if is_forced_me n then (n, Some ME)
      else case idx of
             None \<Rightarrow> (n, None)
           | Some k \<Rightarrow> (case label_for (registry n) (show_nat k) of
                         (r, s) \<Rightarrow> (n\<lparr>registry := r\<rparr>, Some s)))"

text \<open>The position of an element in a list, its length when absent.\<close>

definition position :: "'a list \<Rightarrow> 'a \<Rightarrow> nat" where
  "position xs x = length (takeWhile (\<lambda>y. y \<noteq> x) xs)"

lemma position_append: "x \<in> set xs \<Longrightarrow> position (xs @ ys) x = position xs x"
  by (auto simp: position_def takeWhile_append)

lemma position_new: "x \<notin> set xs \<Longrightarrow> position (xs @ x # ys) x = length xs"
  unfolding position_def by (subst takeWhile_append2) auto

lemma position_inject:
  assumes "x \<in> set xs" and "y \<in> set xs"
  shows "position xs x = position xs y \<longleftrightarrow> x = y"
proof -
  have "xs ! position xs z = z" if "z \<in> set xs" for z
    using that by (induction xs) (auto simp: position_def)
  with assms show ?thesis by metis
qed

lemma first_seen_extends: "\<exists>new. first_seen acc xs = acc @ new"
  by (induction xs arbitrary: acc) (auto, metis append.assoc)

definition registry_inv :: "speaker_registry \<Rightarrow> bool" where
  "registry_inv r \<longleftrightarrow> distinct (sr_order r) \<and>
     sr_index r = (\<lambda>l. if l \<in> set (sr_order r) then Some (position (sr_order r) l) else None)"

lemma label_for_inv:
  assumes "registry_inv r"
  shows "registry_inv (fst (label_for r l))"
    and "sr_order (fst (label_for r l)) = first_seen (sr_order r) [l]"
    and "snd (label_for r l) = ''S'' @ show_nat (position (first_seen (sr_order r) [l]) l)"
  using assms
  by (auto simp: registry_inv_def label_for_def Let_def position_append position_new fun_eq_iff)

lemma normalize_run:
  assumes "registry_inv (registry n)" and "\<not> is_forced_me n"
  shows "run_log normalize_speaker n lbls =
    map (map_option (\<lambda>l. ''S'' @ show_nat (position (first_seen (sr_order (registry n)) (List.map_filter id lbls)) l))) lbls"
  using assms
proof (induction lbls arbitrary: n)
  case (Cons lbl lbls)
  show ?case
  proof (cases lbl)
    case None
    with Cons show ?thesis by (simp add: normalize_speaker_def map_filter_simps)
  next
    case (Some l)
    define r where "r = fst (label_for (registry n) l)"
    note label = label_for_inv [OF Cons.prems(1), of l, folded r_def]
    have step: "normalize_speaker n lbl = (n\<lparr>registry := r\<rparr>, Some (snd (label_for (registry n) l)))"
      using Some Cons.prems(2) by (simp add: normalize_speaker_def r_def case_prod_beta)
    have "position (first_seen (sr_order r) rest) l = position (sr_order r) l" for rest
    proof -
      have "l \<in> set (sr_order r)" by (simp add: label(2))
      with first_seen_extends [of "sr_order r" rest] show ?thesis by (metis position_append)
    qed
    then show ?thesis
      using Cons.IH [of "n\<lparr>registry := r\<rparr>"] Cons.prems label Some step
      by (simp add: is_forced_me_def map_filter_simps)
  qed
qed simp

text \<open>
  Speaker labels are dense, stable and honest. On a stream that is not forced to the
  user's own voice, the labels a sequence of provider ids gets are exactly the numbers of
  first appearance: the same id always gets the same label, different ids different ones,
  and no speaker reported stays no speaker. On the undiarized microphone every label is the
  user's, and no numbered label can be mistaken for it.
\<close>

theorem speaker_labels_by_appearance:
  "run_log normalize_speaker (normalizer_new src diar) lbls =
     (if src = Mic \<and> \<not> diar then map (\<lambda>_. Some ME) lbls
      else map (map_option (\<lambda>l. ''S'' @ show_nat (position (first_seen [] (List.map_filter id lbls)) l))) lbls)
   \<and> (Some l \<in> set lbls \<and> Some l' \<in> set lbls \<longrightarrow>
        (''S'' @ show_nat (position (first_seen [] (List.map_filter id lbls)) l)
           = ''S'' @ show_nat (position (first_seen [] (List.map_filter id lbls)) l') \<longleftrightarrow> l = l'))
   \<and> ''S'' @ show_nat k \<noteq> ME"
proof -
  have forced: "run_log normalize_speaker n lbls = map (\<lambda>_. Some ME) lbls" if "is_forced_me n" for n
    using that by (induction lbls) (simp_all add: normalize_speaker_def)
  have "run_log normalize_speaker (normalizer_new src diar) lbls =
     (if src = Mic \<and> \<not> diar then map (\<lambda>_. Some ME) lbls
      else map (map_option (\<lambda>l. ''S'' @ show_nat (position (first_seen [] (List.map_filter id lbls)) l))) lbls)"
    using forced [of "normalizer_new src diar"] normalize_run [of "normalizer_new src diar" lbls]
    by (auto simp: normalizer_new_def is_forced_me_def registry_inv_def registry_new_def)
  moreover have "x \<in> set (List.map_filter id lbls)" if "Some x \<in> set lbls" for x
    using that by (auto simp: map_filter_def intro: rev_image_eqI)
  ultimately show ?thesis by (simp add: ME_def position_inject)
qed

lemma digit_values: "digit 0 = CHR ''0''" "digit (Suc 0) = CHR ''1''"
  by code_simp+

theorem speaker_labels_by_appearance_witness:
  "run_log normalize_speaker (normalizer_new System True) [Some ''7'', None, Some ''3'', Some ''7'']
     = [Some ''S0'', None, Some ''S1'', Some ''S0'']"
  using speaker_labels_by_appearance [of System True "[Some ''7'', None, Some ''3'', Some ''7'']" "''7''" "''3''" 0]
  by (simp add: map_filter_simps position_def show_nat.simps digit_values)

section \<open>Clocks\<close>

record session_clock =
  anchor_ms :: nat
  connection_ms :: nat

definition clock_new :: session_clock where
  "clock_new = \<lparr>anchor_ms = 0, connection_ms = 0\<rparr>"

definition opened_at :: "nat \<Rightarrow> session_clock" where
  "opened_at session_ms = \<lparr>anchor_ms = 0, connection_ms = session_ms\<rparr>"

definition anchored_at :: "nat \<Rightarrow> session_clock" where
  "anchored_at anchor = \<lparr>anchor_ms = anchor, connection_ms = 0\<rparr>"

definition reconnected_at :: "session_clock \<Rightarrow> nat \<Rightarrow> session_clock" where
  "reconnected_at c leg_ms = c\<lparr>connection_ms := leg_ms\<rparr>"

definition offset_ms :: "session_clock \<Rightarrow> nat" where
  "offset_ms c = sat_add64 (anchor_ms c) (connection_ms c)"

definition to_session_ms :: "session_clock \<Rightarrow> nat \<Rightarrow> nat" where
  "to_session_ms c provider_relative_ms = sat_add64 (offset_ms c) provider_relative_ms"

record time_span =
  span_start_ms :: nat
  span_end_ms :: nat
  span_source :: timestamp_source

definition provided :: "nat \<Rightarrow> nat \<Rightarrow> time_span" where
  "provided s e = \<lparr>span_start_ms = s, span_end_ms = max e s, span_source = Provider\<rparr>"

definition estimated :: "nat \<Rightarrow> nat \<Rightarrow> time_span" where
  "estimated s e = \<lparr>span_start_ms = s, span_end_ms = max e s, span_source = Estimated\<rparr>"

text \<open>The estimator is the end of its last span.\<close>

definition next_span :: "nat \<Rightarrow> nat \<Rightarrow> nat \<times> time_span" where
  "next_span last_end arrival =
     (let e = max arrival last_end in (e, estimated last_end e))"

definition advance_to :: "nat \<Rightarrow> nat \<Rightarrow> nat" where
  "advance_to last_end session_ms = max last_end session_ms"

datatype estimator_event = Arrived nat | Advanced nat

fun estimator_step :: "nat \<Rightarrow> estimator_event \<Rightarrow> nat \<times> time_span option" where
  "estimator_step e (Arrived t) = map_prod id Some (next_span e t)"
| "estimator_step e (Advanced t) = (advance_to e t, None)"

lemma estimator_spans:
  "Some sp \<in> set (run_log estimator_step e evs) \<Longrightarrow> e \<le> span_start_ms sp \<and> span_start_ms sp \<le> span_end_ms sp"
proof (induction evs arbitrary: e)
  case (Cons ev evs)
  then show ?case
    by (cases ev) (fastforce simp: next_span_def estimated_def advance_to_def Let_def)+
qed simp

text \<open>
  Synthesized times tile the session. Whatever the arrival times and however the
  estimator is moved forward by provider times, its spans never overlap and never run
  backwards: of any two, the earlier ends before the later begins; and a span that directly
  follows another begins exactly where that one ends.
\<close>

theorem estimated_spans_tile:
  "sorted_wrt (\<lambda>a b. span_start_ms a \<le> span_end_ms a \<and> span_end_ms a \<le> span_start_ms b)
     (List.map_filter id (run_log estimator_step e evs))
   \<and> span_start_ms (snd (next_span (fst (next_span e t)) t')) = span_end_ms (snd (next_span e t))"
proof
  show "sorted_wrt (\<lambda>a b. span_start_ms a \<le> span_end_ms a \<and> span_end_ms a \<le> span_start_ms b)
     (List.map_filter id (run_log estimator_step e evs))"
  proof (induction evs arbitrary: e)
    case (Cons ev evs)
    have "span_end_ms sp \<le> span_start_ms b" if "estimator_step e ev = (e', Some sp)"
      "Some b \<in> set (run_log estimator_step e' evs)" for e' sp b
      using that estimator_spans [OF that(2)]
      by (cases ev) (auto simp: next_span_def estimated_def Let_def)
    moreover have "span_start_ms sp \<le> span_end_ms sp" if "estimator_step e ev = (e', Some sp)" for e' sp
      using that by (cases ev) (auto simp: next_span_def estimated_def Let_def)
    ultimately show ?case
      using Cons.IH [of "fst (estimator_step e ev)"]
      by (cases "estimator_step e ev"; cases "snd (estimator_step e ev)")
        (auto simp: map_filter_simps map_filter_def)
  qed (simp add: map_filter_simps)
qed (simp add: next_span_def estimated_def Let_def)

end
