(* ===== verification/Reconnect.thy ===== *)
theory Reconnect
  imports Transcript Octets
begin

text \<open>
  What makes a dropped socket harmless: the ring of recently sent audio that is replayed into
  the new connection (\<^verbatim>\<open>crates/fotw-stt/src/replay.rs\<close>), and the comparison with the
  transcript's tail that removes the words the replay restates
  (\<^verbatim>\<open>crates/fotw-stt/src/dedupe.rs\<close>). Text is a sequence of characters; which of them are
  white space or alphanumeric and how they fold to lower case are the Unicode tables of the
  standard library, parameters of the definitions that read them.
\<close>

section \<open>The ring\<close>

record pcm_chunk =
  start_sample :: nat
  chunk_samples :: "sample list"

definition chunk_end :: "pcm_chunk \<Rightarrow> nat" where
  "chunk_end c = wrapping_add64 (start_sample c) (length (chunk_samples c))"

record pcm_ring =
  sample_rate :: nat
  window_samples :: nat
  chunks :: "pcm_chunk list"
  written_samples :: nat

definition ring_new :: "nat \<Rightarrow> nat \<Rightarrow> pcm_ring" where
  "ring_new rate window_ms =
     (let rate = max rate 1
      in \<lparr>sample_rate = rate, window_samples = sat_mul64 window_ms rate div 1000,
          chunks = [], written_samples = 0\<rparr>)"

definition samples_to_ms :: "pcm_ring \<Rightarrow> nat \<Rightarrow> nat" where
  "samples_to_ms r n = sat_mul64 n 1000 div sample_rate r"

definition ms_to_samples :: "pcm_ring \<Rightarrow> nat \<Rightarrow> nat" where
  "ms_to_samples r ms = sat_mul64 ms (sample_rate r) div 1000"

definition earliest_sample :: "pcm_ring \<Rightarrow> nat" where
  "earliest_sample r = (case chunks r of [] \<Rightarrow> written_samples r | c # _ \<Rightarrow> start_sample c)"

definition written_ms :: "pcm_ring \<Rightarrow> nat" where
  "written_ms r = samples_to_ms r (written_samples r)"

definition earliest_ms :: "pcm_ring \<Rightarrow> nat" where
  "earliest_ms r = samples_to_ms r (earliest_sample r)"

definition buffered_ms :: "pcm_ring \<Rightarrow> nat" where
  "buffered_ms r = written_ms r - earliest_ms r"

primrec evict_front :: "nat \<Rightarrow> pcm_chunk list \<Rightarrow> pcm_chunk list" where
  "evict_front cutoff [] = []"
| "evict_front cutoff (c # cs) = (if chunk_end c \<le> cutoff then evict_front cutoff cs else c # cs)"

definition evict :: "pcm_ring \<Rightarrow> pcm_ring" where
  "evict r = r\<lparr>chunks := evict_front (written_samples r - window_samples r) (chunks r)\<rparr>"

definition push :: "pcm_ring \<Rightarrow> sample list \<Rightarrow> pcm_ring \<times> nat" where
  "push r samples =
     (let r = (if samples = [] then r
               else evict (r\<lparr>chunks := chunks r @ [\<lparr>start_sample = written_samples r, chunk_samples = samples\<rparr>],
                             written_samples := wrapping_add64 (written_samples r) (length samples)\<rparr>))
      in (r, written_ms r))"

record replayed =
  rp_start_ms :: nat
  truncated_ms :: nat
  rp_samples :: "sample list"

primrec replay_loop :: "nat \<Rightarrow> pcm_chunk list \<Rightarrow> sample list" where
  "replay_loop start [] = []"
| "replay_loop start (c # cs) =
     (if chunk_end c \<le> start then [] else drop (start - start_sample c) (chunk_samples c))
       @ replay_loop start cs"

definition replay_start :: "pcm_ring \<Rightarrow> nat \<Rightarrow> nat" where
  "replay_start r session_ms = max (earliest_sample r) (min (written_samples r) (ms_to_samples r session_ms))"

definition replay_from :: "pcm_ring \<Rightarrow> nat \<Rightarrow> replayed" where
  "replay_from r session_ms =
     (let requested = ms_to_samples r session_ms; start = replay_start r session_ms
      in \<lparr>rp_start_ms = samples_to_ms r start, truncated_ms = samples_to_ms r (start - requested),
          rp_samples = replay_loop start (chunks r)\<rparr>)"

definition lost_audio :: "replayed \<Rightarrow> bool" where
  "lost_audio r \<longleftrightarrow> 0 < truncated_ms r"

definition ring_clear :: "pcm_ring \<Rightarrow> pcm_ring" where
  "ring_clear r = r\<lparr>chunks := []\<rparr>"

definition to_linear16_le :: "sample list \<Rightarrow> byte list" where
  "to_linear16_le samples = concat (map i16_to_le_bytes samples)"

section \<open>The ring holds the end of what was sent\<close>

text \<open>Chunks that follow each other from a position on, none of them empty.\<close>

fun adjacent :: "nat \<Rightarrow> pcm_chunk list \<Rightarrow> bool" where
  "adjacent s [] = True"
| "adjacent s (c # cs) = (start_sample c = s \<and> chunk_samples c \<noteq> []
     \<and> adjacent (s + length (chunk_samples c)) cs)"

definition held :: "pcm_chunk list \<Rightarrow> sample list" where
  "held cs = concat (map chunk_samples cs)"

lemma held_simps [simp]: "held [] = []" "held (c # cs) = chunk_samples c @ held cs"
  "held (cs @ cs') = held cs @ held cs'"
  by (simp_all add: held_def)

lemma adjacent_append [simp]:
  "adjacent s (cs @ cs') \<longleftrightarrow> adjacent s cs \<and> adjacent (s + length (held cs)) cs'"
  by (induction cs arbitrary: s) (auto simp: add.assoc)

lemma chunk_end_small:
  "start_sample c + length (chunk_samples c) \<le> u64_max \<Longrightarrow> chunk_end c = start_sample c + length (chunk_samples c)"
  by (simp add: chunk_end_def)

lemma replay_loop_drop:
  assumes "adjacent s cs" and "s + length (held cs) \<le> u64_max"
  shows "replay_loop start cs = drop (start - s) (held cs)"
  using assms
proof (induction cs arbitrary: s)
  case (Cons c cs)
  then have "chunk_end c = s + length (chunk_samples c)" by (simp add: chunk_end_small)
  moreover have "replay_loop start cs = drop (start - (s + length (chunk_samples c))) (held cs)"
    using Cons by simp
  ultimately show ?case
    using Cons.prems by (cases "s + length (chunk_samples c) \<le> start") (auto simp: diff_diff_eq)
qed simp

text \<open>Eviction removes whole chunks that end at or before the cutoff, and no others.\<close>

lemma evict_front_suffix:
  assumes "adjacent s cs" and "s + length (held cs) \<le> u64_max"
  obtains n where "adjacent (s + n) (evict_front cutoff cs)" "held (evict_front cutoff cs) = drop n (held cs)"
    "n \<le> length (held cs)" "n = 0 \<or> s + n \<le> cutoff"
    "\<And>c rest. evict_front cutoff cs = c # rest \<Longrightarrow> cutoff < s + n + length (chunk_samples c)"
  using assms
proof (induction cs arbitrary: s thesis)
  case Nil
  from Nil.prems(1) [of 0] show ?case by simp
next
  case (Cons c cs)
  have e: "chunk_end c = s + length (chunk_samples c)"
    using Cons.prems(2,3) by (simp add: chunk_end_small)
  show ?case
  proof (cases "chunk_end c \<le> cutoff")
    case True
    have "adjacent (s + length (chunk_samples c)) cs" "s + length (chunk_samples c) + length (held cs) \<le> u64_max"
      using Cons.prems(2,3) by simp_all
    then obtain n where n: "adjacent (s + length (chunk_samples c) + n) (evict_front cutoff cs)"
      "held (evict_front cutoff cs) = drop n (held cs)" "n \<le> length (held cs)"
      "n = 0 \<or> s + length (chunk_samples c) + n \<le> cutoff"
      "\<And>c' rest. evict_front cutoff cs = c' # rest \<Longrightarrow> cutoff < s + length (chunk_samples c) + n + length (chunk_samples c')"
      using Cons.IH by blast
    show ?thesis
      by (rule Cons.prems(1) [of "length (chunk_samples c) + n"]) (use n True e in \<open>auto simp: add.assoc\<close>)
  next
    case False
    with e Cons.prems(2) show ?thesis by (intro Cons.prems(1) [of 0]) auto
  qed
qed

definition ring_inv :: "nat \<Rightarrow> sample list \<Rightarrow> pcm_ring \<Rightarrow> bool" where
  "ring_inv biggest sent r \<longleftrightarrow>
     written_samples r = length sent \<and> (\<forall>c\<in>set (chunks r). length (chunk_samples c) \<le> biggest) \<and>
     (\<exists>n \<le> length sent. adjacent n (chunks r) \<and> held (chunks r) = drop n sent
        \<and> (n = 0 \<or> n \<le> length sent - window_samples r)
        \<and> length sent - n \<le> window_samples r + biggest)"

lemma evict_front_subset: "set (evict_front cutoff cs) \<subseteq> set cs"
  by (induction cs) auto

lemma ring_inv_push:
  assumes "ring_inv biggest sent r" and "length sent + length samples \<le> u64_max"
    and "length samples \<le> biggest"
  shows "ring_inv biggest (sent @ samples) (fst (push r samples))"
proof (cases "samples = []")
  case True
  with assms(1) show ?thesis by (simp add: push_def Let_def)
next
  case False
  obtain n where n: "n \<le> length sent" "adjacent n (chunks r)" "held (chunks r) = drop n sent"
    "n = 0 \<or> n \<le> length sent - window_samples r" and w: "written_samples r = length sent"
    using assms(1) by (auto simp: ring_inv_def)
  define cs where "cs = chunks r @ [\<lparr>start_sample = written_samples r, chunk_samples = samples\<rparr>]"
  define cutoff where "cutoff = length (sent @ samples) - window_samples r"
  have cs: "adjacent n cs" "held cs = drop n (sent @ samples)" "n + length (held cs) \<le> u64_max"
    using n w False assms(2) by (simp_all add: cs_def)
  obtain m where m: "adjacent (n + m) (evict_front cutoff cs)" "held (evict_front cutoff cs) = drop m (held cs)"
    "m \<le> length (held cs)" "m = 0 \<or> n + m \<le> cutoff"
    "\<And>c rest. evict_front cutoff cs = c # rest \<Longrightarrow> cutoff < n + m + length (chunk_samples c)"
    using evict_front_suffix [OF cs(1,3)] by blast
  have r': "fst (push r samples) = r\<lparr>chunks := evict_front cutoff cs, written_samples := length (sent @ samples)\<rparr>"
    using False w assms(2) by (simp add: push_def evict_def Let_def cs_def cutoff_def)
  have big: "\<forall>c\<in>set (evict_front cutoff cs). length (chunk_samples c) \<le> biggest"
    using evict_front_subset [of cutoff cs] assms(1,3) by (auto simp: cs_def ring_inv_def)
  have "length (sent @ samples) - (n + m) \<le> window_samples r + biggest"
  proof (cases "evict_front cutoff cs")
    case Nil
    then have "m = length (held cs)" using m(2,3) by simp
    then show ?thesis using cs(2) n(1) by simp
  next
    case (Cons c rest)
    then have "cutoff < n + m + biggest" using m(5) [OF Cons] big by auto
    then show ?thesis by (simp add: cutoff_def)
  qed
  moreover have "n + m \<le> length (sent @ samples)" "held (evict_front cutoff cs) = drop (n + m) (sent @ samples)"
    using m(2,3) n(1) unfolding cs(2) by (simp_all add: add.commute)
  moreover have "n + m = 0 \<or> n + m \<le> length (sent @ samples) - window_samples r"
    using n(4) m(4) by (auto simp: cutoff_def)
  ultimately show ?thesis
    unfolding r' ring_inv_def using m(1) big by auto
qed

lemma ring_inv_run:
  assumes "ring_inv biggest sent r" and "length sent + length (concat pushes) \<le> u64_max"
    and "\<forall>p\<in>set pushes. length p \<le> biggest"
  shows "ring_inv biggest (sent @ concat pushes) (run_state push r pushes)"
  using assms
proof (induction pushes arbitrary: sent r)
  case (Cons p ps)
  then have "ring_inv biggest (sent @ p) (fst (push r p))" by (intro ring_inv_push) auto
  then show ?case using Cons.IH [of "sent @ p" "fst (push r p)"] Cons.prems by simp
qed simp

lemma push_keeps: "sample_rate (fst (push r p)) = sample_rate r" "window_samples (fst (push r p)) = window_samples r"
  by (simp_all add: push_def evict_def Let_def)

lemma run_push_keeps [simp]:
  "sample_rate (run_state push r ps) = sample_rate r" "window_samples (run_state push r ps) = window_samples r"
  by (induction ps arbitrary: r) (simp_all add: push_keeps)

text \<open>The position of everything the ring holds after any pushes.\<close>

lemma ring_contents:
  assumes "length (concat pushes) \<le> u64_max" and "\<forall>p\<in>set pushes. length p \<le> biggest"
    and "r = run_state push (ring_new rate window_ms) pushes"
  obtains n where "n \<le> length (concat pushes)" "earliest_sample r = n"
    "held (chunks r) = drop n (concat pushes)" "n = 0 \<or> n \<le> length (concat pushes) - window_samples r"
    "length (concat pushes) - n \<le> window_samples r + biggest" "written_samples r = length (concat pushes)"
    "rp_samples (replay_from r ms) = drop (replay_start r ms) (concat pushes)"
proof -
  have "ring_inv biggest [] (ring_new rate window_ms)"
    by (simp add: ring_inv_def ring_new_def Let_def)
  then have "ring_inv biggest (concat pushes) r"
    using ring_inv_run [of biggest "[]"] assms by simp
  then obtain n where n: "n \<le> length (concat pushes)" "adjacent n (chunks r)"
    "held (chunks r) = drop n (concat pushes)" "n = 0 \<or> n \<le> length (concat pushes) - window_samples r"
    "length (concat pushes) - n \<le> window_samples r + biggest"
    and w: "written_samples r = length (concat pushes)"
    by (auto simp: ring_inv_def)
  have first: "earliest_sample r = n"
    using n w by (cases "chunks r") (auto simp: earliest_sample_def)
  have start: "n \<le> replay_start r ms" by (simp add: replay_start_def first)
  have "replay_loop (replay_start r ms) (chunks r) = drop (replay_start r ms) (concat pushes)"
    using replay_loop_drop [OF n(2), of "replay_start r ms"] n(1,3) assms(1) start by simp
  with that n first w show ?thesis by (simp add: replay_from_def Let_def)
qed

text \<open>
  C18. The ring replays exactly what was sent. Whatever buffers were pushed, a replay returns
  the audio from its start position to the write head, sample for sample; the start is the
  requested one whenever that lies inside the window, with nothing reported truncated; and the
  ring never holds more than the window and one buffer, however long the meeting.
\<close>

theorem ring_replays_exactly:
  assumes "length (concat pushes) \<le> u64_max" and "\<forall>p\<in>set pushes. length p \<le> biggest"
    and "r = run_state push (ring_new rate window_ms) pushes"
  shows "rp_samples (replay_from r ms) = drop (replay_start r ms) (concat pushes)
    \<and> (length (concat pushes) - window_samples r \<le> ms_to_samples r ms \<longrightarrow>
        ms_to_samples r ms \<le> length (concat pushes) \<longrightarrow>
        replay_start r ms = ms_to_samples r ms \<and> truncated_ms (replay_from r ms) = 0)
    \<and> length (held (chunks r)) \<le> window_samples r + biggest"
  by (rule ring_contents [OF assms, of ms])
    (auto simp: replay_from_def replay_start_def samples_to_ms_def sat_mul64_def Let_def)

theorem ring_replays_exactly_witness:
  "rp_samples (replay_from (run_state push (ring_new 1000 4) [[1, 2, 3], [4, 5, 6], [7]]) 5) = [6, 7]"
  using ring_replays_exactly [of "[[1, 2, 3], [4, 5, 6], [7]]" 3 _ 1000 4 5, OF _ _ refl]
  by (simp add: u64_max_def ring_new_def push_def evict_def Let_def wrapping_add64_def chunk_end_def
      replay_start_def ms_to_samples_def sat_mul64_def earliest_sample_def)

lemma length_le_concat: "p \<in> set ps \<Longrightarrow> length p \<le> length (concat ps)"
  by (induction ps) auto

text \<open>Rounding two parts down loses at most one against rounding their sum.\<close>

lemma div_sum_close: "(a::nat) div d + b div d \<le> (a + b) div d \<and> (a + b) div d \<le> a div d + b div d + 1"
proof (cases "d = 0")
  case False
  then have "a mod d + b mod d < 2 * d" using mod_less_divisor [of d a] mod_less_divisor [of d b] by linarith
  then have "(a mod d + b mod d) div d < 2" by (simp add: less_mult_imp_div_less)
  then show ?thesis by (simp add: div_add1_eq [of a b d])
qed simp

text \<open>
  C16. Timestamps survive a reconnect. The replay starts the new connection's clock anew, and
  the session clock is re-anchored at the position the replay reports, not at the one asked
  for. Then the audio the provider hears at some time on its new clock is the audio that was
  sent at the corresponding session position, and rebasing the provider's time gives that
  position to within one millisecond, also when part of the outage has left the ring.
\<close>

theorem reconnect_keeps_time:
  assumes "length (concat pushes) * 1000 \<le> u64_max" and "r = run_state push (ring_new rate window_ms) pushes"
    and "k < length (rp_samples (replay_from r ms))"
    and "anchor_ms c + length (concat pushes) * 1000 \<le> u64_max"
    and "heard = to_session_ms (reconnected_at c (rp_start_ms (replay_from r ms))) (samples_to_ms r k)"
    and "sent = anchor_ms c + samples_to_ms r (replay_start r ms + k)"
  shows "rp_samples (replay_from r ms) ! k = concat pushes ! (replay_start r ms + k)
    \<and> heard \<le> sent \<and> sent \<le> heard + 1"
proof -
  define s where "s = replay_start r ms"
  have samples: "rp_samples (replay_from r ms) = drop s (concat pushes)"
    unfolding s_def
  proof (rule ring_contents [OF _ _ assms(2), where biggest = "length (concat pushes)"])
    show "length (concat pushes) \<le> u64_max" using assms(1) by linarith
    show "\<forall>p\<in>set pushes. length p \<le> length (concat pushes)" using length_le_concat by blast
  qed
  with assms(3) have sk: "(s + k) * 1000 \<le> length (concat pushes) * 1000" by simp
  have ms: "samples_to_ms r n = n * 1000 div sample_rate r" if "n \<le> s + k" for n
  proof -
    have "n * 1000 \<le> u64_max" using that sk assms(1) by (meson le_trans mult_le_mono1)
    then show ?thesis by (simp add: samples_to_ms_def sat_mul64_def)
  qed
  define a b where "a = s * 1000 div sample_rate r" and "b = k * 1000 div sample_rate r"
  have close: "a + b \<le> (s + k) * 1000 div sample_rate r" "(s + k) * 1000 div sample_rate r \<le> a + b + 1"
    using div_sum_close [of "s * 1000" "sample_rate r" "k * 1000"] by (simp_all add: a_def b_def algebra_simps)
  have "(s + k) * 1000 div sample_rate r \<le> length (concat pushes) * 1000"
    using sk by (meson div_le_dividend le_trans)
  then have "anchor_ms c + a + b \<le> u64_max" using close(1) assms(4) by linarith
  then have "heard = anchor_ms c + a + b"
    unfolding assms(5)
    by (simp add: to_session_ms_def offset_ms_def reconnected_at_def sat_add64_def replay_from_def Let_def
        s_def [symmetric] ms a_def b_def)
  moreover have "sent = anchor_ms c + (s + k) * 1000 div sample_rate r"
    unfolding assms(6) s_def [symmetric] by (simp add: ms)
  moreover have "rp_samples (replay_from r ms) ! k = concat pushes ! (s + k)"
    using assms(3) unfolding samples by simp
  ultimately show ?thesis
    using close unfolding s_def [symmetric] by linarith
qed

theorem reconnect_keeps_time_witness:
  "rp_samples (replay_from (run_state push (ring_new 1000 4) [[1, 2, 3], [4, 5, 6], [7]]) 5) ! 1 = 7"
proof -
  define r where "r = run_state push (ring_new 1000 4) [[1, 2, 3], [4, 5, 6], [7]]"
  have r: "replay_start r 5 = 5" "length (rp_samples (replay_from r 5)) = 2"
    by (simp_all add: r_def u64_max_def ring_new_def push_def evict_def Let_def wrapping_add64_def chunk_end_def
      replay_start_def ms_to_samples_def sat_mul64_def earliest_sample_def replay_from_def)
  have "rp_samples (replay_from r 5) ! 1 = 7"
    using reconnect_keeps_time [of "[[1, 2, 3], [4, 5, 6], [7]]" r 1000 4 1 5 "anchored_at 250", OF _ r_def _ _ refl refl] r
    by (simp add: u64_max_def anchored_at_def)
  then show ?thesis by (simp only: r_def)
qed

section \<open>Words already said\<close>

record unicode =
  ws :: "char \<Rightarrow> bool"
  alnum :: "char \<Rightarrow> bool"
  lower :: "char \<Rightarrow> string"

text \<open>\<^verbatim>\<open>str::split_whitespace\<close>: the maximal runs of characters that are not white space.\<close>

fun split_at :: "('c \<Rightarrow> bool) \<Rightarrow> 'c list \<Rightarrow> 'c list list" where
  "split_at p [] = [[]]"
| "split_at p (c # cs) =
     (if p c then [] # split_at p cs
      else (case split_at p cs of [] \<Rightarrow> [[c]] | u # us \<Rightarrow> (c # u) # us))"

definition split_whitespace :: "unicode \<Rightarrow> string \<Rightarrow> string list" where
  "split_whitespace u text = filter (\<lambda>w. w \<noteq> []) (split_at (ws u) text)"

fun join_space :: "string list \<Rightarrow> string" where
  "join_space [] = []"
| "join_space [w] = w"
| "join_space (w # v # vs) = w @ '' '' @ join_space (v # vs)"

definition normalize_one :: "unicode \<Rightarrow> string \<Rightarrow> string option" where
  "normalize_one u unit =
     (let n = concat (map (lower u) (filter (alnum u) unit)) in if n = [] then None else Some n)"

definition normalize_tokens :: "unicode \<Rightarrow> string \<Rightarrow> string list" where
  "normalize_tokens u text = List.map_filter (normalize_one u) (split_whitespace u text)"

definition DEFAULT_TAIL_TOKENS :: nat where "DEFAULT_TAIL_TOKENS = 120"

definition MAX_OVERLAP_TOKENS :: nat where "MAX_OVERLAP_TOKENS = 64"

record transcript_tail =
  tail_tokens :: "string list"
  capacity :: nat

definition tail_new :: "nat \<Rightarrow> transcript_tail" where
  "tail_new cap = \<lparr>tail_tokens = [], capacity = max cap 1\<rparr>"

definition push_text :: "unicode \<Rightarrow> transcript_tail \<Rightarrow> string \<Rightarrow> transcript_tail" where
  "push_text u t text =
     (let ts = tail_tokens t @ normalize_tokens u text
      in t\<lparr>tail_tokens := drop (length ts - capacity t) ts\<rparr>)"

definition tail_clear :: "transcript_tail \<Rightarrow> transcript_tail" where
  "tail_clear t = t\<lparr>tail_tokens := []\<rparr>"

primrec overlap_loop :: "string list \<Rightarrow> string list \<Rightarrow> nat \<Rightarrow> nat" where
  "overlap_loop ts incoming 0 = 0"
| "overlap_loop ts incoming (Suc n) =
     (if list_all (\<lambda>(mine, theirs). mine = theirs) (zip (drop (length ts - Suc n) ts) incoming)
      then Suc n else overlap_loop ts incoming n)"

definition overlap_with :: "transcript_tail \<Rightarrow> string list \<Rightarrow> nat" where
  "overlap_with t incoming =
     overlap_loop (tail_tokens t) incoming
       (min (min (length (tail_tokens t)) (length incoming)) MAX_OVERLAP_TOKENS)"

definition overlap_with_text :: "unicode \<Rightarrow> transcript_tail \<Rightarrow> string \<Rightarrow> nat" where
  "overlap_with_text u t text = overlap_with t (normalize_tokens u text)"

fun units_loop :: "unicode \<Rightarrow> nat \<Rightarrow> string list \<Rightarrow> nat \<Rightarrow> nat \<Rightarrow> nat" where
  "units_loop u tokens [] consumed taken = taken"
| "units_loop u tokens (unit # units) consumed taken =
     (if tokens \<le> consumed then taken
      else units_loop u tokens units
             (if normalize_one u unit \<noteq> None then consumed + 1 else consumed) (taken + 1))"

definition units_covering :: "unicode \<Rightarrow> string list \<Rightarrow> nat \<Rightarrow> nat" where
  "units_covering u units tokens = units_loop u tokens units 0 0"

definition trim_text_only :: "unicode \<Rightarrow> segment \<Rightarrow> nat \<Rightarrow> segment \<times> bool" where
  "trim_text_only u s tokens =
     (let units = split_whitespace u (seg_text s); drop_count = units_covering u units tokens
      in if length units \<le> drop_count then (s\<lparr>seg_text := []\<rparr>, False)
         else (s\<lparr>seg_text := join_space (drop drop_count units)\<rparr>, True))"

definition trim_leading_tokens :: "unicode \<Rightarrow> segment \<Rightarrow> nat \<Rightarrow> segment \<times> bool" where
  "trim_leading_tokens u s tokens =
     (if tokens = 0 then (s, \<not> list_all (ws u) (seg_text s) \<or> seg_words s \<noteq> [])
      else if seg_words s = [] then trim_text_only u s tokens
      else (let drop_count = units_covering u (map word_text (seg_words s)) tokens
            in if length (seg_words s) \<le> drop_count then (s\<lparr>seg_words := [], seg_text := []\<rparr>, False)
               else (let words = drop drop_count (seg_words s)
                     in (s\<lparr>seg_words := words, seg_start_ms := word_start_ms (hd words),
                           seg_text := join_space (map word_text words)\<rparr>, True))))"

text \<open>The comparison tokens of a segment: of its words where it has them, of its text otherwise.\<close>

definition segment_tokens :: "unicode \<Rightarrow> segment \<Rightarrow> string list" where
  "segment_tokens u s =
     (if seg_words s = [] then normalize_tokens u (seg_text s)
      else List.map_filter (normalize_one u) (map word_text (seg_words s)))"

lemma zip_all_eq:
  "length xs \<le> length ys \<Longrightarrow> list_all (\<lambda>(a, b). a = b) (zip xs ys) \<longleftrightarrow> xs = take (length xs) ys"
proof (induction xs arbitrary: ys)
  case (Cons x xs)
  then show ?case by (cases ys) auto
qed simp

text \<open>A common part of the tail's end and the new text's beginning.\<close>

definition overlaps :: "string list \<Rightarrow> string list \<Rightarrow> nat \<Rightarrow> bool" where
  "overlaps ts incoming n \<longleftrightarrow> n \<le> length ts \<and> n \<le> length incoming \<and> drop (length ts - n) ts = take n incoming"

lemma overlap_loop_greatest:
  assumes "m \<le> length ts" and "m \<le> length incoming"
  shows "overlap_loop ts incoming m \<le> m \<and> overlaps ts incoming (overlap_loop ts incoming m) \<and>
    (\<forall>k. overlap_loop ts incoming m < k \<and> k \<le> m \<longrightarrow> \<not> overlaps ts incoming k)"
  using assms
proof (induction m)
  case (Suc m)
  then have "list_all (\<lambda>(a, b). a = b) (zip (drop (length ts - Suc m) ts) incoming) \<longleftrightarrow> overlaps ts incoming (Suc m)"
    by (simp add: zip_all_eq overlaps_def)
  with Suc show ?case by (auto simp: le_Suc_eq)
qed (auto simp: overlaps_def)

lemma units_loop_covers:
  assumes "consumed \<le> tokens"
  shows "\<exists>k \<le> length units. units_loop u tokens units consumed taken = taken + k \<and>
    List.map_filter (normalize_one u) (drop k units)
      = drop (tokens - consumed) (List.map_filter (normalize_one u) units)"
  using assms
proof (induction units arbitrary: consumed taken)
  case (Cons unit units)
  show ?case
  proof (cases "tokens \<le> consumed")
    case True
    with Cons.prems show ?thesis by (intro exI [of _ 0]) simp
  next
    case False
    define consumed' where "consumed' = (if normalize_one u unit \<noteq> None then consumed + 1 else consumed)"
    have "consumed' \<le> tokens" using False by (simp add: consumed'_def)
    then obtain k where k: "k \<le> length units" "units_loop u tokens units consumed' (taken + 1) = taken + 1 + k"
      "List.map_filter (normalize_one u) (drop k units)
         = drop (tokens - consumed') (List.map_filter (normalize_one u) units)"
      using Cons.IH by blast
    have "drop (tokens - consumed') (List.map_filter (normalize_one u) units)
        = drop (tokens - consumed) (List.map_filter (normalize_one u) (unit # units))"
      using False by (cases "normalize_one u unit") (auto simp: consumed'_def map_filter_simps drop_Cons')
    with k False show ?thesis
      by (intro exI [of _ "Suc k"]) (auto simp: consumed'_def)
  qed
qed (simp add: map_filter_simps)

lemma units_covering_covers:
  "\<exists>k \<le> length units. units_covering u units tokens = k \<and>
    List.map_filter (normalize_one u) (drop k units) = drop tokens (List.map_filter (normalize_one u) units)"
  using units_loop_covers [of 0 tokens units u 0] by (simp add: units_covering_def)

lemma split_at_nonempty [simp]: "split_at p cs \<noteq> []"
  by (induction cs) (auto split: list.splits)

lemma split_at_units: "x \<in> set (split_at p cs) \<Longrightarrow> c \<in> set x \<Longrightarrow> \<not> p c"
proof (induction cs arbitrary: x)
  case (Cons d cs)
  then show ?case by (cases "split_at p cs") (fastforce split: if_splits)+
qed simp

lemma split_at_clean: "\<forall>c \<in> set w. \<not> p c \<Longrightarrow> split_at p w = [w]"
  by (induction w) auto

lemma split_at_append_sep: "\<forall>c \<in> set w. \<not> p c \<Longrightarrow> p d \<Longrightarrow> split_at p (w @ d # cs) = w # split_at p cs"
  by (induction w) auto

lemma split_whitespace_join:
  assumes "ws u (CHR '' '')" and "\<forall>w \<in> set xs. w \<noteq> [] \<and> (\<forall>c \<in> set w. \<not> ws u c)"
  shows "split_whitespace u (join_space xs) = xs"
  using assms(2)
proof (induction xs rule: join_space.induct)
  case (2 w)
  then show ?case by (simp add: split_whitespace_def split_at_clean)
next
  case (3 w v vs)
  then have "split_at (ws u) (join_space (w # v # vs)) = w # split_at (ws u) (join_space (v # vs))"
    using assms(1) by (simp add: split_at_append_sep)
  with 3 show ?case by (simp add: split_whitespace_def)
qed (simp add: split_whitespace_def)

lemma split_whitespace_units:
  "\<forall>w \<in> set (split_whitespace u text). w \<noteq> [] \<and> (\<forall>c \<in> set w. \<not> ws u c)"
  by (auto simp: split_whitespace_def dest: split_at_units)

lemma split_whitespace_blank: "list_all (ws u) cs \<Longrightarrow> split_whitespace u cs = []"
  by (induction cs) (auto simp: split_whitespace_def)

lemma trim_text_only_tokens:
  assumes "ws u (CHR '' '')" and "seg_words s = []" and "trim_text_only u s tokens = (s', kept)"
  shows "segment_tokens u s' = drop tokens (segment_tokens u s) \<and> seg_words s' = []
    \<and> (\<not> kept \<longrightarrow> seg_text s' = [])"
proof -
  let ?units = "split_whitespace u (seg_text s)"
  obtain k where k: "k \<le> length ?units" "units_covering u ?units tokens = k"
    "List.map_filter (normalize_one u) (drop k ?units) = drop tokens (List.map_filter (normalize_one u) ?units)"
    using units_covering_covers by blast
  have "split_whitespace u (join_space (drop k ?units)) = drop k ?units"
    using assms(1) split_whitespace_units by (intro split_whitespace_join) (auto dest: in_set_dropD)
  moreover have "split_whitespace u [] = []"
    by (simp add: split_whitespace_def)
  ultimately show ?thesis
    using assms k
    by (auto simp: trim_text_only_def Let_def segment_tokens_def normalize_tokens_def map_filter_simps
        split: if_splits)
qed

lemma trim_words_tokens:
  assumes "seg_words s \<noteq> []" and "tokens \<noteq> 0" and "trim_leading_tokens u s tokens = (s', kept)"
  shows "drop tokens (segment_tokens u s) = (if kept then segment_tokens u s' else [])
    \<and> (kept \<longrightarrow> (\<exists>k. seg_words s' = drop k (seg_words s)) \<and> seg_words s' \<noteq> []
        \<and> seg_start_ms s' = word_start_ms (hd (seg_words s')))
    \<and> (\<not> kept \<longrightarrow> seg_text s' = [] \<and> seg_words s' = [])"
proof -
  let ?units = "map word_text (seg_words s)"
  obtain k where k: "k \<le> length ?units" "units_covering u ?units tokens = k"
    "List.map_filter (normalize_one u) (drop k ?units) = drop tokens (List.map_filter (normalize_one u) ?units)"
    using units_covering_covers by blast
  show ?thesis
    using assms k
    by (auto simp: trim_leading_tokens_def Let_def segment_tokens_def drop_map map_filter_simps
        split: if_splits)
qed

lemma trim_exact:
  assumes "ws u (CHR '' '')" and "trim_leading_tokens u s tokens = (s', kept)"
  shows "drop tokens (segment_tokens u s) = (if kept then segment_tokens u s' else [])
    \<and> (kept \<and> tokens \<noteq> 0 \<and> seg_words s' \<noteq> [] \<longrightarrow> seg_start_ms s' = word_start_ms (hd (seg_words s')))"
proof (cases "tokens = 0 \<or> seg_words s = []")
  case True
  then show ?thesis
    using assms trim_text_only_tokens [of u s tokens s' kept] split_whitespace_blank [of u "seg_text s"]
    by (auto simp: trim_leading_tokens_def segment_tokens_def normalize_tokens_def split_whitespace_def
        map_filter_simps split: if_splits)
next
  case False
  then show ?thesis using trim_words_tokens [OF _ _ assms(2)] by auto
qed

text \<open>C21. Deduplication after a reconnect removes the longest restated part and nothing else. The
  overlap is a common part of the committed tail's end and the new text's beginning, of at most 64
  tokens, and no longer one exists within that limit. Trimming a number of tokens off a segment leaves
  exactly the tokens after them: nothing further is lost. A segment reported as wholly a replay had no
  token beyond them. A trimmed segment with word timings starts at its first surviving word. The one
  fact used of the Unicode tables is that a blank is white space.\<close>

theorem dedupe_trims_exactly:
  assumes "ws u (CHR '' '')"
    and "n = overlap_with t incoming"
    and "trim_leading_tokens u s tokens = (s', kept)"
  shows "overlaps (tail_tokens t) incoming n \<and> n \<le> 64
    \<and> (\<forall>k. n < k \<and> k \<le> 64 \<longrightarrow> \<not> overlaps (tail_tokens t) incoming k)
    \<and> drop tokens (segment_tokens u s) = (if kept then segment_tokens u s' else [])
    \<and> (kept \<and> tokens \<noteq> 0 \<and> seg_words s' \<noteq> [] \<longrightarrow> seg_start_ms s' = word_start_ms (hd (seg_words s')))"
proof -
  let ?m = "min (min (length (tail_tokens t)) (length incoming)) MAX_OVERLAP_TOKENS"
  have greatest: "n \<le> ?m" "overlaps (tail_tokens t) incoming n"
    "\<forall>k. n < k \<and> k \<le> ?m \<longrightarrow> \<not> overlaps (tail_tokens t) incoming k"
    using overlap_loop_greatest [of ?m "tail_tokens t" incoming] assms(2) by (auto simp: overlap_with_def)
  have longest: "\<forall>k. n < k \<and> k \<le> 64 \<longrightarrow> \<not> overlaps (tail_tokens t) incoming k"
  proof (intro allI impI notI)
    fix k assume "n < k \<and> k \<le> 64" and o: "overlaps (tail_tokens t) incoming k"
    then have "k \<le> ?m" by (simp add: overlaps_def MAX_OVERLAP_TOKENS_def)
    with greatest(3) o \<open>n < k \<and> k \<le> 64\<close> show False by blast
  qed
  from greatest longest trim_exact [OF assms(1,3)] show ?thesis by (simp add: MAX_OVERLAP_TOKENS_def)
qed

text \<open>ASCII tables, for the concrete inputs below.\<close>

definition ascii :: unicode where
  "ascii = \<lparr>ws = (\<lambda>c. c = CHR '' ''), alnum = (\<lambda>c. c \<noteq> CHR ''-'' \<and> c \<noteq> CHR '',''), lower = (\<lambda>c. [c])\<rparr>"

theorem dedupe_trims_exactly_witness:
  "overlaps [''we'', ''ship''] [''ship'', ''it''] 1
    \<and> drop 1 (segment_tokens ascii (segment_new [] [] Mic [] []\<lparr>seg_text := ''ship, it''\<rparr>)) = [''it'']"
proof -
  let ?s = "segment_new [] [] Mic [] []\<lparr>seg_text := ''ship, it''\<rparr>"
  let ?t = "\<lparr>tail_tokens = [''we'', ''ship''], capacity = 120\<rparr>"
  have "trim_leading_tokens ascii ?s 1 = (?s\<lparr>seg_text := ''it''\<rparr>, True)"
    by (simp add: trim_leading_tokens_def trim_text_only_def segment_new_def ascii_def split_whitespace_def
        units_covering_def normalize_one_def)
  moreover have "overlap_with ?t [''ship'', ''it''] = 1"
    by (simp add: overlap_with_def MAX_OVERLAP_TOKENS_def numeral_2_eq_2)
  moreover have "segment_tokens ascii (?s\<lparr>seg_text := ''it''\<rparr>) = [''it'']"
    by (simp add: segment_tokens_def normalize_tokens_def segment_new_def ascii_def split_whitespace_def
        normalize_one_def map_filter_simps)
  ultimately show ?thesis
    using dedupe_trims_exactly [of ascii 1 ?t "[''ship'', ''it'']" ?s 1] by (simp add: ascii_def)
qed

text \<open>The comment on \<^verbatim>\<open>units_covering\<close> says that a unit of punctuation alone does not survive a trim.
  One that follows the last restated word does: the loop stops as soon as enough tokens are consumed.\<close>

lemma trim_leaves_floating_dash:
  "trim_leading_tokens ascii (segment_new [] [] Mic [] []\<lparr>seg_text := ''okay - so''\<rparr>) 1
    = (segment_new [] [] Mic [] []\<lparr>seg_text := ''- so''\<rparr>, True)"
  by (simp add: trim_leading_tokens_def trim_text_only_def segment_new_def ascii_def split_whitespace_def
      units_covering_def normalize_one_def)

section \<open>Publishing a final after a reconnect\<close>

datatype stream_event = PartialEvent segment | FinalEvent segment

record stream_driver =
  driver_tail :: transcript_tail
  dedupe_armed :: bool
  last_final_end_ms :: nat
  session_offset_ms :: nat
  emitted :: "stream_event list"

definition leg_ms :: "stream_driver \<Rightarrow> nat \<Rightarrow> nat" where
  "leg_ms d session_ms = session_ms - session_offset_ms d"

definition emit_event :: "stream_driver \<Rightarrow> stream_event \<Rightarrow> stream_driver" where
  "emit_event d e = d\<lparr>emitted := emitted d @ [e]\<rparr>"

definition commit_final :: "unicode \<Rightarrow> stream_driver \<Rightarrow> segment \<Rightarrow> stream_driver" where
  "commit_final u d s =
     emit_event (d\<lparr>driver_tail := push_text u (driver_tail d) (seg_text s)\<rparr>) (FinalEvent s)"

definition publish_segment :: "unicode \<Rightarrow> stream_driver \<Rightarrow> segment \<Rightarrow> stream_driver" where
  "publish_segment u d s =
     (if is_final s
      then commit_final u (d\<lparr>last_final_end_ms := max (last_final_end_ms d) (seg_end_ms s)\<rparr>) s
      else emit_event d (PartialEvent s))"

definition emit_segment :: "unicode \<Rightarrow> stream_driver \<Rightarrow> segment \<Rightarrow> stream_driver" where
  "emit_segment u d s =
     (if \<not> dedupe_armed d then publish_segment u d s
      else if \<not> is_final s then d
      else (let d = d\<lparr>dedupe_armed := False\<rparr>; overlap = overlap_with_text u (driver_tail d) (seg_text s)
            in if overlap = 0 then publish_segment u d s
               else (case trim_leading_tokens u s overlap of
                       (s', kept) \<Rightarrow>
                         if kept then publish_segment u d s'
                         else d\<lparr>last_final_end_ms := max (last_final_end_ms d) (seg_end_ms s)\<rparr>)))"

text \<open>A provider's words are non-empty and contain no white space, and the text is made of them.\<close>

definition well_spaced :: "unicode \<Rightarrow> segment \<Rightarrow> bool" where
  "well_spaced u s \<longleftrightarrow>
     (\<forall>w \<in> set (seg_words s). word_text w \<noteq> [] \<and> (\<forall>c \<in> set (word_text w). \<not> ws u c))
     \<and> segment_tokens u s = normalize_tokens u (seg_text s)"

lemma trim_fields:
  assumes "trim_leading_tokens u s tokens = (s', kept)"
  shows "is_final s' = is_final s \<and> seg_end_ms s' = seg_end_ms s \<and> set (seg_words s') \<subseteq> set (seg_words s)
    \<and> (seg_words s' \<noteq> [] \<and> tokens \<noteq> 0 \<longrightarrow> seg_text s' = join_space (map word_text (seg_words s')))"
  using assms
  by (auto simp: trim_leading_tokens_def trim_text_only_def Let_def dest: in_set_dropD split: if_splits)

lemma trim_text_tokens:
  assumes "ws u (CHR '' '')" and "well_spaced u s" and "tokens \<noteq> 0"
    and "trim_leading_tokens u s tokens = (s', kept)"
  shows "drop tokens (normalize_tokens u (seg_text s)) = (if kept then normalize_tokens u (seg_text s') else [])"
proof (cases "seg_words s' = []")
  case True
  then show ?thesis using trim_exact [OF assms(1,4)] assms(2) by (simp add: well_spaced_def segment_tokens_def)
next
  case False
  have "set (seg_words s') \<subseteq> set (seg_words s)"
    using trim_fields [OF assms(4)] by simp
  then have "\<forall>w \<in> set (map word_text (seg_words s')). w \<noteq> [] \<and> (\<forall>c \<in> set w. \<not> ws u c)"
    using assms(2) by (fastforce simp: well_spaced_def)
  then have "split_whitespace u (seg_text s') = map word_text (seg_words s')"
    using False assms(1,3) trim_fields [OF assms(4)] by (simp add: split_whitespace_join)
  then show ?thesis
    using False trim_exact [OF assms(1,4)] assms(2)
    by (simp add: well_spaced_def segment_tokens_def normalize_tokens_def)
qed

lemma publish_final_tail:
  "is_final s \<Longrightarrow>
    tail_tokens (driver_tail (publish_segment u d s))
      = (let ts = tail_tokens (driver_tail d) @ normalize_tokens u (seg_text s)
         in drop (length ts - capacity (driver_tail d)) ts)
    \<and> dedupe_armed (publish_segment u d s) = dedupe_armed d
    \<and> last_final_end_ms (publish_segment u d s) = max (last_final_end_ms d) (seg_end_ms s)"
  by (simp add: publish_segment_def commit_final_def emit_event_def push_text_def Let_def)



end
