(* ===== verification/Coverage.thy ===== *)
theory Coverage
  imports Replay Handoff Transcript "HOL-Library.Sublist"
begin

text \<open>
  The durable journal of what has been transcribed
  (\<^verbatim>\<open>crates/fotwd/src/failover/coverage.rs\<close>, with the capability and endpointing values of
  \<^verbatim>\<open>crates/fotw-stt/src/capabilities.rs\<close> and \<^verbatim>\<open>local.rs\<close> that it stores): one JSON
  line per provider epoch and per committed interval of audio, beside the canonical audio of
  the source. The disk is the directory of the theory Replay together with what a sync has
  made durable, so that a crash can keep any amount between the two. JSON belongs to serde:
  the codec of a record is a parameter. Strings are their UTF-8 bytes. File locks are the
  operating system's and are not modelled.
\<close>

section \<open>Values\<close>

datatype feature_availability = AvailableBoth | StreamingOnly | BatchOnly | AvailableNone

definition in_streaming :: "feature_availability \<Rightarrow> bool" where
  "in_streaming a \<longleftrightarrow> a = AvailableBoth \<or> a = StreamingOnly"

definition in_batch :: "feature_availability \<Rightarrow> bool" where
  "in_batch a \<longleftrightarrow> a = AvailableBoth \<or> a = BatchOnly"

datatype custom_vocabulary = Keyterm | Keywords | Prompt | VocabularyNone

datatype retention_control = RetentionParam | RetentionHeader | RetentionContract | RetentionNone

record stt_capabilities =
  streaming :: bool
  batch :: bool
  word_timestamps :: feature_availability
  diarization :: feature_availability
  language_detection :: bool
  custom_vocab :: custom_vocabulary
  max_file_bytes :: nat
  max_file_seconds :: nat
  native_rates :: "nat list"
  retention :: retention_control
  supports_replay_faster_than_realtime :: bool

definition can_replay_to_catch_up :: "stt_capabilities \<Rightarrow> bool" where
  "can_replay_to_catch_up c \<longleftrightarrow> streaming c \<and> supports_replay_faster_than_realtime c"

record engine_descriptor =
  ed_provider :: string
  ed_model :: string
  ed_revision :: "string option"
  ed_capabilities :: stt_capabilities

record endpoint_config =
  frame_ms :: nat
  preroll_ms :: nat
  hangover_ms :: nat
  min_speech_ms :: nat
  soft_max_ms :: nat
  hard_max_ms :: nat
  margin_db :: f32
  speech_floor_db :: f32
  floor_window_ms :: nat
  min_range_db :: f32

record local_plan =
  lp_engine :: engine_descriptor
  lp_language :: "string option"
  lp_endpoint :: endpoint_config

definition LOCAL_PROVIDER :: string where "LOCAL_PROVIDER = ''whispercpp''"

definition SPEECHD_PROVIDER :: string where "SPEECHD_PROVIDER = ''fotw-speechd''"

definition validate_engine :: "engine_descriptor \<Rightarrow> (io_error, unit) outcome" where
  "validate_engine e =
     (if ed_provider e = [] \<or> 128 < length (ed_provider e) \<or> ed_model e = [] \<or> 512 < length (ed_model e)
         \<or> is_some_and (ed_revision e) (\<lambda>r. 512 < length r)
      then Err (invalid ''invalid provider identity'') else Ok ())"

definition is_ascii_alphanumeric :: "char \<Rightarrow> bool" where
  "is_ascii_alphanumeric c \<longleftrightarrow>
     (let n = of_char c :: nat in 48 \<le> n \<and> n \<le> 57 \<or> 65 \<le> n \<and> n \<le> 90 \<or> 97 \<le> n \<and> n \<le> 122)"

definition validate_plan :: "local_plan \<Rightarrow> (io_error, unit) outcome" where
  "validate_plan p =
     outcome_bind (validate_engine (lp_engine p)) (\<lambda>_.
       let e = lp_endpoint p
       in if ed_provider (lp_engine p) \<notin> {LOCAL_PROVIDER, SPEECHD_PROVIDER}
             \<or> is_some_and (lp_language p) (\<lambda>l. l = [] \<or> 32 < length l
                  \<or> \<not> list_all (\<lambda>b. is_ascii_alphanumeric b \<or> b = CHR ''-'') l)
             \<or> \<not> (1 \<le> frame_ms e \<and> frame_ms e \<le> 1000)
             \<or> 5000 < preroll_ms e
             \<or> 30000 < hangover_ms e
             \<or> hard_max_ms e = 0
             \<or> 30000 < hard_max_ms e
             \<or> 30000 < soft_max_ms e
             \<or> hard_max_ms e < min_speech_ms e
             \<or> floor_window_ms e < frame_ms e
             \<or> 60000 < floor_window_ms e
             \<or> \<not> is_finite (margin_db e)
             \<or> \<not> float_within 0 120 (margin_db e)
             \<or> \<not> is_finite (speech_floor_db e)
             \<or> \<not> float_within (- 160) 0 (speech_floor_db e)
             \<or> \<not> is_finite (min_range_db e)
             \<or> \<not> float_within 0 120 (min_range_db e)
          then Err (invalid ''invalid saved local inference plan'') else Ok ())"

record provider_epoch =
  ep_number :: nat
  ep_from_sample :: nat
  ep_reason :: "switch_reason option"
  ep_engine :: engine_descriptor

record committed_audio =
  ca_epoch :: nat
  ca_from_sample :: nat
  ca_through_sample :: nat
  ca_segments :: "segment list"
  ca_gap :: "string option"

datatype commit_outcome = New | AlreadyCommitted

record cov_header =
  ch_schema :: nat
  ch_session_id :: string
  ch_source :: source
  ch_first_sample :: nat
  ch_initial :: engine_descriptor
  ch_fallback :: "local_plan option"

datatype entry = Opened cov_header | Switched provider_epoch | Committed committed_audio

fun replay_source_of :: "source \<Rightarrow> replay_source" where
  "replay_source_of System = ReplaySystem"
| "replay_source_of Mic = ReplayMic"

section \<open>Records as lines\<close>

definition MAX_RECORD_BYTES :: nat where "MAX_RECORD_BYTES = 1048576"

definition newline :: byte where "newline = 10"

definition encode :: "(entry \<Rightarrow> byte list) \<Rightarrow> entry \<Rightarrow> (io_error, byte list) outcome" where
  "encode enc e =
     (if MAX_RECORD_BYTES - 1 < length (enc e) then Err (invalid ''coverage record exceeds size limit'')
      else Ok (enc e @ [newline]))"

text \<open>\<^verbatim>\<open>read_until\<close>: the bytes up to and including the delimiter, or all of them.\<close>

primrec read_until :: "'a \<Rightarrow> 'a list \<Rightarrow> 'a list" where
  "read_until d [] = []"
| "read_until d (b # bs) = (if b = d then [b] else b # read_until d bs)"

definition read_line :: "byte list \<Rightarrow> (io_error, byte list) outcome" where
  "read_line bytes =
     (let line = read_until newline (take (MAX_RECORD_BYTES + 1) bytes)
      in if MAX_RECORD_BYTES < length line then Err (invalid ''coverage record exceeds size limit'')
         else Ok line)"

section \<open>The journal\<close>

record coverage_journal =
  cj_audio :: replay_reader
  cj_header :: cov_header
  cj_epoch :: provider_epoch
  cj_epochs :: "provider_epoch list"
  cj_commits :: "committed_audio list"
  cj_ids :: "string list"
  cj_committed :: nat
  cj_failed :: bool
  cj_valid_bytes :: nat

definition initial_epoch :: "cov_header \<Rightarrow> provider_epoch" where
  "initial_epoch h =
     \<lparr>ep_number = 0, ep_from_sample = ch_first_sample h, ep_reason = None, ep_engine = ch_initial h\<rparr>"

definition from_header :: "replay_reader \<Rightarrow> cov_header \<Rightarrow> coverage_journal" where
  "from_header r h =
     \<lparr>cj_audio = r, cj_header = h, cj_epoch = initial_epoch h, cj_epochs = [initial_epoch h],
      cj_commits = [], cj_ids = [], cj_committed = ch_first_sample h, cj_failed = False,
      cj_valid_bytes = 0\<rparr>"

definition validate_switch :: "coverage_journal \<Rightarrow> provider_epoch \<Rightarrow> (io_error, unit) outcome" where
  "validate_switch j e =
     outcome_bind (validate_engine (ep_engine e)) (\<lambda>_.
       if checked_add64 (ep_number (cj_epoch j)) 1 \<noteq> Some (ep_number e)
          \<or> ep_from_sample e \<noteq> cj_committed j \<or> ep_reason e = None
       then Err (invalid ''invalid provider epoch transition'') else Ok ())"

definition bad_word :: "segment \<Rightarrow> word \<Rightarrow> bool" where
  "bad_word s w \<longleftrightarrow>
     word_start_ms w < seg_start_ms s \<or> seg_end_ms s < word_end_ms w \<or> word_end_ms w < word_start_ms w
     \<or> is_some_and (word_confidence w) (\<lambda>c. \<not> is_finite c)"

definition bad_segment :: "coverage_journal \<Rightarrow> committed_audio \<Rightarrow> string list \<Rightarrow> segment \<Rightarrow> bool" where
  "bad_segment j c ids s \<longleftrightarrow>
     seg_id s = [] \<or> seg_id s \<in> set ids \<or> seg_id s \<in> set (cj_ids j) \<or> \<not> is_final s
     \<or> seg_session_id s \<noteq> ch_session_id (cj_header j)
     \<or> seg_source s \<noteq> ch_source (cj_header j)
     \<or> seg_provider s \<noteq> ed_provider (ep_engine (cj_epoch j))
     \<or> seg_model s \<noteq> ed_model (ep_engine (cj_epoch j))
     \<or> seg_start_ms s < ca_from_sample c div 16
     \<or> seg_end_ms s < seg_start_ms s
     \<or> ca_through_sample c div 16 < seg_end_ms s
     \<or> is_some_and (seg_confidence s) (\<lambda>c. \<not> is_finite c)
     \<or> list_ex (bad_word s) (seg_words s)"

primrec check_segments :: "coverage_journal \<Rightarrow> committed_audio \<Rightarrow> string list \<Rightarrow> segment list \<Rightarrow> bool" where
  "check_segments j c ids [] = True"
| "check_segments j c ids (s # ss) =
     (\<not> bad_segment j c ids s \<and> check_segments j c (seg_id s # ids) ss)"

definition validate_commit ::
  "coverage_journal \<Rightarrow> byte list \<Rightarrow> committed_audio \<Rightarrow> (io_error, unit) outcome" where
  "validate_commit j pcm c =
     (if ca_epoch c \<noteq> ep_number (cj_epoch j) \<or> ca_from_sample c \<noteq> cj_committed j
         \<or> ca_through_sample c \<le> ca_from_sample c
         \<or> is_some_and (ca_gap c) (\<lambda>reason. reason = [] \<or> 512 < length reason \<or> ca_segments c \<noteq> [])
      then Err (invalid ''coverage must extend the current epoch contiguously'')
      else outcome_bind (read_from (cj_audio j) pcm (ca_through_sample c) 1) (\<lambda>_.
        if check_segments j c [] (ca_segments c) then Ok ()
        else Err (invalid ''segment identity or interval does not match its coverage'')))"

definition accept :: "coverage_journal \<Rightarrow> committed_audio \<Rightarrow> coverage_journal" where
  "accept j c =
     j\<lparr>cj_committed := ca_through_sample c, cj_ids := cj_ids j @ map seg_id (ca_segments c),
       cj_commits := cj_commits j @ [c]\<rparr>"

definition enter_epoch :: "coverage_journal \<Rightarrow> provider_epoch \<Rightarrow> coverage_journal" where
  "enter_epoch j e = j\<lparr>cj_epochs := cj_epochs j @ [e], cj_epoch := e\<rparr>"

section \<open>The disk\<close>

record disk =
  dir :: replay_dir
  synced_pcm :: "byte list"
  synced_journal :: "byte list"

record journal_io =
  audio_sync_ok :: bool
  line_write :: write_io
  line_sync_ok :: bool

definition journal_bytes :: "disk \<Rightarrow> byte list" where
  "journal_bytes dk = (case coverage_file (dir dk) of None \<Rightarrow> [] | Some b \<Rightarrow> b)"

definition sync_audio ::
  "bool \<Rightarrow> coverage_journal \<Rightarrow> disk \<Rightarrow> nat \<Rightarrow> disk \<times> (io_error, unit) outcome" where
  "sync_audio ok j dk through =
     (let res = sync_through ok (cj_audio j) (pcm_file (dir dk)) through
      in (if is_ok res then dk\<lparr>synced_pcm := pcm_file (dir dk)\<rparr> else dk, res))"

definition append_entry ::
  "(entry \<Rightarrow> byte list) \<Rightarrow> journal_io \<Rightarrow> coverage_journal \<Rightarrow> disk \<Rightarrow> entry
     \<Rightarrow> (coverage_journal \<times> disk) \<times> (io_error, unit) outcome" where
  "append_entry enc io j dk e =
     (if cj_failed j then ((j, dk), Err (invalid ''coverage journal failed; recovery required''))
      else case encode enc e of
        Err err \<Rightarrow> ((j, dk), Err err)
      | Panic \<Rightarrow> ((j, dk), Panic)
      | Ok bytes \<Rightarrow>
          (case write_all (line_write io) (journal_bytes dk) bytes of (contents, ok) \<Rightarrow>
             let dk = dk\<lparr>dir := (dir dk)\<lparr>coverage_file := Some contents\<rparr>\<rparr>
             in if \<not> ok \<or> \<not> line_sync_ok io then ((j\<lparr>cj_failed := True\<rparr>, dk), Err Disk)
                else (let dk = dk\<lparr>synced_journal := contents\<rparr>
                      in case checked_add64 (cj_valid_bytes j) (length bytes) of
                           None \<Rightarrow> ((j, dk), Err (invalid ''journal length overflow''))
                         | Some v \<Rightarrow> ((j\<lparr>cj_valid_bytes := v\<rparr>, dk), Ok ()))))"

definition record_interval ::
  "(entry \<Rightarrow> byte list) \<Rightarrow> journal_io \<Rightarrow> coverage_journal \<Rightarrow> disk \<Rightarrow> committed_audio
     \<Rightarrow> (coverage_journal \<times> disk) \<times> (io_error, commit_outcome) outcome" where
  "record_interval enc io j dk c =
     (if cj_failed j then ((j, dk), Err (invalid ''coverage journal failed; recovery required''))
      else if ca_epoch c \<noteq> ep_number (cj_epoch j) then ((j, dk), Err (invalid ''stale provider epoch''))
      else case find (\<lambda>p. ca_from_sample p = ca_from_sample c \<and> ca_through_sample p = ca_through_sample c)
                  (cj_commits j) of
        Some prior \<Rightarrow>
          ((j, dk), if prior = c then Ok AlreadyCommitted
                    else Err (invalid ''conflicting committed interval''))
      | None \<Rightarrow>
          (case validate_commit j (pcm_file (dir dk)) c of
             Err e \<Rightarrow> ((j, dk), Err e)
           | Panic \<Rightarrow> ((j, dk), Panic)
           | Ok _ \<Rightarrow>
               (case sync_audio (audio_sync_ok io) j dk (ca_through_sample c) of
                  (dk, Ok _) \<Rightarrow>
                    (case append_entry enc io j dk (Committed c) of
                       ((j, dk), Ok _) \<Rightarrow> ((accept j c, dk), Ok New)
                     | ((j, dk), Err e) \<Rightarrow> ((j, dk), Err e)
                     | ((j, dk), Panic) \<Rightarrow> ((j, dk), Panic))
                | (dk, Err e) \<Rightarrow> ((j, dk), Err e)
                | (dk, Panic) \<Rightarrow> ((j, dk), Panic))))"

definition commit ::
  "(entry \<Rightarrow> byte list) \<Rightarrow> journal_io \<Rightarrow> coverage_journal \<Rightarrow> disk \<Rightarrow> nat \<Rightarrow> nat \<Rightarrow> nat \<Rightarrow> segment list
     \<Rightarrow> (coverage_journal \<times> disk) \<times> (io_error, commit_outcome) outcome" where
  "commit enc io j dk epoch from_sample through_sample segs =
     record_interval enc io j dk
       \<lparr>ca_epoch = epoch, ca_from_sample = from_sample, ca_through_sample = through_sample,
        ca_segments = segs, ca_gap = None\<rparr>"

definition skip ::
  "(entry \<Rightarrow> byte list) \<Rightarrow> journal_io \<Rightarrow> coverage_journal \<Rightarrow> disk \<Rightarrow> nat \<Rightarrow> nat \<Rightarrow> nat \<Rightarrow> string
     \<Rightarrow> (coverage_journal \<times> disk) \<times> (io_error, commit_outcome) outcome" where
  "skip enc io j dk epoch from_sample through_sample reason =
     record_interval enc io j dk
       \<lparr>ca_epoch = epoch, ca_from_sample = from_sample, ca_through_sample = through_sample,
        ca_segments = [], ca_gap = Some reason\<rparr>"

definition switch ::
  "(entry \<Rightarrow> byte list) \<Rightarrow> journal_io \<Rightarrow> coverage_journal \<Rightarrow> disk \<Rightarrow> engine_descriptor \<Rightarrow> switch_reason
     \<Rightarrow> (coverage_journal \<times> disk) \<times> (io_error, provider_epoch) outcome" where
  "switch enc io j dk engine reason =
     (if cj_failed j then ((j, dk), Err (invalid ''coverage journal failed; recovery required''))
      else case checked_add64 (ep_number (cj_epoch j)) 1 of
        None \<Rightarrow> ((j, dk), Err (invalid ''provider epoch overflow''))
      | Some n \<Rightarrow>
          let e = \<lparr>ep_number = n, ep_from_sample = cj_committed j, ep_reason = Some reason, ep_engine = engine\<rparr>
          in case validate_switch j e of
               Err err \<Rightarrow> ((j, dk), Err err)
             | Panic \<Rightarrow> ((j, dk), Panic)
             | Ok _ \<Rightarrow>
                 (case append_entry enc io j dk (Switched e) of
                    ((j, dk), Ok _) \<Rightarrow> ((enter_epoch j e, dk), Ok e)
                  | ((j, dk), Err err) \<Rightarrow> ((j, dk), Err err)
                  | ((j, dk), Panic) \<Rightarrow> ((j, dk), Panic)))"

section \<open>Creating and reading a journal\<close>

definition create_with_fallback ::
  "(byte list \<Rightarrow> replay_header option) \<Rightarrow> (entry \<Rightarrow> byte list) \<Rightarrow> journal_io \<Rightarrow> bool \<Rightarrow> bool \<Rightarrow> disk
     \<Rightarrow> string \<Rightarrow> source \<Rightarrow> engine_descriptor \<Rightarrow> local_plan option
     \<Rightarrow> disk \<times> (io_error, coverage_journal) outcome" where
  "create_with_fallback rdec enc io dir_sync_ok remove_ok dk session_id source initial fallback =
     (case outcome_bind (case fallback of None \<Rightarrow> Ok () | Some plan \<Rightarrow> validate_plan plan) (\<lambda>_.
           outcome_bind (validate_engine initial) (\<lambda>_.
             reader_open rdec (dir dk) session_id (replay_source_of source))) of
        Err e \<Rightarrow> (dk, Err e)
      | Panic \<Rightarrow> (dk, Panic)
      | Ok r \<Rightarrow>
          if coverage_file (dir dk) \<noteq> None then (dk, Err AlreadyExists)
          else (let h = \<lparr>ch_schema = 1, ch_session_id = session_id, ch_source = source,
                         ch_first_sample = first_sample r, ch_initial = initial, ch_fallback = fallback\<rparr>;
                    dk = dk\<lparr>dir := (dir dk)\<lparr>coverage_file := Some []\<rparr>, synced_journal := []\<rparr>
                in case append_entry enc io (from_header r h) dk (Opened h) of
                     ((j, dk), res) \<Rightarrow>
                       if is_ok res \<and> dir_sync_ok then (dk, Ok j)
                       else (if remove_ok then dk\<lparr>dir := (dir dk)\<lparr>coverage_file := None\<rparr>\<rparr> else dk,
                             case res of Err e \<Rightarrow> Err e | _ \<Rightarrow> Err Disk)))"

definition create_journal ::
  "(byte list \<Rightarrow> replay_header option) \<Rightarrow> (entry \<Rightarrow> byte list) \<Rightarrow> journal_io \<Rightarrow> bool \<Rightarrow> bool \<Rightarrow> disk
     \<Rightarrow> string \<Rightarrow> source \<Rightarrow> engine_descriptor \<Rightarrow> disk \<times> (io_error, coverage_journal) outcome" where
  "create_journal rdec enc io dir_sync_ok remove_ok dk session_id source initial =
     create_with_fallback rdec enc io dir_sync_ok remove_ok dk session_id source initial None"

definition admit :: "coverage_journal \<Rightarrow> byte list \<Rightarrow> entry \<Rightarrow> (io_error, coverage_journal) outcome" where
  "admit j pcm e =
     (case e of
        Opened _ \<Rightarrow> Err (invalid ''duplicate coverage header'')
      | Switched epoch \<Rightarrow> outcome_bind (validate_switch j epoch) (\<lambda>_. Ok (enter_epoch j epoch))
      | Committed c \<Rightarrow> outcome_bind (validate_commit j pcm c) (\<lambda>_. Ok (accept j c)))"

lemma read_until_nonempty [simp]: "read_until d bs = [] \<longleftrightarrow> bs = []"
  by (cases bs) auto

lemma read_line_nonempty: "read_line bytes = Ok line \<Longrightarrow> line \<noteq> [] \<longleftrightarrow> bytes \<noteq> []"
  by (auto simp: read_line_def Let_def split: if_splits)

text \<open>The loop over the lines after the header: the journal, the bytes of complete records, and
  whether the last line is torn.\<close>

function load_loop ::
  "(byte list \<Rightarrow> entry option) \<Rightarrow> byte list \<Rightarrow> coverage_journal \<Rightarrow> byte list \<Rightarrow> nat
     \<Rightarrow> (io_error, coverage_journal \<times> nat \<times> bool) outcome" where
  "load_loop dec pcm j bytes valid =
     (case read_line bytes of
        Err e \<Rightarrow> Err e
      | Panic \<Rightarrow> Panic
      | Ok line \<Rightarrow>
          if line = [] then Ok (j, valid, False)
          else if last line \<noteq> newline then Ok (j, valid, True)
          else (case dec line of
                  None \<Rightarrow> Err (invalid ''json'')
                | Some e \<Rightarrow>
                    (case admit j pcm e of
                       Ok j' \<Rightarrow> load_loop dec pcm j' (drop (length line) bytes) (valid + length line)
                     | Err err \<Rightarrow> Err err
                     | Panic \<Rightarrow> Panic)))"
  by pat_completeness auto
termination by (relation "measure (\<lambda>(dec, pcm, j, bytes, valid). length bytes)") (auto simp: read_line_nonempty)

declare load_loop.simps [simp del]

definition load_with_audio ::
  "(byte list \<Rightarrow> entry option) \<Rightarrow> bool \<Rightarrow> bool \<Rightarrow> replay_dir \<Rightarrow> string \<Rightarrow> source \<Rightarrow> replay_reader
     \<Rightarrow> replay_dir \<times> (io_error, coverage_journal) outcome" where
  "load_with_audio dec repair_ok repair d session_id source r =
     (if \<not> has_identity r session_id (replay_source_of source)
      then (d, Err (invalid ''candidate audio identity mismatch''))
      else case coverage_file d of
        None \<Rightarrow> (d, Err NotFound)
      | Some bytes \<Rightarrow>
          (case outcome_bind (read_line bytes) (\<lambda>first.
                  if first = [] \<or> last first \<noteq> newline then Err (invalid ''missing coverage header'')
                  else (case dec first of
                          None \<Rightarrow> Err (invalid ''json'')
                        | Some (Opened h) \<Rightarrow>
                            if ch_schema h \<noteq> 1 \<or> ch_session_id h \<noteq> session_id \<or> ch_source h \<noteq> source
                               \<or> ch_first_sample h \<noteq> first_sample r
                            then Err (invalid ''coverage identity mismatch'')
                            else outcome_bind (validate_engine (ch_initial h)) (\<lambda>_.
                                 outcome_bind (case ch_fallback h of None \<Rightarrow> Ok () | Some plan \<Rightarrow> validate_plan plan) (\<lambda>_.
                                   load_loop dec (pcm_file d) (from_header r h) (drop (length first) bytes)
                                     (length first)))
                        | Some _ \<Rightarrow> Err (invalid ''missing coverage header''))) of
             Err e \<Rightarrow> (d, Err e)
           | Panic \<Rightarrow> (d, Panic)
           | Ok (j, valid, torn) \<Rightarrow>
               if torn \<and> repair
               then (if repair_ok
                     then (d\<lparr>coverage_file := Some (take valid bytes)\<rparr>, Ok (j\<lparr>cj_valid_bytes := valid\<rparr>))
                     else (d, Err Disk))
               else (d, Ok (j\<lparr>cj_valid_bytes := valid\<rparr>))))"

definition load ::
  "(byte list \<Rightarrow> replay_header option) \<Rightarrow> (byte list \<Rightarrow> entry option) \<Rightarrow> bool \<Rightarrow> bool \<Rightarrow> replay_dir \<Rightarrow> string
     \<Rightarrow> source \<Rightarrow> replay_dir \<times> (io_error, coverage_journal) outcome" where
  "load rdec dec repair_ok repair d session_id source =
     (case reader_open rdec d session_id (replay_source_of source) of
        Err e \<Rightarrow> (d, Err e)
      | Panic \<Rightarrow> (d, Panic)
      | Ok r \<Rightarrow> load_with_audio dec repair_ok repair d session_id source r)"

definition open_journal ::
  "(byte list \<Rightarrow> replay_header option) \<Rightarrow> (byte list \<Rightarrow> entry option) \<Rightarrow> bool \<Rightarrow> replay_dir \<Rightarrow> string
     \<Rightarrow> source \<Rightarrow> replay_dir \<times> (io_error, coverage_journal) outcome" where
  "open_journal rdec dec repair_ok d session_id source = load rdec dec repair_ok True d session_id source"

record coverage_snapshot =
  cs_epochs :: "provider_epoch list"
  cs_fallback :: "local_plan option"
  cs_valid_bytes :: nat
  cs_commits :: "committed_audio list"

definition snapshot_loaded :: "bool \<Rightarrow> coverage_journal \<Rightarrow> (io_error, coverage_snapshot) outcome" where
  "snapshot_loaded sync_ok j =
     (if sync_ok
      then Ok \<lparr>cs_epochs = cj_epochs j, cs_fallback = ch_fallback (cj_header j),
               cs_valid_bytes = cj_valid_bytes j, cs_commits = cj_commits j\<rparr>
      else Err Disk)"

definition snapshot ::
  "(byte list \<Rightarrow> replay_header option) \<Rightarrow> (byte list \<Rightarrow> entry option) \<Rightarrow> bool \<Rightarrow> replay_dir \<Rightarrow> string
     \<Rightarrow> source \<Rightarrow> (io_error, coverage_snapshot) outcome" where
  "snapshot rdec dec sync_ok d session_id source =
     outcome_bind (snd (load rdec dec True False d session_id source)) (snapshot_loaded sync_ok)"

section \<open>What a journal holds\<close>

text \<open>The committed intervals follow each other, and each belongs to the epoch that was current.\<close>

primrec tiles :: "nat \<Rightarrow> committed_audio list \<Rightarrow> nat \<Rightarrow> bool" where
  "tiles a [] b \<longleftrightarrow> a = b"
| "tiles a (c # cs) b \<longleftrightarrow> ca_from_sample c = a \<and> a < ca_through_sample c \<and> tiles (ca_through_sample c) cs b"

definition segment_fits :: "cov_header \<Rightarrow> provider_epoch list \<Rightarrow> committed_audio \<Rightarrow> segment \<Rightarrow> bool" where
  "segment_fits h es c s \<longleftrightarrow>
     is_final s \<and> seg_session_id s = ch_session_id h \<and> seg_source s = ch_source h
     \<and> seg_provider s = ed_provider (ep_engine (es ! ca_epoch c))
     \<and> seg_model s = ed_model (ep_engine (es ! ca_epoch c))
     \<and> ca_from_sample c div 16 \<le> seg_start_ms s \<and> seg_start_ms s \<le> seg_end_ms s
     \<and> seg_end_ms s \<le> ca_through_sample c div 16"

definition coverage_inv :: "coverage_journal \<Rightarrow> bool" where
  "coverage_inv j \<longleftrightarrow>
     tiles (ch_first_sample (cj_header j)) (cj_commits j) (cj_committed j)
     \<and> cj_epochs j \<noteq> [] \<and> cj_epoch j = last (cj_epochs j)
     \<and> map ep_number (cj_epochs j) = [0..<length (cj_epochs j)]
     \<and> sorted (map ca_epoch (cj_commits j))
     \<and> (\<forall>c \<in> set (cj_commits j). ca_epoch c < length (cj_epochs j)
          \<and> ep_from_sample (cj_epochs j ! ca_epoch c) \<le> ca_from_sample c
          \<and> (Suc (ca_epoch c) < length (cj_epochs j)
               \<longrightarrow> ca_through_sample c \<le> ep_from_sample (cj_epochs j ! Suc (ca_epoch c)))
          \<and> (\<forall>s \<in> set (ca_segments c). segment_fits (cj_header j) (cj_epochs j) c s))
     \<and> cj_ids j = concat (map (\<lambda>c. map seg_id (ca_segments c)) (cj_commits j)) \<and> distinct (cj_ids j)
     \<and> (\<forall>e \<in> set (cj_epochs j). ep_from_sample e \<le> cj_committed j)"

lemma tiles_snoc: "tiles a cs b \<Longrightarrow> ca_from_sample c = b \<Longrightarrow> b < ca_through_sample c \<Longrightarrow> tiles a (cs @ [c]) (ca_through_sample c)"
  by (induction cs arbitrary: a) auto

lemma tiles_within: "tiles a cs b \<Longrightarrow> a \<le> b \<and> (\<forall>c \<in> set cs. ca_through_sample c \<le> b)"
  by (induction cs arbitrary: a) fastforce+

lemma bad_segment_Cons [simp]:
  "bad_segment j c (i # ids) s \<longleftrightarrow> seg_id s = i \<or> bad_segment j c ids s"
  by (auto simp: bad_segment_def)

lemma check_segments_iff:
  "check_segments j c ids ss \<longleftrightarrow>
     (\<forall>s \<in> set ss. \<not> bad_segment j c ids s) \<and> distinct (map seg_id ss)"
  by (induction ss arbitrary: ids) (auto simp: image_iff)

lemma validate_commit_ok [ok_iff]:
  "validate_commit j pcm c = Ok u \<longleftrightarrow>
     ca_epoch c = ep_number (cj_epoch j) \<and> ca_from_sample c = cj_committed j
     \<and> ca_from_sample c < ca_through_sample c
     \<and> \<not> is_some_and (ca_gap c) (\<lambda>reason. reason = [] \<or> 512 < length reason \<or> ca_segments c \<noteq> [])
     \<and> is_ok (read_from (cj_audio j) pcm (ca_through_sample c) 1)
     \<and> check_segments j c [] (ca_segments c)"
  by (cases "read_from (cj_audio j) pcm (ca_through_sample c) 1") (auto simp: validate_commit_def)

lemma validate_switch_ok [ok_iff]:
  "validate_switch j e = Ok u \<longleftrightarrow>
     validate_engine (ep_engine e) = Ok () \<and> checked_add64 (ep_number (cj_epoch j)) 1 = Some (ep_number e)
     \<and> ep_from_sample e = cj_committed j \<and> ep_reason e \<noteq> None"
  by (cases "validate_engine (ep_engine e)") (auto simp: validate_switch_def)

lemma current_epoch:
  assumes "coverage_inv j"
  shows "cj_epochs j \<noteq> []" and "cj_epoch j = cj_epochs j ! (length (cj_epochs j) - 1)"
    and "ep_number (cj_epoch j) = length (cj_epochs j) - 1"
proof -
  show ne: "cj_epochs j \<noteq> []" and cur: "cj_epoch j = cj_epochs j ! (length (cj_epochs j) - 1)"
    using assms by (auto simp: coverage_inv_def last_conv_nth)
  have "map ep_number (cj_epochs j) ! (length (cj_epochs j) - 1) = length (cj_epochs j) - 1"
    using assms ne by (simp add: coverage_inv_def)
  with ne cur show "ep_number (cj_epoch j) = length (cj_epochs j) - 1" by simp
qed

lemma accept_inv:
  assumes "coverage_inv j" and "validate_commit j pcm c = Ok ()"
  shows "coverage_inv (accept j c)"
proof -
  define n where "n = length (cj_epochs j) - 1"
  have n: "ca_epoch c = n" "n < length (cj_epochs j)" "cj_epoch j = cj_epochs j ! n" "Suc n = length (cj_epochs j)"
    using assms current_epoch [OF assms(1)] by (auto simp: validate_commit_ok n_def)
  have fits: "\<forall>s \<in> set (ca_segments c). segment_fits (cj_header j) (cj_epochs j) c s"
    using assms(2) n
    by (auto simp: validate_commit_ok check_segments_iff bad_segment_def segment_fits_def not_less)
  have "\<forall>s \<in> set (ca_segments c). seg_id s \<notin> set (cj_ids j)" "distinct (map seg_id (ca_segments c))"
    using assms(2) by (simp_all add: validate_commit_ok check_segments_iff bad_segment_def)
  moreover have "distinct (cj_ids j)" using assms(1) unfolding coverage_inv_def by blast
  ultimately have ids: "distinct (cj_ids j @ map seg_id (ca_segments c))" by auto
  have srt: "sorted (map ca_epoch (cj_commits j @ [c]))"
    using assms(1) n by (fastforce simp: coverage_inv_def sorted_append)
  have step: "cj_committed j < ca_through_sample c" "ca_from_sample c = cj_committed j"
    using assms(2) by (auto simp: validate_commit_ok)
  have "ep_from_sample (cj_epochs j ! n) \<le> cj_committed j"
    using assms(1) n by (auto simp: coverage_inv_def)
  then show ?thesis
    using assms(1) n fits ids srt step
    by (auto simp: coverage_inv_def accept_def tiles_snoc)
qed

lemma enter_epoch_inv:
  assumes "coverage_inv j" and "validate_switch j e = Ok ()"
  shows "coverage_inv (enter_epoch j e)"
proof -
  let ?n = "length (cj_epochs j)"
  have e: "ep_number e = ?n" "ep_from_sample e = cj_committed j"
    using assms(2) current_epoch [OF assms(1)]
    by (auto simp: validate_switch_ok checked_add64_Some_iff)
  have old: "(cj_epochs j @ [e]) ! ca_epoch c = cj_epochs j ! ca_epoch c" if "c \<in> set (cj_commits j)" for c
    using that assms(1) by (auto simp: coverage_inv_def nth_append)
  have fits: "segment_fits (cj_header j) (cj_epochs j @ [e]) c s"
    if "c \<in> set (cj_commits j)" "s \<in> set (ca_segments c)" for c s
    using that assms(1) old [of c] by (auto simp: coverage_inv_def segment_fits_def)
  have fence: "ca_through_sample c \<le> ep_from_sample ((cj_epochs j @ [e]) ! Suc (ca_epoch c))"
    if "c \<in> set (cj_commits j)" for c
  proof (cases "Suc (ca_epoch c) < ?n")
    case True
    with that assms(1) show ?thesis by (auto simp: coverage_inv_def nth_append)
  next
    case False
    with that assms(1) have "Suc (ca_epoch c) = ?n" by (auto simp: coverage_inv_def)
    moreover have "ca_through_sample c \<le> cj_committed j"
      using that assms(1) tiles_within by (auto simp: coverage_inv_def)
    ultimately show ?thesis by (simp add: e(2))
  qed
  from assms(1) e old fits fence show ?thesis
    by (auto simp: coverage_inv_def enter_epoch_def less_Suc_eq)
qed

lemma admit_inv: "coverage_inv j \<Longrightarrow> admit j pcm e = Ok j' \<Longrightarrow> coverage_inv j'"
  by (auto simp: admit_def outcome_bind_ok_iff split: entry.splits intro: accept_inv enter_epoch_inv)

lemma from_header_inv: "coverage_inv (from_header r h)"
  by (simp add: coverage_inv_def from_header_def initial_epoch_def)

lemma coverage_inv_cong:
  "cj_header j' = cj_header j \<Longrightarrow> cj_epoch j' = cj_epoch j \<Longrightarrow> cj_epochs j' = cj_epochs j
    \<Longrightarrow> cj_commits j' = cj_commits j \<Longrightarrow> cj_ids j' = cj_ids j \<Longrightarrow> cj_committed j' = cj_committed j
    \<Longrightarrow> coverage_inv j' \<longleftrightarrow> coverage_inv j"
  by (simp add: coverage_inv_def)

lemma load_loop_inv:
  "coverage_inv j \<Longrightarrow> load_loop dec pcm j bytes valid = Ok (j', v, torn) \<Longrightarrow> coverage_inv j'"
proof (induction dec pcm j bytes valid rule: load_loop.induct)
  case (1 dec pcm j bytes valid)
  from "1.prems" show ?case
    by (subst (asm) load_loop.simps)
      (auto split: outcome.splits if_splits option.splits intro: admit_inv "1.IH")
qed

section \<open>The journal on disk\<close>

definition entry_line :: "(entry \<Rightarrow> byte list) \<Rightarrow> entry \<Rightarrow> byte list" where
  "entry_line enc e = enc e @ [newline]"

definition entry_lines :: "(entry \<Rightarrow> byte list) \<Rightarrow> entry list \<Rightarrow> byte list" where
  "entry_lines enc es = concat (map (entry_line enc) es)"

lemma entry_lines_simps [simp]:
  "entry_lines enc [] = []"
  "entry_lines enc (e # es) = entry_line enc e @ entry_lines enc es"
  "entry_lines enc (es @ es') = entry_lines enc es @ entry_lines enc es'"
  by (simp_all add: entry_lines_def)

primrec admit_all ::
  "coverage_journal \<Rightarrow> byte list \<Rightarrow> entry list \<Rightarrow> (io_error, coverage_journal) outcome" where
  "admit_all j pcm [] = Ok j"
| "admit_all j pcm (e # es) = outcome_bind (admit j pcm e) (\<lambda>j. admit_all j pcm es)"

lemma admit_all_snoc [simp]:
  "admit_all j pcm (es @ [e]) = outcome_bind (admit_all j pcm es) (\<lambda>j. admit j pcm e)"
proof (induction es arbitrary: j)
  case Nil
  then show ?case by (cases "admit j pcm e") auto
next
  case (Cons e' es)
  then show ?case by (cases "admit j pcm e'") auto
qed

text \<open>The codec is correct on the records in question: what serde writes it reads back, and a line
  of JSON contains no line break.\<close>

definition codec_ok :: "(entry \<Rightarrow> byte list) \<Rightarrow> (byte list \<Rightarrow> entry option) \<Rightarrow> entry \<Rightarrow> bool" where
  "codec_ok enc dec e \<longleftrightarrow> dec (enc e @ [newline]) = Some e \<and> newline \<notin> set (enc e)"

lemma read_until_line: "d \<notin> set xs \<Longrightarrow> read_until d (xs @ d # ys) = xs @ [d]"
  by (induction xs) auto

lemma read_until_torn: "d \<notin> set xs \<Longrightarrow> read_until d xs = xs"
  by (induction xs) auto

lemma read_line_entry:
  assumes "newline \<notin> set (enc e)" and "length (enc e) < MAX_RECORD_BYTES"
  shows "read_line (entry_line enc e @ rest) = Ok (entry_line enc e)"
proof -
  have "take (MAX_RECORD_BYTES + 1) (entry_line enc e @ rest)
      = enc e @ newline # take (MAX_RECORD_BYTES - length (enc e)) rest"
    using assms(2) by (simp add: entry_line_def Suc_diff_le)
  then show ?thesis
    using assms by (simp add: read_line_def read_until_line entry_line_def Let_def)
qed

lemma read_line_torn:
  "newline \<notin> set torn \<Longrightarrow> length torn < MAX_RECORD_BYTES \<Longrightarrow> read_line torn = Ok torn"
  by (simp add: read_line_def read_until_torn Let_def)

text \<open>Reading the lines of admissible records admits them all and stops at a torn line.\<close>

lemma load_loop_lines:
  assumes "admit_all j pcm es = Ok j'" and "\<forall>e \<in> set es. codec_ok enc dec e \<and> length (enc e) < MAX_RECORD_BYTES"
    and "newline \<notin> set torn" and "length torn < MAX_RECORD_BYTES"
  shows "load_loop dec pcm j (entry_lines enc es @ torn) v = Ok (j', v + length (entry_lines enc es), torn \<noteq> [])"
  using assms
proof (induction es arbitrary: j v)
  case Nil
  then show ?case by (subst load_loop.simps) (auto simp: read_line_torn dest: last_in_set)
next
  case (Cons e es)
  obtain j1 where j1: "admit j pcm e = Ok j1" "admit_all j1 pcm es = Ok j'"
    using Cons.prems(1) by (auto simp: outcome_bind_ok_iff)
  have "load_loop dec pcm j (entry_lines enc (e # es) @ torn) v
      = load_loop dec pcm j1 (entry_lines enc es @ torn) (v + length (entry_line enc e))"
    using Cons.prems j1
    by (subst load_loop.simps)
      (simp add: read_line_entry codec_ok_def entry_line_def [symmetric], simp add: entry_line_def)
  with Cons.IH [OF j1(2)] Cons.prems show ?case by simp
qed

text \<open>More audio in the file takes nothing away from what could be read.\<close>

lemma read_ok_more_audio:
  assumes "is_ok (read_from r pcm n 1)" and "prefix pcm pcm'" and "first_sample r + length pcm' \<le> u64_max"
  shows "is_ok (read_from r pcm' n 1)"
proof -
  have len: "length pcm \<le> length pcm'" using assms(2) by (rule prefix_length_le)
  have n: "audio_offset r \<le> length pcm" "first_sample r \<le> n"
    "n - first_sample r \<le> (length pcm - audio_offset r) div 2"
    using assms(1)
    by (auto simp: read_from_def available_end_def is_ok_iff outcome_bind_ok_iff Let_def not_less
        split: if_splits option.splits)
  have half: "(length pcm - audio_offset r) div 2 \<le> (length pcm' - audio_offset r) div 2"
    using len by (intro div_le_mono diff_le_mono)
  have "n \<le> first_sample r + (length pcm' - audio_offset r) div 2"
    using n half by linarith
  moreover have "first_sample r + (length pcm' - audio_offset r) div 2 \<le> u64_max"
    using assms(3) div_le_dividend [of "length pcm' - audio_offset r" 2] by linarith
  ultimately have "read_from r pcm' n 1 = Ok (take 1 (drop (n - first_sample r) (pcm_of_bytes (drop (audio_offset r) pcm'))))"
    using n(1,2) len assms(3)
    by (intro read_from_samples) (simp_all add: MAX_READ_SAMPLES_def SAMPLE_RATE_def)
  then show ?thesis by simp
qed

lemma from_file_more_audio:
  assumes "from_file rdec pcm session_id src = Ok r" and "prefix pcm pcm'"
  shows "from_file rdec pcm' session_id src = Ok r"
proof -
  obtain rest where pcm': "pcm' = pcm @ rest" using assms(2) by (auto elim: prefixE)
  have len: "12 \<le> length pcm" using assms(1) by (simp add: from_file_def split: if_splits)
  then have same: "take 8 pcm' = take 8 pcm" "pcm' ! 8 = pcm ! 8" "pcm' ! 9 = pcm ! 9" "pcm' ! 10 = pcm ! 10"
    "pcm' ! 11 = pcm ! 11" "drop 12 pcm' = drop 12 pcm @ rest" "length pcm' = length pcm + length rest"
    by (simp_all add: pcm' nth_append)
  define n where "n = unat (u32_from_le_bytes (pcm ! 8) (pcm ! 9) (pcm ! 10) (pcm ! 11))"
  have "12 + n \<le> length pcm"
    using assms(1) by (simp add: from_file_def n_def [symmetric] Let_def split: if_splits)
  then have "take n (drop 12 pcm') = take n (drop 12 pcm)" "\<not> length pcm' < 12 + n" "\<not> length pcm < 12 + n"
    by (simp_all add: same)
  then have "from_file rdec pcm' session_id src = from_file rdec pcm session_id src"
    using len unfolding from_file_def same(1-5) n_def [symmetric] Let_def by (simp add: same(7))
  with assms(1) show ?thesis by simp
qed

definition core :: "coverage_journal \<Rightarrow> coverage_journal" where
  "core j = j\<lparr>cj_failed := False, cj_valid_bytes := 0\<rparr>"

lemma core_simps [simp]:
  "cj_audio (core j) = cj_audio j" "cj_header (core j) = cj_header j" "cj_epoch (core j) = cj_epoch j"
  "cj_epochs (core j) = cj_epochs j" "cj_commits (core j) = cj_commits j" "cj_ids (core j) = cj_ids j"
  "cj_committed (core j) = cj_committed j" "core (j\<lparr>cj_failed := b\<rparr>) = core j"
  "core (j\<lparr>cj_valid_bytes := v\<rparr>) = core j" "core (from_header r h) = from_header r h"
  by (simp_all add: core_def from_header_def)

lemma validate_core [simp]:
  "validate_switch (core j) e = validate_switch j e"
  "validate_commit (core j) pcm c = validate_commit j pcm c"
proof -
  have "check_segments (core j) c ids ss = check_segments j c ids ss" for ids ss
    by (induction ss arbitrary: ids) (simp_all add: bad_segment_def)
  then show "validate_commit (core j) pcm c = validate_commit j pcm c"
    by (simp add: validate_commit_def)
qed (simp add: validate_switch_def)

lemma core_accept: "core (accept j c) = accept (core j) c"
  by (simp add: core_def accept_def)

lemma core_enter: "core (enter_epoch j e) = enter_epoch (core j) e"
  by (simp add: core_def enter_epoch_def)

lemma admit_more_audio:
  assumes "admit j pcm e = Ok j'" and "prefix pcm pcm'" and "first_sample (cj_audio j) + length pcm' \<le> u64_max"
  shows "admit j pcm' e = Ok j'"
  using assms read_ok_more_audio [OF _ assms(2), of "cj_audio j"]
  by (auto simp: admit_def outcome_bind_ok_iff validate_commit_ok split: entry.splits)

lemma admit_keeps: "admit j pcm e = Ok j' \<Longrightarrow> cj_audio j' = cj_audio j \<and> cj_header j' = cj_header j"
  by (auto simp: admit_def outcome_bind_ok_iff accept_def enter_epoch_def split: entry.splits)

lemma admit_all_keeps: "admit_all j pcm es = Ok j' \<Longrightarrow> cj_audio j' = cj_audio j \<and> cj_header j' = cj_header j"
  by (induction es arbitrary: j) (auto simp: outcome_bind_ok_iff dest!: admit_keeps)

lemma admit_all_more_audio:
  assumes "admit_all j pcm es = Ok j'" and "prefix pcm pcm'" and "first_sample (cj_audio j) + length pcm' \<le> u64_max"
  shows "admit_all j pcm' es = Ok j'"
  using assms
proof (induction es arbitrary: j)
  case (Cons e es)
  then obtain j1 where "admit j pcm e = Ok j1" "admit_all j1 pcm es = Ok j'"
    by (auto simp: outcome_bind_ok_iff)
  with Cons show ?case using admit_more_audio [of j pcm e j1 pcm'] admit_keeps [of j pcm e j1] by auto
qed simp

section \<open>Runs of a journal\<close>

text \<open>The owner records intervals and switches engines; the audio file grows meanwhile.\<close>

datatype journal_op =
    RecordInterval journal_io committed_audio
  | SwitchTo journal_io engine_descriptor switch_reason
  | AudioWritten "byte list"

text \<open>A step reports the record it would write, and the outcome of recording an interval.\<close>

fun journal_step ::
  "(entry \<Rightarrow> byte list) \<Rightarrow> coverage_journal \<times> disk \<Rightarrow> journal_op
     \<Rightarrow> (coverage_journal \<times> disk) \<times> entry option \<times> (io_error, commit_outcome) outcome option" where
  "journal_step enc (j, dk) (RecordInterval io c) =
     (case record_interval enc io j dk c of (s, res) \<Rightarrow> (s, Some (Committed c), Some res))"
| "journal_step enc (j, dk) (SwitchTo io engine reason) =
     (case switch enc io j dk engine reason of
        (s, _) \<Rightarrow> (s, Some (Switched \<lparr>ep_number = ep_number (cj_epoch j) + 1, ep_from_sample = cj_committed j,
                                     ep_reason = Some reason, ep_engine = engine\<rparr>), None))"
| "journal_step enc (j, dk) (AudioWritten bytes) =
     ((j, dk\<lparr>dir := (dir dk)\<lparr>pcm_file := pcm_file (dir dk) @ bytes\<rparr>\<rparr>), None, None)"

definition synced :: "disk \<Rightarrow> disk" where
  "synced dk = dk\<lparr>synced_pcm := pcm_file (dir dk)\<rparr>"

definition with_journal :: "disk \<Rightarrow> byte list \<Rightarrow> disk" where
  "with_journal dk bytes = dk\<lparr>dir := (dir dk)\<lparr>coverage_file := Some bytes\<rparr>\<rparr>"

lemma with_journal_simps [simp]:
  "journal_bytes (with_journal dk b) = b" "coverage_file (dir (with_journal dk b)) = Some b"
  "pcm_file (dir (with_journal dk b)) = pcm_file (dir dk)" "synced_pcm (with_journal dk b) = synced_pcm dk"
  "pcm_exists (dir (with_journal dk b)) = pcm_exists (dir dk)"
  "synced_journal (with_journal dk b) = synced_journal dk"
  by (simp_all add: with_journal_def journal_bytes_def)

lemma synced_simps [simp]:
  "dir (synced dk) = dir dk" "synced_pcm (synced dk) = pcm_file (dir dk)"
  "synced_journal (synced dk) = synced_journal dk" "journal_bytes (synced dk) = journal_bytes dk"
  by (simp_all add: synced_def journal_bytes_def)

text \<open>What appending a record can do.\<close>

lemma append_entry_cases:
  assumes "append_entry enc io j dk e = ((j', dk'), res)"
  obtains (refused) "j' = j" "dk' = dk" "\<not> is_ok res"
  | (torn) k where "\<not> cj_failed j" "length (enc e) < MAX_RECORD_BYTES" "j' = j\<lparr>cj_failed := True\<rparr>"
      "dk' = with_journal dk (journal_bytes dk @ take k (entry_line enc e))" "\<not> is_ok res"
  | (overflow) "u64_max < cj_valid_bytes j + length (entry_line enc e)" "j' = j" "\<not> is_ok res"
      "journal_bytes dk' = journal_bytes dk @ entry_line enc e" "pcm_file (dir dk') = pcm_file (dir dk)"
  | (written) "\<not> cj_failed j" "length (enc e) < MAX_RECORD_BYTES"
      "j' = j\<lparr>cj_valid_bytes := cj_valid_bytes j + length (entry_line enc e)\<rparr>" "is_ok res"
      "dk' = (with_journal dk (journal_bytes dk @ entry_line enc e))
         \<lparr>synced_journal := journal_bytes dk @ entry_line enc e\<rparr>"
proof (cases "cj_failed j \<or> MAX_RECORD_BYTES - 1 < length (enc e)")
  case True
  with assms show thesis by (intro refused) (auto simp: append_entry_def encode_def split: if_splits)
next
  case False
  then have ok: "\<not> cj_failed j" "encode enc e = Ok (entry_line enc e)" "length (enc e) < MAX_RECORD_BYTES"
    by (auto simp: encode_def entry_line_def MAX_RECORD_BYTES_def)
  show thesis
  proof (cases "line_write io = WriteOk \<and> line_sync_ok io")
    case True
    show thesis
    proof (cases "u64_max < cj_valid_bytes j + length (entry_line enc e)")
      case True
      with \<open>line_write io = WriteOk \<and> line_sync_ok io\<close> ok assms show thesis
        by (intro overflow) (auto simp: append_entry_def Let_def journal_bytes_def split: option.splits)
    next
      case False
      with True ok assms show thesis
        by (intro written) (auto simp: append_entry_def Let_def with_journal_def split: option.splits)
    qed
  next
    case False
    obtain k where "write_all (line_write io) (journal_bytes dk) (entry_line enc e)
        = (journal_bytes dk @ take k (entry_line enc e), line_write io = WriteOk)"
      by (cases "line_write io") (auto intro: that [of "length (entry_line enc e)"])
    with False ok assms show thesis
      by (intro torn) (auto simp: append_entry_def Let_def with_journal_def)
  qed
qed

fun apply_entry :: "coverage_journal \<Rightarrow> entry \<Rightarrow> coverage_journal" where
  "apply_entry j (Opened h) = j"
| "apply_entry j (Switched e) = enter_epoch j e"
| "apply_entry j (Committed c) = accept j c"

definition admissible :: "coverage_journal \<Rightarrow> byte list \<Rightarrow> entry \<Rightarrow> bool" where
  "admissible j pcm e \<longleftrightarrow> is_ok (admit j pcm e)"

lemma admissible_simps [simp]:
  "\<not> admissible j pcm (Opened h)"
  "admissible j pcm (Switched e) \<longleftrightarrow> validate_switch j e = Ok ()"
  "admissible j pcm (Committed c) \<longleftrightarrow> validate_commit j pcm c = Ok ()"
  "admissible (core j) pcm en \<longleftrightarrow> admissible j pcm en"
  by (auto simp: admissible_def admit_def is_ok_iff outcome_bind_ok_iff split: entry.splits)

lemma admissible_failed [simp]:
  "admissible (j\<lparr>cj_failed := b\<rparr>) pcm e \<longleftrightarrow> admissible j pcm e"
  "admissible (j\<lparr>cj_valid_bytes := v\<rparr>) pcm e \<longleftrightarrow> admissible j pcm e"
  by (metis core_simps(8) admissible_simps(4), metis core_simps(9) admissible_simps(4))

lemma admit_eq: "admit j pcm e = Ok j' \<longleftrightarrow> admissible j pcm e \<and> j' = apply_entry j e"
  by (cases e) (auto simp: admit_def outcome_bind_ok_iff admissible_def is_ok_iff)

lemma core_apply: "core (apply_entry j e) = apply_entry (core j) e"
  by (cases e) (simp_all add: core_accept core_enter)

lemma apply_entry_keeps [simp]:
  "cj_failed (apply_entry j e) = cj_failed j" "cj_valid_bytes (apply_entry j e) = cj_valid_bytes j"
  by (cases e; simp add: accept_def enter_epoch_def)+

text \<open>Every step leaves the journal alone, or appends one admissible record whose audio is durable.\<close>

lemma record_cases:
  assumes "record_interval enc io j dk c = ((j', dk'), res)"
  obtains (idle) "j' = j" "dk' = dk \<or> dk' = synced dk" "res \<noteq> Ok New"
  | (wrote) j1 r1 where "admissible j (pcm_file (dir dk)) (Committed c)"
      "append_entry enc io j (synced dk) (Committed c) = ((j1, dk'), r1)"
      "j' = (if is_ok r1 then accept j1 c else j1)" "is_ok r1 \<longleftrightarrow> res = Ok New"
      "find (\<lambda>p. ca_from_sample p = ca_from_sample c \<and> ca_through_sample p = ca_through_sample c) (cj_commits j) = None"
proof (cases "cj_failed j \<or> ca_epoch c \<noteq> ep_number (cj_epoch j)
    \<or> find (\<lambda>p. ca_from_sample p = ca_from_sample c \<and> ca_through_sample p = ca_through_sample c) (cj_commits j) \<noteq> None
    \<or> validate_commit j (pcm_file (dir dk)) c \<noteq> Ok ()
    \<or> \<not> is_ok (sync_through (audio_sync_ok io) (cj_audio j) (pcm_file (dir dk)) (ca_through_sample c))")
  case True
  with assms show thesis
    by (intro idle)
      (auto simp: record_interval_def sync_audio_def synced_def Let_def
        split: if_splits option.splits outcome.splits)
next
  case False
  obtain j1 dk1 r1 where "append_entry enc io j (synced dk) (Committed c) = ((j1, dk1), r1)"
    by (metis prod.exhaust)
  with False assms show thesis
    by (intro wrote [of j1 r1])
      (auto simp: record_interval_def sync_audio_def synced_def Let_def is_ok_iff
        split: outcome.splits)
qed

lemma switch_cases:
  assumes "switch enc io j dk engine reason = ((j', dk'), res)"
    and "e = \<lparr>ep_number = ep_number (cj_epoch j) + 1, ep_from_sample = cj_committed j,
              ep_reason = Some reason, ep_engine = engine\<rparr>"
  obtains (idle) "j' = j" "dk' = dk"
  | (wrote) j1 r1 where "admissible j pcm (Switched e)"
      "append_entry enc io j dk (Switched e) = ((j1, dk'), r1)" "j' = (if is_ok r1 then enter_epoch j1 e else j1)"
proof (cases "cj_failed j \<or> u64_max < ep_number (cj_epoch j) + 1 \<or> validate_switch j e \<noteq> Ok ()")
  case True
  with assms show thesis
    by (intro idle) (auto simp: switch_def Let_def split: if_splits option.splits outcome.splits)
next
  case False
  obtain j1 dk1 r1 where "append_entry enc io j dk (Switched e) = ((j1, dk1), r1)"
    by (metis prod.exhaust)
  with False assms show thesis
    by (intro wrote [of j1 r1]) (auto simp: switch_def Let_def split: outcome.splits option.splits)
qed

section \<open>Coverage is contiguous\<close>

lemma apply_inv: "coverage_inv j \<Longrightarrow> admissible j pcm e \<Longrightarrow> coverage_inv (apply_entry j e)"
  using admit_inv [of j pcm e] by (simp add: admit_eq)

lemma append_entry_keeps:
  assumes "append_entry enc io j dk e = ((j', dk'), res)"
  shows "core j' = core j" and "coverage_inv j' \<longleftrightarrow> coverage_inv j"
    and "admissible j' pcm en \<longleftrightarrow> admissible j pcm en"
proof -
  show core: "core j' = core j"
    using assms by (cases rule: append_entry_cases) simp_all
  then have "coverage_inv (core j') \<longleftrightarrow> coverage_inv (core j)" by simp
  then show "coverage_inv j' \<longleftrightarrow> coverage_inv j" by (simp add: coverage_inv_def)
  show "admissible j' pcm en \<longleftrightarrow> admissible j pcm en"
    using arg_cong [OF core, of "\<lambda>j. admissible j pcm en"] by simp
qed

lemma journal_step_inv: "coverage_inv (fst s) \<Longrightarrow> coverage_inv (fst (fst (journal_step enc s op)))"
proof (induction enc s op rule: journal_step.induct)
  case (1 enc j dk io c)
  obtain j' dk' res where r: "record_interval enc io j dk c = ((j', dk'), res)"
    by (metis prod.exhaust)
  from r have "coverage_inv j'"
  proof (cases rule: record_cases)
    case (wrote j1 r1)
    have "admissible j1 (pcm_file (dir dk)) (Committed c)"
      using wrote(1) append_entry_keeps(3) [OF wrote(2)] by blast
    then show ?thesis
      using append_entry_keeps(2) [OF wrote(2)] wrote(3) 1 apply_inv [of j1 "pcm_file (dir dk)" "Committed c"]
      by simp
  qed (use 1 in simp)
  with r show ?case by simp
next
  case (2 enc j dk io engine reason)
  obtain j' dk' res where s: "switch enc io j dk engine reason = ((j', dk'), res)"
    by (metis prod.exhaust)
  from s refl have "coverage_inv j'"
  proof (cases rule: switch_cases [where pcm = "[]"])
    case (wrote j1 r1)
    have "admissible j1 [] (Switched e)" if "e = \<lparr>ep_number = ep_number (cj_epoch j) + 1,
        ep_from_sample = cj_committed j, ep_reason = Some reason, ep_engine = engine\<rparr>" for e
      using wrote(1) append_entry_keeps(3) [OF wrote(2)] that by blast
    then show ?thesis
      using append_entry_keeps(2) [OF wrote(2)] wrote(3) 2 apply_inv [of j1 "[]" "Switched _"] by simp
  qed (use 2 in simp)
  with s show ?case by simp
qed simp

interpretation coverage: machine "journal_step enc" "(from_header r h, dk)" "\<lambda>s. coverage_inv (fst s)"
  for enc r h dk
  by unfold_locales (simp_all add: from_header_inv journal_step_inv)

lemma create_ok:
  assumes "create_with_fallback rdec enc io dir_ok rm_ok dk session_id src initial fallback = (dk', Ok j)"
  obtains r h where "reader_open rdec (dir dk) session_id (replay_source_of src) = Ok r"
    "h = \<lparr>ch_schema = 1, ch_session_id = session_id, ch_source = src, ch_first_sample = first_sample r,
          ch_initial = initial, ch_fallback = fallback\<rparr>"
    "validate_engine initial = Ok ()" "case fallback of None \<Rightarrow> True | Some plan \<Rightarrow> validate_plan plan = Ok ()"
    "append_entry enc io (from_header r h) ((with_journal dk [])\<lparr>synced_journal := []\<rparr>) (Opened h) = ((j, dk'), Ok ())"
  using assms
  by (auto simp: create_with_fallback_def Let_def with_journal_def outcome_bind_ok_iff
      split: outcome.splits if_splits prod.splits option.splits)

lemma coverage_inv_valid_bytes [simp]: "coverage_inv (j\<lparr>cj_valid_bytes := v\<rparr>) \<longleftrightarrow> coverage_inv j"
  by (simp add: coverage_inv_def)

lemma load_with_audio_ok:
  assumes "load_with_audio dec repair_ok repair d session_id src r = (d', Ok j)"
  obtains h bytes v torn j0 where "load_loop dec (pcm_file d) (from_header r h) bytes v = Ok (j0, cj_valid_bytes j, torn)"
    "j = j0\<lparr>cj_valid_bytes := cj_valid_bytes j\<rparr>"
proof -
  from assms show thesis
    unfolding load_with_audio_def
    by (auto simp: outcome_bind_ok_iff intro: that
        split: if_splits option.splits outcome.splits entry.splits prod.splits)
qed

lemma load_inv:
  assumes "load rdec dec repair_ok repair d session_id src = (d', Ok j)"
  shows "coverage_inv j"
proof -
  obtain r where "load_with_audio dec repair_ok repair d session_id src r = (d', Ok j)"
    using assms by (auto simp: load_def split: outcome.splits)
  then obtain h bytes v torn j0 where
    "load_loop dec (pcm_file d) (from_header r h) bytes v = Ok (j0, cj_valid_bytes j, torn)"
    "j = j0\<lparr>cj_valid_bytes := cj_valid_bytes j\<rparr>"
    by (rule load_with_audio_ok)
  then show ?thesis
    using load_loop_inv [OF from_header_inv] coverage_inv_valid_bytes by metis
qed

lemma create_inv:
  assumes "create_with_fallback rdec enc io dir_ok rm_ok dk session_id src initial fallback = (dk', Ok j)"
  shows "coverage_inv j"
  using assms by (rule create_ok) (use append_entry_keeps(2) from_header_inv in blast)

text \<open>C2. Coverage is contiguous and fenced. Whatever bytes a journal file holds, a journal that was
  created or loaded, and then recorded any intervals and switched engines any number of times with the
  disk failing at any point, has committed intervals that follow each other without a gap or an overlap
  from the first sample to the committed position. Epochs are numbered consecutively; an interval lies
  inside its epoch, before the next one begins; no segment identity is committed twice; and every
  segment is a final of this session and source, from the engine of its epoch, within its interval.\<close>

theorem coverage_contiguous:
  assumes "create_with_fallback rdec enc io dir_ok rm_ok dk0 session_id src initial fallback = (dk1, Ok j1)
      \<or> load rdec dec repair_ok repair d session_id src = (d', Ok j1)"
    and "j = fst (run_state (journal_step enc) (j1, dk1) ops)"
  shows "tiles (ch_first_sample (cj_header j)) (cj_commits j) (cj_committed j)
    \<and> map ep_number (cj_epochs j) = [0..<length (cj_epochs j)]
    \<and> distinct (concat (map (\<lambda>c. map seg_id (ca_segments c)) (cj_commits j)))
    \<and> (\<forall>c \<in> set (cj_commits j). ca_epoch c < length (cj_epochs j)
         \<and> ep_from_sample (cj_epochs j ! ca_epoch c) \<le> ca_from_sample c
         \<and> (Suc (ca_epoch c) < length (cj_epochs j)
              \<longrightarrow> ca_through_sample c \<le> ep_from_sample (cj_epochs j ! Suc (ca_epoch c)))
         \<and> (\<forall>s \<in> set (ca_segments c). segment_fits (cj_header j) (cj_epochs j) c s))"
proof -
  have "coverage_inv j1" using assms(1) by (elim disjE) (rule create_inv load_inv, assumption)+
  then have "coverage_inv j" unfolding assms(2) using coverage.inv_run [of "(j1, dk1)"] by simp
  then have "distinct (cj_ids j)"
    "cj_ids j = concat (map (\<lambda>c. map seg_id (ca_segments c)) (cj_commits j))"
    unfolding coverage_inv_def by blast+
  then have "distinct (concat (map (\<lambda>c. map seg_id (ca_segments c)) (cj_commits j)))" by metis
  with \<open>coverage_inv j\<close> show ?thesis unfolding coverage_inv_def by blast
qed

section \<open>A crash loses nothing committed\<close>

text \<open>After a crash the files hold at least what was synced and at most what was written.\<close>

definition crashed :: "disk \<Rightarrow> replay_dir \<Rightarrow> bool" where
  "crashed dk d \<longleftrightarrow>
     pcm_exists d = pcm_exists (dir dk)
     \<and> prefix (synced_pcm dk) (pcm_file d) \<and> prefix (pcm_file d) (pcm_file (dir dk))
     \<and> (\<exists>b. coverage_file d = Some b \<and> prefix (synced_journal dk) b \<and> prefix b (journal_bytes dk))"

text \<open>The file holds the admissible records the journal has accepted; the last one may be in flight.\<close>

definition in_flight :: "(entry \<Rightarrow> byte list) \<Rightarrow> entry set \<Rightarrow> coverage_journal \<Rightarrow> byte list \<Rightarrow> byte list \<Rightarrow> bool" where
  "in_flight enc es j pcm torn \<longleftrightarrow>
     (\<exists>e k. torn = take k (entry_line enc e) \<and> e \<in> es \<and> length (enc e) < MAX_RECORD_BYTES \<and> admissible j pcm e)"

definition journal_holds ::
  "(entry \<Rightarrow> byte list) \<Rightarrow> entry set \<Rightarrow> replay_reader \<Rightarrow> cov_header \<Rightarrow> entry list \<Rightarrow> coverage_journal \<times> disk \<Rightarrow> bool" where
  "journal_holds enc written r h es s \<longleftrightarrow>
     (let j = fst s; dk = snd s; contents = entry_lines enc (Opened h # es)
      in admit_all (from_header r h) (synced_pcm dk) es = Ok (core j)
         \<and> (\<forall>e \<in> set (Opened h # es). e \<in> written \<and> length (enc e) < MAX_RECORD_BYTES)
         \<and> cj_valid_bytes j = length contents
         \<and> synced_journal dk = contents
         \<and> prefix (synced_pcm dk) (pcm_file (dir dk))
         \<and> (\<exists>torn. coverage_file (dir dk) = Some (contents @ torn)
              \<and> (if cj_failed j then in_flight enc written j (synced_pcm dk) torn else torn = [])))"

text \<open>Files too long for a \<^verbatim>\<open>u64\<close> are outside what the code can address.\<close>

definition oversized :: "replay_reader \<Rightarrow> disk \<Rightarrow> bool" where
  "oversized r dk \<longleftrightarrow> u64_max < length (journal_bytes dk) \<or> u64_max < first_sample r + length (pcm_file (dir dk))"

definition recoverable ::
  "(entry \<Rightarrow> byte list) \<Rightarrow> entry set \<Rightarrow> replay_reader \<Rightarrow> cov_header \<Rightarrow> coverage_journal \<times> disk \<Rightarrow> bool" where
  "recoverable enc written r h s \<longleftrightarrow> oversized r (snd s) \<or> (\<exists>es. journal_holds enc written r h es s)"

lemma append_entry_grows:
  assumes "append_entry enc io j dk e = ((j', dk'), res)"
  shows "length (journal_bytes dk) \<le> length (journal_bytes dk')" "pcm_file (dir dk') = pcm_file (dir dk)"
  using assms by (cases rule: append_entry_cases; simp add: with_journal_def journal_bytes_def)+

lemma oversized_mono:
  "oversized r dk \<Longrightarrow> length (journal_bytes dk) \<le> length (journal_bytes dk')
    \<Longrightarrow> length (pcm_file (dir dk)) \<le> length (pcm_file (dir dk')) \<Longrightarrow> oversized r dk'"
  by (auto simp: oversized_def)

text \<open>Appending an admissible record whose audio is durable keeps the journal recoverable.\<close>

lemma append_recoverable:
  assumes "journal_holds enc written r h es (j, dk)" and "append_entry enc io j dk e = ((j1, dk1), res)"
    and "admissible j (synced_pcm dk) e" and "e \<in> written"
  shows "recoverable enc written r h (if is_ok res then apply_entry j1 e else j1, dk1)"
  using assms(2)
proof (cases rule: append_entry_cases)
  case refused
  with assms(1) show ?thesis by (auto simp: recoverable_def)
next
  case (torn k)
  then have "in_flight enc written j1 (synced_pcm dk) (take k (entry_line enc e))"
    using assms(3,4) unfolding in_flight_def by auto
  with torn have "journal_holds enc written r h es (j1, dk1)"
    using assms(1) by (auto simp: journal_holds_def Let_def journal_bytes_def)
  with torn show ?thesis by (auto simp: recoverable_def)
next
  case overflow
  with assms(1) have "u64_max < length (journal_bytes dk1)"
    by (auto simp: journal_holds_def Let_def journal_bytes_def)
  then show ?thesis by (simp add: recoverable_def oversized_def)
next
  case written
  then have "journal_holds enc written r h (es @ [e]) (apply_entry j1 e, dk1)"
    using assms by (auto simp: journal_holds_def Let_def journal_bytes_def admit_eq core_apply)
  with written show ?thesis by (auto simp: recoverable_def)
qed

lemma journal_holds_audio:
  "journal_holds enc written r h es (j, dk) \<Longrightarrow> cj_audio j = r \<and> cj_header j = h"
  by (auto simp: journal_holds_def Let_def from_header_def dest!: admit_all_keeps)

lemma synced_holds:
  assumes "journal_holds enc written r h es (j, dk)" and "\<not> oversized r dk"
  shows "journal_holds enc written r h es (j, synced dk)"
proof -
  have more: "prefix (synced_pcm dk) (pcm_file (dir dk))"
    and fits: "first_sample r + length (pcm_file (dir dk)) \<le> u64_max"
    using assms by (auto simp: journal_holds_def Let_def oversized_def)
  have "admissible j (pcm_file (dir dk)) e" if "admissible j (synced_pcm dk) e" for e
    using that admit_more_audio [OF _ more, of j e] fits journal_holds_audio [OF assms(1)]
    by (auto simp: admissible_def is_ok_iff)
  then have "in_flight enc written j (pcm_file (dir dk)) torn" if "in_flight enc written j (synced_pcm dk) torn" for torn
    using that unfolding in_flight_def by blast
  moreover have "admit_all (from_header r h) (pcm_file (dir dk)) es = Ok (core j)"
    using assms(1) admit_all_more_audio [OF _ more, of "from_header r h" es] fits
    by (simp add: journal_holds_def Let_def from_header_def)
  ultimately show ?thesis
    using assms(1) by (auto simp: journal_holds_def Let_def split: if_splits)
qed

lemma record_recoverable:
  assumes "journal_holds enc written r h es (j, dk)" and "\<not> oversized r dk" and "Committed c \<in> written"
    and "record_interval enc io j dk c = ((j', dk'), res)"
  shows "recoverable enc written r h (j', dk')"
  using assms(4)
proof (cases rule: record_cases)
  case idle
  then show ?thesis using assms(1) synced_holds [OF assms(1,2)] by (auto simp: recoverable_def)
next
  case (wrote j1 r1)
  then show ?thesis
    using append_recoverable [OF synced_holds [OF assms(1,2)] wrote(2) _ assms(3)] by (simp split: if_splits)
qed

lemma switch_recoverable:
  assumes "journal_holds enc written r h es (j, dk)"
    and "e = \<lparr>ep_number = ep_number (cj_epoch j) + 1, ep_from_sample = cj_committed j,
              ep_reason = Some reason, ep_engine = engine\<rparr>"
    and "Switched e \<in> written" and "switch enc io j dk engine reason = ((j', dk'), res)"
  shows "recoverable enc written r h (j', dk')"
  using assms(4,2)
proof (cases rule: switch_cases [where pcm = "synced_pcm dk"])
  case idle
  then show ?thesis using assms(1) by (auto simp: recoverable_def)
next
  case (wrote j1 r1)
  then show ?thesis
    using append_recoverable [OF assms(1) wrote(2) wrote(1) assms(3)] by (simp split: if_splits)
qed

lemma journal_step_grows:
  "length (journal_bytes (snd s)) \<le> length (journal_bytes (snd (fst (journal_step enc s op))))
    \<and> length (pcm_file (dir (snd s))) \<le> length (pcm_file (dir (snd (fst (journal_step enc s op)))))"
proof (induction enc s op rule: journal_step.induct)
  case (1 enc j dk io c)
  obtain j' dk' res where r: "record_interval enc io j dk c = ((j', dk'), res)"
    by (metis prod.exhaust)
  then have "length (journal_bytes dk) \<le> length (journal_bytes dk') \<and> pcm_file (dir dk') = pcm_file (dir dk)"
    by (cases rule: record_cases) (auto dest: append_entry_grows)
  with r show ?case by simp
next
  case (2 enc j dk io engine reason)
  obtain j' dk' res where s: "switch enc io j dk engine reason = ((j', dk'), res)"
    by (metis prod.exhaust)
  from s refl have "length (journal_bytes dk) \<le> length (journal_bytes dk') \<and> pcm_file (dir dk') = pcm_file (dir dk)"
    by (cases rule: switch_cases [where pcm = "[]"]) (auto dest: append_entry_grows)
  with s show ?case by simp
qed (simp add: journal_bytes_def)

lemma journal_step_recoverable:
  assumes "recoverable enc written r h s" and "set_option (fst (snd (journal_step enc s op))) \<subseteq> written"
  shows "recoverable enc written r h (fst (journal_step enc s op))"
proof (cases "oversized r (snd s)")
  case True
  with journal_step_grows [of s enc op] show ?thesis
    unfolding recoverable_def by (metis oversized_mono)
next
  case False
  obtain j dk where s: "s = (j, dk)" by fastforce
  then obtain es where holds: "journal_holds enc written r h es (j, dk)"
    using assms(1) False by (auto simp: recoverable_def)
  show ?thesis
  proof (cases op)
    case (RecordInterval io c)
    then show ?thesis
      using record_recoverable [OF holds] False s assms(2) by (auto split: prod.splits)
  next
    case (SwitchTo io engine reason)
    then show ?thesis
      using switch_recoverable [OF holds refl] s assms(2) by (auto split: prod.splits)
  next
    case (AudioWritten bytes)
    have "journal_holds enc written r h es (fst (journal_step enc s op))"
      using holds s AudioWritten by (auto simp: journal_holds_def Let_def)
    then show ?thesis by (auto simp: recoverable_def)
  qed
qed

lemma run_recoverable:
  assumes "recoverable enc written r h s"
    and "\<forall>rep \<in> set (run_log (journal_step enc) s ops). set_option (fst rep) \<subseteq> written"
  shows "recoverable enc written r h (run_state (journal_step enc) s ops)"
  using assms by (induction ops arbitrary: s) (auto simp: journal_step_recoverable)

text \<open>The audio that is durable only grows.\<close>

definition audio_durable :: "byte list \<Rightarrow> disk \<Rightarrow> bool" where
  "audio_durable base dk \<longleftrightarrow>
     prefix base (synced_pcm dk) \<and> prefix (synced_pcm dk) (pcm_file (dir dk)) \<and> pcm_exists (dir dk)"

lemma append_entry_durable:
  "append_entry enc io j dk e = ((j', dk'), res) \<Longrightarrow> audio_durable base dk' \<longleftrightarrow> audio_durable base dk"
  by (auto simp: append_entry_def audio_durable_def Let_def split: if_splits outcome.splits prod.splits option.splits)

lemma synced_durable: "audio_durable base dk \<Longrightarrow> audio_durable base (synced dk)"
  by (auto simp: audio_durable_def intro: prefix_order.trans)

lemma journal_step_durable:
  "audio_durable base (snd s) \<Longrightarrow> audio_durable base (snd (fst (journal_step enc s op)))"
proof (induction enc s op rule: journal_step.induct)
  case (1 enc j dk io c)
  obtain j' dk' res where r: "record_interval enc io j dk c = ((j', dk'), res)"
    by (metis prod.exhaust)
  then have "audio_durable base dk'"
    by (cases rule: record_cases) (use 1 synced_durable append_entry_durable in auto)
  with r show ?case by simp
next
  case (2 enc j dk io engine reason)
  obtain j' dk' res where s: "switch enc io j dk engine reason = ((j', dk'), res)"
    by (metis prod.exhaust)
  from s refl have "audio_durable base dk'"
    by (cases rule: switch_cases [where pcm = "[]"]) (use 2 append_entry_durable in auto)
  with s show ?case by simp
qed (auto simp: audio_durable_def intro: prefix_order.trans)

lemma run_durable:
  "audio_durable base (snd s) \<Longrightarrow> audio_durable base (snd (run_state (journal_step enc) s ops))"
  by (induction ops arbitrary: s) (simp_all add: journal_step_durable)

text \<open>What is left of the file is the lines of the accepted records, or of one more that was in flight.\<close>

lemma crashed_contents:
  assumes "journal_holds enc written r h es (j, dk)" and "prefix (synced_journal dk) b" and "prefix b (journal_bytes dk)"
    and "\<forall>e \<in> written. newline \<notin> set (enc e)"
  obtains es' torn where "b = entry_lines enc (Opened h # es') @ torn" "newline \<notin> set torn"
    "length torn < MAX_RECORD_BYTES"
    "es' = es \<or> cj_failed j \<and> (\<exists>e \<in> written. es' = es @ [e] \<and> admissible j (synced_pcm dk) e
       \<and> length (enc e) < MAX_RECORD_BYTES)"
proof -
  let ?contents = "entry_lines enc (Opened h # es)"
  obtain rest where rest: "journal_bytes dk = ?contents @ rest"
    "if cj_failed j then in_flight enc written j (synced_pcm dk) rest else rest = []"
    using assms(1) by (auto simp: journal_holds_def Let_def journal_bytes_def)
  obtain t where t: "b = ?contents @ t" "prefix t rest"
    using assms(1-3) rest(1) by (auto simp: journal_holds_def Let_def elim!: prefixE)
  show thesis
  proof (cases "t = []")
    case True
    with t show thesis by (intro that [of es "[]"]) (auto simp: MAX_RECORD_BYTES_def)
  next
    case False
    with t(2) have "rest \<noteq> []" by auto
    then obtain e k where e: "cj_failed j" "rest = take k (entry_line enc e)" "e \<in> written"
      "length (enc e) < MAX_RECORD_BYTES" "admissible j (synced_pcm dk) e"
      using rest(2) by (auto simp: in_flight_def split: if_splits)
    obtain m where m: "t = take m (entry_line enc e)"
      using t(2) e(2) by (metis append_eq_conv_conj prefix_def prefix_order.trans take_is_prefix)
    show thesis
    proof (cases "m \<le> length (enc e)")
      case True
      with m have "t = take m (enc e)" by (simp add: entry_line_def)
      with t(1) e assms(4) show thesis by (intro that [of es t]) (auto dest: in_set_takeD)
    next
      case False
      with m have "t = entry_line enc e" by (simp add: entry_line_def)
      with t(1) e show thesis by (intro that [of "es @ [e]" "[]"]) (auto simp: MAX_RECORD_BYTES_def)
    qed
  qed
qed

text \<open>Loading the lines of admissible records, possibly with a torn one at the end.\<close>

lemma load_lines:
  assumes "coverage_file d = Some (entry_lines enc (Opened h # es) @ torn)"
    and "newline \<notin> set torn" and "length torn < MAX_RECORD_BYTES"
    and "\<forall>e \<in> set (Opened h # es). codec_ok enc dec e \<and> length (enc e) < MAX_RECORD_BYTES"
    and "admit_all (from_header r h) (pcm_file d) es = Ok j"
    and "reader_open rdec d session_id (replay_source_of src) = Ok r"
    and "ch_schema h = 1" "ch_session_id h = session_id" "ch_source h = src" "ch_first_sample h = first_sample r"
    and "validate_engine (ch_initial h) = Ok ()"
    and "case ch_fallback h of None \<Rightarrow> True | Some plan \<Rightarrow> validate_plan plan = Ok ()"
  shows "open_journal rdec dec True d session_id src
    = (d\<lparr>coverage_file := Some (entry_lines enc (Opened h # es))\<rparr>,
       Ok (j\<lparr>cj_valid_bytes := length (entry_lines enc (Opened h # es))\<rparr>))"
proof -
  let ?first = "entry_line enc (Opened h)"
  have identity: "has_identity r session_id (replay_source_of src)"
    using assms(6) by (auto simp: reader_open_def from_file_def has_identity_def Let_def split: if_splits option.splits)
  have "read_line (?first @ entry_lines enc es @ torn) = Ok ?first"
    using assms(4) by (intro read_line_entry) (simp_all add: codec_ok_def)
  moreover have "dec ?first = Some (Opened h)" "last ?first = newline" "?first \<noteq> []"
    using assms(4) by (simp_all add: codec_ok_def entry_line_def)
  moreover note first = calculation
  have loop: "load_loop dec (pcm_file d) (from_header r h) (entry_lines enc es @ torn) (length ?first)
      = Ok (j, length ?first + length (entry_lines enc es), torn \<noteq> [])"
    using assms(4) by (intro load_loop_lines [OF assms(5) _ assms(2,3)]) simp
  have plan: "(case ch_fallback h of None \<Rightarrow> Ok () | Some plan \<Rightarrow> validate_plan plan) = Ok ()"
    using assms(12) by (auto split: option.splits)
  have "load_with_audio dec True True d session_id src r
    = (d\<lparr>coverage_file := Some (entry_lines enc (Opened h # es))\<rparr>,
       Ok (j\<lparr>cj_valid_bytes := length (entry_lines enc (Opened h # es))\<rparr>))"
    using assms(1,7-11) identity first loop plan by (simp add: load_with_audio_def)
  with assms(6) show ?thesis by (simp add: open_journal_def load_def)
qed

lemma create_recoverable:
  assumes "create_with_fallback rdec enc io dir_ok rm_ok dk session_id src initial fallback = (dk1, Ok j1)"
    and "reader_open rdec (dir dk) session_id (replay_source_of src) = Ok r"
    and "Opened (cj_header j1) \<in> written" and "prefix (synced_pcm dk) (pcm_file (dir dk))"
  shows "recoverable enc written r (cj_header j1) (j1, dk1)"
    and "ch_schema (cj_header j1) = 1" "ch_session_id (cj_header j1) = session_id" "ch_source (cj_header j1) = src"
    and "ch_first_sample (cj_header j1) = first_sample r" "validate_engine (ch_initial (cj_header j1)) = Ok ()"
    and "case ch_fallback (cj_header j1) of None \<Rightarrow> True | Some plan \<Rightarrow> validate_plan plan = Ok ()"
    and "audio_durable base dk \<Longrightarrow> audio_durable base dk1"
proof -
  obtain h where h: "h = \<lparr>ch_schema = 1, ch_session_id = session_id, ch_source = src,
      ch_first_sample = first_sample r, ch_initial = initial, ch_fallback = fallback\<rparr>"
    "validate_engine initial = Ok ()" "case fallback of None \<Rightarrow> True | Some plan \<Rightarrow> validate_plan plan = Ok ()"
    "append_entry enc io (from_header r h) ((with_journal dk [])\<lparr>synced_journal := []\<rparr>) (Opened h) = ((j1, dk1), Ok ())"
    using assms(1,2) by (auto elim: create_ok)
  have "core j1 = from_header r h" using append_entry_keeps(1) [OF h(4)] by simp
  then have hdr: "cj_header j1 = h" by (metis core_simps(2) from_header_def coverage_journal.select_convs(2))
  from h(4) show "recoverable enc written r (cj_header j1) (j1, dk1)"
  proof (cases rule: append_entry_cases)
    case written
    then have "journal_holds enc written r h [] (j1, dk1)"
      using assms(3,4) hdr by (auto simp: journal_holds_def Let_def journal_bytes_def with_journal_def from_header_def core_def)
    then show ?thesis using hdr by (auto simp: recoverable_def)
  qed simp_all
  from h(1-3) hdr show "ch_schema (cj_header j1) = 1" "ch_session_id (cj_header j1) = session_id"
    "ch_source (cj_header j1) = src" "ch_first_sample (cj_header j1) = first_sample r"
    "validate_engine (ch_initial (cj_header j1)) = Ok ()"
    "case ch_fallback (cj_header j1) of None \<Rightarrow> True | Some plan \<Rightarrow> validate_plan plan = Ok ()"
    by simp_all
  show "audio_durable base dk1" if "audio_durable base dk"
    using that append_entry_durable [OF h(4), of base] by (simp add: audio_durable_def with_journal_def)
qed

fun is_opened :: "entry \<Rightarrow> bool" where
  "is_opened (Opened h) = True"
| "is_opened _ = False"

lemma admissible_not_opened: "admissible j pcm e \<Longrightarrow> \<not> is_opened e"
  by (cases e) auto

lemma reload_state:
  "(core j)\<lparr>cj_valid_bytes := v\<rparr> = j\<lparr>cj_failed := False, cj_valid_bytes := v\<rparr>"
  "(apply_entry (core j) e)\<lparr>cj_valid_bytes := v\<rparr> = (apply_entry j e)\<lparr>cj_failed := False, cj_valid_bytes := v\<rparr>"
  "j\<lparr>cj_failed := False, cj_valid_bytes := v\<rparr> = j\<lparr>cj_failed := False\<rparr> \<longleftrightarrow> v = cj_valid_bytes j"
  by (simp add: core_def, cases e, simp_all add: core_def accept_def enter_epoch_def, cases j, auto)

lemma reopen_crashed:
  assumes "journal_holds enc written r h es (j, dk)"
    and "\<forall>e \<in> written. codec_ok enc dec e"
    and "audio_durable (synced_pcm dk) dk \<and> from_file rdec (synced_pcm dk) session_id (replay_source_of src) = Ok r"
    and "first_sample r + length (pcm_file (dir dk)) \<le> u64_max" and "crashed dk d"
    and "ch_schema h = 1" "ch_session_id h = session_id" "ch_source h = src" "ch_first_sample h = first_sample r"
    and "validate_engine (ch_initial h) = Ok ()"
    and "case ch_fallback h of None \<Rightarrow> True | Some plan \<Rightarrow> validate_plan plan = Ok ()"
  obtains d' j' b where "open_journal rdec dec True d session_id src = (d', Ok j')"
    "coverage_file d' = Some b" "length b = cj_valid_bytes j'"
    "j' = j\<lparr>cj_failed := False\<rparr> \<or> cj_failed j \<and> (\<exists>e \<in> written. \<not> is_opened e
       \<and> j' = (apply_entry j e)\<lparr>cj_failed := False, cj_valid_bytes := cj_valid_bytes j + length (entry_line enc e)\<rparr>)"
proof -
  obtain b where b: "coverage_file d = Some b" "prefix (synced_journal dk) b" "prefix b (journal_bytes dk)"
    and pcm: "pcm_exists d" "prefix (synced_pcm dk) (pcm_file d)" "prefix (pcm_file d) (pcm_file (dir dk))"
    using assms(3,5) by (auto simp: crashed_def audio_durable_def)
  have fits: "first_sample r + length (pcm_file d) \<le> u64_max"
    using assms(4) prefix_length_le [OF pcm(3)] by simp
  obtain es' torn where es': "b = entry_lines enc (Opened h # es') @ torn" "newline \<notin> set torn"
    "length torn < MAX_RECORD_BYTES"
    "es' = es \<or> cj_failed j \<and> (\<exists>e \<in> written. es' = es @ [e] \<and> admissible j (synced_pcm dk) e
       \<and> length (enc e) < MAX_RECORD_BYTES)"
    using crashed_contents [OF assms(1) b(2,3)] assms(2) by (auto simp: codec_ok_def)
  have old: "admit_all (from_header r h) (synced_pcm dk) es = Ok (core j)"
    "\<forall>e \<in> set (Opened h # es). codec_ok enc dec e \<and> length (enc e) < MAX_RECORD_BYTES"
    "cj_valid_bytes j = length (entry_lines enc (Opened h # es))"
    using assms(1,2) by (auto simp: journal_holds_def Let_def)
  obtain j0 where j0: "admit_all (from_header r h) (synced_pcm dk) es' = Ok j0"
    "es' = es \<and> j0 = core j \<or> cj_failed j \<and> (\<exists>e \<in> written. es' = es @ [e] \<and> \<not> is_opened e \<and> j0 = apply_entry (core j) e)"
    using es'(4) old(1) admissible_not_opened by (fastforce simp: admit_eq)
  have open_ok: "open_journal rdec dec True d session_id src
    = (d\<lparr>coverage_file := Some (entry_lines enc (Opened h # es'))\<rparr>,
       Ok (j0\<lparr>cj_valid_bytes := length (entry_lines enc (Opened h # es'))\<rparr>))"
  proof (rule load_lines [OF _ es'(2,3)])
    show "\<forall>e \<in> set (Opened h # es'). codec_ok enc dec e \<and> length (enc e) < MAX_RECORD_BYTES"
      using es'(4) old(2) assms(2) by auto
    show "admit_all (from_header r h) (pcm_file d) es' = Ok j0"
      using admit_all_more_audio [OF j0(1) pcm(2)] fits by (simp add: from_header_def)
    show "reader_open rdec d session_id (replay_source_of src) = Ok r"
      using from_file_more_audio [OF conjunct2 [OF assms(3)] pcm(2)] pcm(1) by (simp add: reader_open_def)
  qed (use b(1) es'(1) assms(6-11) in simp_all)
  show thesis
  proof (rule that [OF open_ok, of "entry_lines enc (Opened h # es')"])
    show "j0\<lparr>cj_valid_bytes := length (entry_lines enc (Opened h # es'))\<rparr> = j\<lparr>cj_failed := False\<rparr>
      \<or> cj_failed j \<and> (\<exists>e \<in> written. \<not> is_opened e \<and> j0\<lparr>cj_valid_bytes := length (entry_lines enc (Opened h # es'))\<rparr>
          = (apply_entry j e)\<lparr>cj_failed := False, cj_valid_bytes := cj_valid_bytes j + length (entry_line enc e)\<rparr>)"
      using j0(2) old(3) by (auto simp: reload_state add.assoc)
  qed simp_all
qed

text \<open>C1. A crash loses nothing that was committed. A journal is created beside audio whose header is
  durable, records intervals and switches engines while the audio grows, and the disk may fail at any
  write or sync. Then the machine stops, leaving of each file at least what was synced. Opening the
  journal again succeeds and gives the state the owner had. Only when a write of the journal had failed
  may it hold more, and then exactly the one record that was being written. A torn line is cut away, so
  that the file is as long as the journal believes. Used of serde: the records written are read back,
  and none contains a line break.\<close>

theorem crash_loses_nothing_committed:
  assumes "create_with_fallback rdec enc io dir_ok rm_ok dk0 session_id src initial fallback = (dk1, Ok j1)"
    and "from_file rdec (synced_pcm dk0) session_id (replay_source_of src) = Ok r"
    and "prefix (synced_pcm dk0) (pcm_file (dir dk0))" and "pcm_exists (dir dk0)"
    and "reports = run_log (journal_step enc) (j1, dk1) ops"
    and "run_state (journal_step enc) (j1, dk1) ops = (j, dk)"
    and "\<forall>e. Some e \<in> fst ` set reports \<or> e = Opened (cj_header j1) \<longrightarrow> codec_ok enc dec e"
    and "length (journal_bytes dk) \<le> u64_max" and "first_sample r + length (pcm_file (dir dk)) \<le> u64_max"
    and "crashed dk d"
  shows "\<exists>d' j' b. open_journal rdec dec True d session_id src = (d', Ok j')
    \<and> coverage_file d' = Some b \<and> length b = cj_valid_bytes j'
    \<and> (j' = j\<lparr>cj_failed := False\<rparr>
       \<or> cj_failed j \<and> (\<exists>e. Some e \<in> fst ` set reports
            \<and> j' = (apply_entry j e)\<lparr>cj_failed := False,
                     cj_valid_bytes := cj_valid_bytes j + length (entry_line enc e)\<rparr>))"
proof -
  define h where "h = cj_header j1"
  define written where "written = {e. Some e \<in> fst ` set reports \<or> e = Opened h}"
  have open0: "reader_open rdec (dir dk0) session_id (replay_source_of src) = Ok r"
    using from_file_more_audio [OF assms(2,3)] assms(4) by (simp add: reader_open_def)
  note c = create_recoverable [OF assms(1) open0, of written, folded h_def]
  have "\<forall>rep \<in> set reports. set_option (fst rep) \<subseteq> written"
    by (force simp: written_def)
  then have "recoverable enc written r h (j, dk)"
    using run_recoverable [of enc written r h "(j1, dk1)" ops] c(1) assms(3,5,6) by (simp add: written_def)
  then obtain es where holds: "journal_holds enc written r h es (j, dk)"
    using assms(8,9) by (auto simp: recoverable_def oversized_def)
  have "audio_durable (synced_pcm dk) dk \<and> from_file rdec (synced_pcm dk) session_id (replay_source_of src) = Ok r"
    using run_durable [of "synced_pcm dk0" "(j1, dk1)" enc ops] c(8) [of "synced_pcm dk0"] assms(2,3,4,6)
      from_file_more_audio [OF assms(2), of "synced_pcm dk"]
    by (simp add: audio_durable_def written_def)
  then obtain d' j' b where "open_journal rdec dec True d session_id src = (d', Ok j')"
    "coverage_file d' = Some b" "length b = cj_valid_bytes j'"
    "j' = j\<lparr>cj_failed := False\<rparr> \<or> cj_failed j \<and> (\<exists>e \<in> written. \<not> is_opened e
       \<and> j' = (apply_entry j e)\<lparr>cj_failed := False, cj_valid_bytes := cj_valid_bytes j + length (entry_line enc e)\<rparr>)"
    using reopen_crashed [OF holds _ _ assms(9,10), of dec rdec session_id src] c(2-7) assms(3,7)
    by (auto simp: written_def h_def)
  then show ?thesis by (auto simp: written_def)
qed

section \<open>What is published is what is committed\<close>

text \<open>The intervals a caller is told to publish.\<close>

fun to_publish :: "entry option \<times> (io_error, commit_outcome) outcome option \<Rightarrow> committed_audio option" where
  "to_publish (Some (Committed c), Some (Ok New)) = Some c"
| "to_publish _ = None"

definition published :: "(entry option \<times> (io_error, commit_outcome) outcome option) list \<Rightarrow> committed_audio list" where
  "published reports = List.map_filter to_publish reports"

lemma append_entry_commits:
  "append_entry enc io j dk e = ((j', dk'), res) \<Longrightarrow> cj_commits j' = cj_commits j"
  using append_entry_keeps(1) [of enc io j dk e j' dk' res] by (metis core_simps(5))

lemma step_published:
  "cj_commits (fst (fst (journal_step enc s op)))
    = cj_commits (fst s) @ published [snd (journal_step enc s op)]"
proof (induction enc s op rule: journal_step.induct)
  case (1 enc j dk io c)
  obtain j' dk' res where r: "record_interval enc io j dk c = ((j', dk'), res)"
    by (metis prod.exhaust)
  have none: "to_publish (Some (Committed c), Some res) = None" if "res \<noteq> Ok New"
    using that by (cases "(Some (Committed c), Some res)" rule: to_publish.cases) auto
  from r have "cj_commits j' = cj_commits j @ (if res = Ok New then [c] else [])"
    by (cases rule: record_cases) (auto simp: accept_def dest: append_entry_commits)
  with r none show ?case by (auto simp: published_def map_filter_simps)
next
  case (2 enc j dk io engine reason)
  obtain j' dk' res where s: "switch enc io j dk engine reason = ((j', dk'), res)"
    by (metis prod.exhaust)
  from s refl have "cj_commits j' = cj_commits j"
    by (cases rule: switch_cases [where pcm = "[]"]) (auto simp: enter_epoch_def dest: append_entry_commits)
  with s show ?case by (simp add: published_def map_filter_simps)
qed (simp add: published_def map_filter_simps)

lemma published_Cons: "published (x # xs) = published [x] @ published xs"
  by (simp add: published_def map_filter_def)

lemma run_published:
  "cj_commits (fst (run_state (journal_step enc) s ops))
    = cj_commits (fst s) @ published (run_log (journal_step enc) s ops)"
proof (induction ops arbitrary: s)
  case (Cons op ops)
  have "published (run_log (journal_step enc) s (op # ops))
      = published [snd (journal_step enc s op)] @ published (run_log (journal_step enc) (fst (journal_step enc s op)) ops)"
    unfolding run_log.simps by (rule published_Cons)
  then show ?case by (simp add: Cons.IH step_published del: run_log.simps)
qed (simp add: published_def map_filter_simps)

lemma tiles_later: "tiles a cs b \<Longrightarrow> c \<in> set cs \<Longrightarrow> a \<le> ca_from_sample c"
  by (induction cs arbitrary: a) fastforce+

lemma tiles_distinct: "tiles a cs b \<Longrightarrow> distinct (map ca_from_sample cs)"
  by (induction cs arbitrary: a) (fastforce dest: tiles_later)+

lemma find_committed:
  assumes "distinct (map ca_from_sample cs)" and "c \<in> set cs"
  shows "find (\<lambda>p. ca_from_sample p = ca_from_sample c \<and> ca_through_sample p = ca_through_sample c) cs = Some c"
  using assms by (induction cs) auto

text \<open>C3. What a caller is told to publish is exactly what the journal has committed, in order and each
  interval once, however the disk fails on the way. Recording a committed interval again in its epoch
  answers that it is already committed and changes nothing; recording something else over it is refused.\<close>

theorem published_once:
  assumes "create_with_fallback rdec enc io dir_ok rm_ok dk0 session_id src initial fallback = (dk1, Ok j1)
      \<or> load rdec dec repair_ok repair d session_id src = (d', Ok j1)"
    and "run_state (journal_step enc) (j1, dk1) ops = (j, dk)"
  shows "cj_commits j = cj_commits j1 @ published (run_log (journal_step enc) (j1, dk1) ops)
    \<and> distinct (cj_commits j)
    \<and> (c \<in> set (cj_commits j) \<and> ca_epoch c' = ep_number (cj_epoch j) \<and> \<not> cj_failed j
       \<and> ca_from_sample c' = ca_from_sample c \<and> ca_through_sample c' = ca_through_sample c \<longrightarrow>
       record_interval enc io' j dk c'
         = ((j, dk), if c' = c then Ok AlreadyCommitted else Err (invalid ''conflicting committed interval'')))"
proof -
  have "coverage_inv j1" using assms(1) by (elim disjE) (rule create_inv load_inv, assumption)+
  then have "coverage_inv j" using coverage.inv_run [of "(j1, dk1)" enc ops] assms(2) by simp
  then have starts: "distinct (map ca_from_sample (cj_commits j))"
    unfolding coverage_inv_def using tiles_distinct by blast
  have "record_interval enc io' j dk c'
      = ((j, dk), if c' = c then Ok AlreadyCommitted else Err (invalid ''conflicting committed interval''))"
    if "c \<in> set (cj_commits j) \<and> ca_epoch c' = ep_number (cj_epoch j) \<and> \<not> cj_failed j
       \<and> ca_from_sample c' = ca_from_sample c \<and> ca_through_sample c' = ca_through_sample c"
    using that find_committed [OF starts, of c] by (auto simp: record_interval_def)
  moreover have "cj_commits j = cj_commits j1 @ published (run_log (journal_step enc) (j1, dk1) ops)"
    using run_published [of enc "(j1, dk1)" ops] assms(2) by simp
  moreover have "distinct (cj_commits j)" using starts by (simp add: distinct_map)
  ultimately show ?thesis by simp
qed

section \<open>After a failed write\<close>

lemma failed_step:
  assumes "cj_failed (fst s)"
  shows "fst (fst (journal_step enc s op)) = fst s"
    and "coverage_file (dir (snd (fst (journal_step enc s op)))) = coverage_file (dir (snd s))"
    and "synced_journal (snd (fst (journal_step enc s op))) = synced_journal (snd s)"
    and "snd (snd (journal_step enc s op))
      \<in> {None, Some (Err (invalid ''coverage journal failed; recovery required''))}"
  using assms
  by (induction enc s op rule: journal_step.induct)
    (simp_all add: record_interval_def switch_def)

text \<open>C30. A journal whose disk failed is inert. Once a write or a sync of a record has failed, the
  owner's state is exactly what it was before that record, apart from the mark; from then on every
  attempt to record an interval is refused, nothing is published, no engine is switched, and the file
  is not touched again, whatever the disk would do now. The file must be recovered first.\<close>

theorem failed_journal_is_inert:
  assumes "append_entry enc io j0 dk0 e = ((j, dk), Err Disk)"
    and "run_state (journal_step enc) (j, dk) ops = (j', dk')"
  shows "j = j0\<lparr>cj_failed := True\<rparr> \<and> j' = j
    \<and> coverage_file (dir dk') = coverage_file (dir dk) \<and> synced_journal dk' = synced_journal dk
    \<and> published (run_log (journal_step enc) (j, dk) ops) = []
    \<and> snd ` set (run_log (journal_step enc) (j, dk) ops)
        \<subseteq> {None, Some (Err (invalid ''coverage journal failed; recovery required''))}"
proof -
  have j: "j = j0\<lparr>cj_failed := True\<rparr>"
    using assms(1)
    by (auto simp: append_entry_def encode_def invalid_def Let_def split: if_splits prod.splits option.splits)
  have "fst (run_state (journal_step enc) s ops) = fst s
    \<and> coverage_file (dir (snd (run_state (journal_step enc) s ops))) = coverage_file (dir (snd s))
    \<and> synced_journal (snd (run_state (journal_step enc) s ops)) = synced_journal (snd s)
    \<and> snd ` set (run_log (journal_step enc) s ops)
        \<subseteq> {None, Some (Err (invalid ''coverage journal failed; recovery required''))}"
    if "cj_failed (fst s)" for s
    using that
  proof (induction ops arbitrary: s)
    case (Cons op ops)
    then have "cj_failed (fst (fst (journal_step enc s op)))" using failed_step(1) by simp
    from Cons.IH [OF this] failed_step [OF Cons.prems, of enc op] show ?case by simp
  qed simp
  from this [of "(j, dk)"] have run: "j' = j" "coverage_file (dir dk') = coverage_file (dir dk)"
    "synced_journal dk' = synced_journal dk"
    "snd ` set (run_log (journal_step enc) (j, dk) ops)
        \<subseteq> {None, Some (Err (invalid ''coverage journal failed; recovery required''))}"
    using assms(2) j by simp_all
  moreover have "published (run_log (journal_step enc) (j, dk) ops) = []"
    using run_published [of enc "(j, dk)" ops] assms(2) run(1) by simp
  ultimately show ?thesis using j by simp
qed

section \<open>A small journal\<close>

text \<open>Two samples of audio behind a header, an engine, and one committed interval over both.\<close>

definition small_reader :: replay_reader where
  "small_reader = \<lparr>rd_header = header_of ''s'' 100, audio_offset = 13\<rparr>"

definition small_engine :: engine_descriptor where
  "small_engine = \<lparr>ed_provider = ''deepgram'', ed_model = ''nova-3'', ed_revision = None,
     ed_capabilities = \<lparr>streaming = True, batch = True, word_timestamps = AvailableBoth,
       diarization = AvailableBoth, language_detection = True, custom_vocab = Keyterm, max_file_bytes = 0,
       max_file_seconds = 0, native_rates = [16000], retention = RetentionParam,
       supports_replay_faster_than_realtime = True\<rparr>\<rparr>"

definition small_header :: cov_header where
  "small_header = \<lparr>ch_schema = 1, ch_session_id = ''s'', ch_source = Mic, ch_first_sample = 100,
     ch_initial = small_engine, ch_fallback = None\<rparr>"

definition small_commit :: committed_audio where
  "small_commit = \<lparr>ca_epoch = 0, ca_from_sample = 100, ca_through_sample = 102, ca_segments = [], ca_gap = None\<rparr>"

definition small_disk :: "byte list option \<Rightarrow> disk" where
  "small_disk journal =
     \<lparr>dir = empty_dir\<lparr>pcm_exists := True, pcm_file := MAGIC @ [1, 0, 0, 0, 7, 1, 0, 2, 0], coverage_file := journal\<rparr>,
      synced_pcm = MAGIC @ [1, 0, 0, 0, 7, 1, 0, 2, 0],
      synced_journal = (case journal of None \<Rightarrow> [] | Some b \<Rightarrow> b)\<rparr>"

definition small_io :: journal_io where
  "small_io = \<lparr>audio_sync_ok = True, line_write = WriteOk, line_sync_ok = True\<rparr>"

fun small_enc :: "entry \<Rightarrow> byte list" where
  "small_enc (Opened h) = [1]"
| "small_enc (Switched e) = [2]"
| "small_enc (Committed c) = [3]"

definition small_dec :: "byte list \<Rightarrow> entry option" where
  "small_dec b = (if b = [1, 10] then Some (Opened small_header) else if b = [3, 10] then Some (Committed small_commit) else None)"

abbreviation small_rdec :: "byte list \<Rightarrow> replay_header option" where
  "small_rdec \<equiv> (\<lambda>_. Some (header_of ''s'' 100))"

lemma small_audio: "from_file small_rdec (MAGIC @ [1, 0, 0, 0, 7, 1, 0, 2, 0]) ''s'' ReplayMic = Ok small_reader"
  by (simp add: from_file_def MAGIC_def header_of_def small_reader_def MAX_HEADER_BYTES_def Let_def
      u32_from_le_bytes_def u32_from_be_bytes_def is_some_and_def)

lemma small_create:
  "create_with_fallback small_rdec small_enc small_io True True (small_disk None) ''s'' Mic small_engine None
    = (small_disk (Some [1, 10]), Ok ((from_header small_reader small_header)\<lparr>cj_valid_bytes := 2\<rparr>))"
  using small_audio
  by (simp add: create_with_fallback_def validate_engine_def small_engine_def reader_open_def small_disk_def empty_dir_def
      small_io_def append_entry_def encode_def MAX_RECORD_BYTES_def journal_bytes_def from_header_def small_header_def
      small_reader_def first_sample_def header_of_def newline_def checked_add64_def u64_max_def is_some_and_def Let_def)

lemma small_valid:
  "validate_commit ((from_header small_reader small_header)\<lparr>cj_valid_bytes := 2\<rparr>) (MAGIC @ [1, 0, 0, 0, 7, 1, 0, 2, 0]) small_commit
    = Ok ()"
  "sync_through True small_reader (MAGIC @ [1, 0, 0, 0, 7, 1, 0, 2, 0]) 102 = Ok ()"
  by (simp_all add: validate_commit_def small_commit_def from_header_def initial_epoch_def small_header_def small_reader_def
      read_from_def sync_through_def available_end_def first_sample_def header_of_def MAX_READ_SAMPLES_def
      SAMPLE_RATE_def MAGIC_def checked_add64_def u64_max_def is_some_and_def)

lemma small_record:
  "record_interval small_enc small_io ((from_header small_reader small_header)\<lparr>cj_valid_bytes := 2\<rparr>) (small_disk (Some [1, 10])) small_commit
    = ((accept ((from_header small_reader small_header)\<lparr>cj_valid_bytes := 4\<rparr>) small_commit, small_disk (Some [1, 10, 3, 10])), Ok New)"
proof -
  let ?j = "(from_header small_reader small_header)\<lparr>cj_valid_bytes := 2\<rparr>"
  have "pcm_file (dir (small_disk b)) = MAGIC @ [1, 0, 0, 0, 7, 1, 0, 2, 0]" for b
    by (simp add: small_disk_def empty_dir_def)
  moreover have "sync_audio True ?j (small_disk (Some [1, 10])) 102 = (small_disk (Some [1, 10]), Ok ())"
    using small_valid(2) by (simp add: sync_audio_def from_header_def small_disk_def empty_dir_def)
  moreover have "append_entry small_enc small_io ?j (small_disk (Some [1, 10])) (Committed small_commit)
      = ((?j\<lparr>cj_valid_bytes := 4\<rparr>, small_disk (Some [1, 10, 3, 10])), Ok ())"
    by (simp add: append_entry_def encode_def from_header_def small_io_def MAX_RECORD_BYTES_def journal_bytes_def
        small_disk_def empty_dir_def newline_def checked_add64_def u64_max_def)
  ultimately show ?thesis
    using small_valid(1)
    by (simp add: record_interval_def small_io_def, simp add: from_header_def initial_epoch_def small_commit_def)
qed

theorem coverage_contiguous_witness:
  "tiles 100 (cj_commits (fst (run_state (journal_step small_enc)
      ((from_header small_reader small_header)\<lparr>cj_valid_bytes := 2\<rparr>, small_disk (Some [1, 10]))
      [RecordInterval small_io small_commit]))) 102"
proof -
  let ?j = "accept ((from_header small_reader small_header)\<lparr>cj_valid_bytes := 4\<rparr>) small_commit"
  have "tiles (ch_first_sample (cj_header ?j)) (cj_commits ?j) (cj_committed ?j)"
    using coverage_contiguous [OF disjI1 [OF small_create] refl, of "[RecordInterval small_io small_commit]"]
    by (simp add: small_record)
  moreover have "ch_first_sample (cj_header ?j) = 100" "cj_committed ?j = 102"
    by (simp_all add: accept_def from_header_def small_header_def small_commit_def)
  ultimately show ?thesis by (simp add: small_record)
qed

theorem published_once_witness:
  "record_interval small_enc small_io (accept ((from_header small_reader small_header)\<lparr>cj_valid_bytes := 4\<rparr>) small_commit)
      (small_disk (Some [1, 10, 3, 10])) small_commit
    = ((accept ((from_header small_reader small_header)\<lparr>cj_valid_bytes := 4\<rparr>) small_commit, small_disk (Some [1, 10, 3, 10])),
       Ok AlreadyCommitted)"
proof -
  have "run_state (journal_step small_enc) ((from_header small_reader small_header)\<lparr>cj_valid_bytes := 2\<rparr>, small_disk (Some [1, 10]))
      [RecordInterval small_io small_commit]
    = (accept ((from_header small_reader small_header)\<lparr>cj_valid_bytes := 4\<rparr>) small_commit, small_disk (Some [1, 10, 3, 10]))"
    by (simp add: small_record)
  note published_once [OF disjI1 [OF small_create] this, of small_commit small_commit small_io]
  moreover have "small_commit \<in> set (cj_commits (accept ((from_header small_reader small_header)\<lparr>cj_valid_bytes := 4\<rparr>) small_commit))"
    "ca_epoch small_commit = ep_number (cj_epoch (accept ((from_header small_reader small_header)\<lparr>cj_valid_bytes := 4\<rparr>) small_commit))"
    "\<not> cj_failed (accept ((from_header small_reader small_header)\<lparr>cj_valid_bytes := 4\<rparr>) small_commit)"
    by (simp_all add: accept_def from_header_def initial_epoch_def, simp add: small_commit_def)
  ultimately show ?thesis by simp
qed

theorem failed_journal_is_inert_witness:
  "fst (run_state (journal_step small_enc)
      ((from_header small_reader small_header)\<lparr>cj_failed := True\<rparr>, with_journal (small_disk (Some [1, 10])) [1, 10, 3])
      [RecordInterval small_io small_commit])
    = (from_header small_reader small_header)\<lparr>cj_failed := True\<rparr>"
proof -
  have "append_entry small_enc (small_io\<lparr>line_write := WriteFails 1\<rparr>) (from_header small_reader small_header)
      (small_disk (Some [1, 10])) (Committed small_commit)
    = (((from_header small_reader small_header)\<lparr>cj_failed := True\<rparr>,
        with_journal (small_disk (Some [1, 10])) [1, 10, 3]), Err Disk)"
    by (simp add: append_entry_def encode_def MAX_RECORD_BYTES_def from_header_def small_io_def journal_bytes_def
        with_journal_def small_disk_def)
  from failed_journal_is_inert [OF this, of "[RecordInterval small_io small_commit]"] show ?thesis
    by (metis fst_conv prod.collapse)
qed

theorem crash_loses_nothing_committed_witness:
  "\<exists>d' j'. open_journal small_rdec small_dec True (dir (small_disk (Some [1, 10, 3, 10]))) ''s'' Mic = (d', Ok j')
     \<and> cj_commits j' = [small_commit]"
proof -
  let ?ops = "[RecordInterval small_io small_commit]"
  let ?s1 = "((from_header small_reader small_header)\<lparr>cj_valid_bytes := 2\<rparr>, small_disk (Some [1, 10]))"
  let ?j = "accept ((from_header small_reader small_header)\<lparr>cj_valid_bytes := 4\<rparr>) small_commit"
  let ?dk = "small_disk (Some [1, 10, 3, 10])"
  have run: "run_state (journal_step small_enc) ?s1 ?ops = (?j, ?dk)"
    and log: "run_log (journal_step small_enc) ?s1 ?ops = [(Some (Committed small_commit), Some (Ok New))]"
    by (simp_all add: small_record)
  have disk: "synced_pcm (small_disk b) = MAGIC @ [1, 0, 0, 0, 7, 1, 0, 2, 0]"
    "pcm_file (dir (small_disk b)) = MAGIC @ [1, 0, 0, 0, 7, 1, 0, 2, 0]" "pcm_exists (dir (small_disk b))" for b
    by (simp_all add: small_disk_def empty_dir_def)
  have "crashed ?dk (dir ?dk)"
    by (simp add: crashed_def disk journal_bytes_def) (simp add: small_disk_def)
  moreover have "\<forall>e. Some e \<in> fst ` set (run_log (journal_step small_enc) ?s1 ?ops) \<or> e = Opened small_header \<longrightarrow> codec_ok small_enc small_dec e"
    unfolding log by (simp add: codec_ok_def small_dec_def newline_def)
  moreover have "length (journal_bytes ?dk) \<le> u64_max" "first_sample small_reader + length (pcm_file (dir ?dk)) \<le> u64_max"
    by (simp_all add: disk MAGIC_def first_sample_def small_reader_def header_of_def u64_max_def journal_bytes_def)
      (simp add: small_disk_def)
  moreover have "\<not> cj_failed ?j" "cj_commits ?j = [small_commit]" "cj_header (fst ?s1) = small_header"
    by (simp_all add: accept_def from_header_def)
  ultimately show ?thesis
    using crash_loses_nothing_committed [OF small_create _ _ _ refl run, of small_reader small_dec "dir ?dk"] small_audio
    by (auto simp: disk)
qed

end
