(* ===== verification/Capture_Ring.thy ===== *)
theory Capture_Ring
  imports Prelude "HOL-Library.Word"
begin

text \<open>
  The lock-free handoff between the audio callback and the pump
  (\<^verbatim>\<open>crates/fotw-pipeline/src/ring.rs\<close>): the producer that admits whole callbacks and
  counts what it drops, the mailbox in which it publishes the timing of the latest callback, and
  the factory of rings for successive taps. The mailbox is shared between two threads: its
  operations are programs of atomic accesses and a step relation interleaves them, as the
  sequentially consistent ordering of the source allows. The queue of samples belongs to the
  rtrb library; its free space and its partial push are parameters.
\<close>

section \<open>Observations and the mailbox\<close>

record capture_observation =
  ob_sequence :: nat
  ob_sample_start :: nat
  ob_sample_count :: nat
  ob_device_frames :: nat
  ob_host_ns :: nat
  ob_flags :: nat
  ob_dropped_samples :: nat
  ob_timing_faults :: nat

record clock_mailbox =
  mb_version :: nat
  mb_fields :: "nat list"

definition mailbox_default :: clock_mailbox where
  "mailbox_default = \<lparr>mb_version = 0, mb_fields = replicate 8 0\<rparr>"

definition wrapping_mul64 :: "nat \<Rightarrow> nat \<Rightarrow> nat" where
  "wrapping_mul64 a b = (a * b) mod 2 ^ 64"

text \<open>The atomic stores of a publication, in program order.\<close>

datatype access = StoreVersion nat | StoreField nat nat

definition observation_values :: "capture_observation \<Rightarrow> nat list" where
  "observation_values ob =
     [ob_sample_start ob, ob_sample_count ob, ob_device_frames ob, ob_host_ns ob, ob_flags ob,
      ob_dropped_samples ob, ob_sequence ob, ob_timing_faults ob]"

definition publish :: "capture_observation \<Rightarrow> access list" where
  "publish ob =
     (let end = wrapping_mul64 (ob_sequence ob) 2
      in StoreVersion (wrapping_sub64 end 1)
           # map (\<lambda>(i, v). StoreField i v) (zip [0..<8] (observation_values ob))
           @ [StoreVersion end])"

fun do_access :: "clock_mailbox \<Rightarrow> access \<Rightarrow> clock_mailbox" where
  "do_access m (StoreVersion v) = m\<lparr>mb_version := v\<rparr>"
| "do_access m (StoreField i v) = m\<lparr>mb_fields := (mb_fields m)[i := v]\<rparr>"

text \<open>A read is in one of these stages: it has loaded the version and some fields, or it is done.\<close>

datatype reading = ReadIdle | ReadFields nat "nat list" | ReadDone "capture_observation option"

definition observation_of :: "nat list \<Rightarrow> capture_observation" where
  "observation_of values =
     \<lparr>ob_sequence = values ! 6, ob_sample_start = values ! 0, ob_sample_count = values ! 1,
      ob_device_frames = values ! 2, ob_host_ns = values ! 3, ob_flags = values ! 4 mod 2 ^ 32,
      ob_dropped_samples = values ! 5, ob_timing_faults = values ! 7\<rparr>"

text \<open>The next load of a read.\<close>

fun read_step :: "clock_mailbox \<Rightarrow> reading \<Rightarrow> reading" where
  "read_step m ReadIdle =
     (if mb_version m = 0 \<or> \<not> even (mb_version m) then ReadDone None else ReadFields (mb_version m) [])"
| "read_step m (ReadFields before values) =
     (if length values < 8 then ReadFields before (values @ [mb_fields m ! length values])
      else if mb_version m \<noteq> before then ReadDone None
      else ReadDone (Some (observation_of values)))"
| "read_step m (ReadDone r) = ReadIdle"

section \<open>The producer\<close>

record 'q ring_producer =
  inner :: 'q
  dropped :: nat
  accepted_samples :: nat
  clock_sequence :: nat
  timing_faults :: nat

text \<open>The partial push of the queue: the queue afterwards and how many samples it took.\<close>

type_synonym ('q, 'a) pusher = "'q \<Rightarrow> 'a list \<Rightarrow> 'q \<times> nat"

definition push_block ::
  "('q, 'a) pusher \<Rightarrow> 'q ring_producer \<Rightarrow> 'a list \<Rightarrow> 'q ring_producer \<times> nat" where
  "push_block push_partial p block =
     (case push_partial (inner p) block of
        (q, took) \<Rightarrow>
          (p\<lparr>inner := q, accepted_samples := sat_add64 (accepted_samples p) took,
             dropped := (if took < length block then wrapping_add64 (dropped p) (length block - took)
                         else dropped p)\<rparr>, took))"

definition push_complete_block ::
  "('q \<Rightarrow> nat) \<Rightarrow> ('q, 'a) pusher \<Rightarrow> 'q ring_producer \<Rightarrow> 'a list \<Rightarrow> 'q ring_producer \<times> nat" where
  "push_complete_block slots push_partial p block =
     (if slots (inner p) < length block
      then (p\<lparr>dropped := wrapping_add64 (dropped p) (length block)\<rparr>, 0)
      else push_block push_partial p block)"

unbundle bit_operations_syntax

definition timing_fault :: "nat \<Rightarrow> bool" where
  "timing_fault flags \<longleftrightarrow> flags AND 6 \<noteq> 0"

definition push_capture_block ::
  "('q \<Rightarrow> nat) \<Rightarrow> ('q, 'a) pusher \<Rightarrow> 'q ring_producer \<Rightarrow> 'a list \<Rightarrow> nat \<Rightarrow> nat \<Rightarrow> nat
     \<Rightarrow> 'q ring_producer \<times> nat \<times> capture_observation option" where
  "push_capture_block slots push_partial p block device_frames host_ns flags =
     (let sample_start = accepted_samples p
      in case push_complete_block slots push_partial p block of
           (p, sample_count) \<Rightarrow>
             if block = [] then (p, sample_count, None)
             else (let p = p\<lparr>clock_sequence := wrapping_add64 (clock_sequence p) 1,
                             timing_faults := (if timing_fault flags then sat_add64 (timing_faults p) 1
                                               else timing_faults p)\<rparr>
                   in (p, sample_count,
                       Some \<lparr>ob_sequence = clock_sequence p, ob_sample_start = sample_start,
                             ob_sample_count = sample_count, ob_device_frames = device_frames,
                             ob_host_ns = host_ns, ob_flags = flags, ob_dropped_samples = dropped p,
                             ob_timing_faults = timing_faults p\<rparr>)))"

definition producer_new :: "'q \<Rightarrow> 'q ring_producer" where
  "producer_new q = \<lparr>inner = q, dropped = 0, accepted_samples = 0, clock_sequence = 0, timing_faults = 0\<rparr>"

section \<open>Two threads\<close>

text \<open>
  The callback thread and the pump share the mailbox. Besides the program counters of the two
  threads, the state keeps the observations whose publication has begun, and how many had been
  published completely when the read in progress began.
\<close>

record 'q capture_system =
  producer :: "'q ring_producer"
  pending :: "access list"
  box :: clock_mailbox
  history :: "capture_observation list"
  reader :: reading
  seen :: nat

definition system_new :: "'q \<Rightarrow> 'q capture_system" where
  "system_new q =
     \<lparr>producer = producer_new q, pending = [], box = mailbox_default, history = [], reader = ReadIdle,
      seen = 0\<rparr>"

definition completed :: "'q capture_system \<Rightarrow> nat" where
  "completed s = (if pending s = [] then length (history s) else length (history s) - 1)"

definition begin_publication :: "'q capture_system \<Rightarrow> 'q ring_producer \<Rightarrow> capture_observation option \<Rightarrow> 'q capture_system" where
  "begin_publication s p ob =
     s\<lparr>producer := p, pending := (case ob of None \<Rightarrow> [] | Some ob \<Rightarrow> publish ob),
       history := history s @ (case ob of None \<Rightarrow> [] | Some ob \<Rightarrow> [ob])\<rparr>"

inductive capture_step ::
  "('q \<Rightarrow> nat) \<Rightarrow> ('q, 'a) pusher \<Rightarrow> 'q capture_system \<Rightarrow> 'q capture_system \<Rightarrow> bool"
  for slots push_partial where
  callback: "pending s = [] \<Longrightarrow> flags < 2 ^ 32
    \<Longrightarrow> push_capture_block slots push_partial (producer s) block device_frames host_ns flags = (p, took, ob)
    \<Longrightarrow> capture_step slots push_partial s (begin_publication s p ob)"
| store: "pending s = a # rest
    \<Longrightarrow> capture_step slots push_partial s (s\<lparr>box := do_access (box s) a, pending := rest\<rparr>)"
| load: "capture_step slots push_partial s
    (s\<lparr>reader := read_step (box s) (reader s), seen := (if reader s = ReadIdle then completed s else seen s)\<rparr>)"
| drain: "capture_step slots push_partial s (s\<lparr>producer := (producer s)\<lparr>inner := q\<rparr>\<rparr>)"

inductive_cases capture_stepE: "capture_step slots push_partial s s'"

section \<open>A read is never torn\<close>

lemma length_publish [simp]: "length (publish ob) = 10"
  by (simp add: publish_def observation_values_def Let_def)

lemma length_observation_values [simp]: "length (observation_values ob) = 8"
  by (simp add: observation_values_def)

lemma publish_nth:
  "publish ob ! 0 = StoreVersion (wrapping_sub64 (wrapping_mul64 (ob_sequence ob) 2) 1)"
  "k < 8 \<Longrightarrow> publish ob ! Suc k = StoreField k (observation_values ob ! k)"
  "publish ob ! 9 = StoreVersion (wrapping_mul64 (ob_sequence ob) 2)"
  by (simp_all add: publish_def Let_def nth_append)

lemma observation_of_values: "ob_flags ob < 2 ^ 32 \<Longrightarrow> observation_of (observation_values ob) = ob"
  by (simp add: observation_of_def observation_values_def)

text \<open>The version as a number that only grows.\<close>

definition ver :: "'q capture_system \<Rightarrow> nat" where
  "ver s =
     (let n = length (history s)
      in if pending s = [] then 2 * n else if length (pending s) = 10 then 2 * (n - 1) else 2 * n - 1)"

definition producer_inv :: "'q capture_system \<Rightarrow> bool" where
  "producer_inv s \<longleftrightarrow>
     clock_sequence (producer s) = length (history s)
     \<and> accepted_samples (producer s) = min (sum_list (map ob_sample_count (history s))) u64_max
     \<and> (\<forall>i < length (history s).
          ob_sequence (history s ! i) = i + 1 \<and> ob_flags (history s ! i) < 2 ^ 32
          \<and> ob_sample_start (history s ! i)
              = min (sum_list (map ob_sample_count (take i (history s)))) u64_max)"

definition box_inv :: "'q capture_system \<Rightarrow> bool" where
  "box_inv s \<longleftrightarrow>
     length (pending s) \<le> 10 \<and> (pending s \<noteq> [] \<longrightarrow> history s \<noteq> [])
     \<and> pending s = drop (10 - length (pending s)) (publish (last (history s)))
     \<and> length (mb_fields (box s)) = 8 \<and> mb_version (box s) = ver s
     \<and> (even (ver s) \<longrightarrow> 0 < ver s \<longrightarrow> mb_fields (box s) = observation_values (history s ! (ver s div 2 - 1)))
     \<and> (\<not> even (ver s) \<longrightarrow> take (9 - length (pending s)) (mb_fields (box s))
                         = take (9 - length (pending s)) (observation_values (last (history s))))"

definition reader_inv :: "'q capture_system \<Rightarrow> bool" where
  "reader_inv s \<longleftrightarrow>
     (case reader s of
        ReadFields before values \<Rightarrow>
          before = 2 * seen s \<and> 0 < seen s \<and> seen s \<le> length (history s) \<and> before \<le> ver s \<and> length values \<le> 8
          \<and> (ver s = before \<longrightarrow> values = take (length values) (observation_values (history s ! (seen s - 1))))
      | ReadDone (Some ob) \<Rightarrow> 0 < seen s \<and> seen s \<le> length (history s) \<and> ob = history s ! (seen s - 1)
      | _ \<Rightarrow> True)"

definition capture_inv :: "'q capture_system \<Rightarrow> bool" where
  "capture_inv s \<longleftrightarrow> (length (history s) < 2 ^ 63 \<longrightarrow> producer_inv s \<and> box_inv s \<and> reader_inv s)"

lemma capture_inv_new: "capture_inv (system_new q)"
  by (simp add: capture_inv_def producer_inv_def box_inv_def reader_inv_def system_new_def producer_new_def
      mailbox_default_def ver_def)

text \<open>What the queue is documented to do: a partial push takes what fits.\<close>

definition takes_what_fits :: "('q \<Rightarrow> nat) \<Rightarrow> ('q, 'a) pusher \<Rightarrow> bool" where
  "takes_what_fits slots push_partial \<longleftrightarrow> (\<forall>q block. snd (push_partial q block) = min (slots q) (length block))"

lemma push_complete_cases:
  assumes "takes_what_fits slots push_partial" and "push_complete_block slots push_partial p block = (p', took)"
  shows "took = (if slots (inner p) < length block then 0 else length block)"
    and "accepted_samples p \<le> u64_max \<Longrightarrow> accepted_samples p' = sat_add64 (accepted_samples p) took"
    and "clock_sequence p' = clock_sequence p" and "timing_faults p' = timing_faults p"
    and "dropped p' = (if took = length block then dropped p else wrapping_add64 (dropped p) (length block))"
proof -
  obtain q where "push_partial (inner p) block = (q, min (slots (inner p)) (length block))"
    using assms(1) by (metis prod.collapse takes_what_fits_def)
  with assms(2) show "took = (if slots (inner p) < length block then 0 else length block)"
    "accepted_samples p \<le> u64_max \<Longrightarrow> accepted_samples p' = sat_add64 (accepted_samples p) took"
    "clock_sequence p' = clock_sequence p" "timing_faults p' = timing_faults p"
    "dropped p' = (if took = length block then dropped p else wrapping_add64 (dropped p) (length block))"
    by (auto simp: push_complete_block_def push_block_def sat_add64_def split: if_splits)
qed

lemma push_capture_cases:
  assumes "takes_what_fits slots push_partial" and "accepted_samples p \<le> u64_max"
    and "push_capture_block slots push_partial p block device_frames host_ns flags = (p', took, ob)"
  obtains (empty) "ob = None" "clock_sequence p' = clock_sequence p" "accepted_samples p' = accepted_samples p"
  | (observed) x where "ob = Some x" "clock_sequence p' = wrapping_add64 (clock_sequence p) 1"
      "ob_sequence x = clock_sequence p'" "ob_sample_start x = accepted_samples p" "ob_sample_count x = took"
      "ob_flags x = flags" "accepted_samples p' = sat_add64 (accepted_samples p) took"
proof -
  obtain p1 t where c: "push_complete_block slots push_partial p block = (p1, t)" by fastforce
  note facts = push_complete_cases [OF assms(1) c]
  show thesis
  proof (cases "block = []")
    case True
    with assms(3) c facts(1,3) facts(2) [OF assms(2)] assms(2) show thesis
      by (intro empty) (auto simp: push_capture_block_def sat_add64_def)
  next
    case False
    with assms(3) c facts(3) facts(2) [OF assms(2)] show thesis
      by (intro observed) (auto simp: push_capture_block_def Let_def)
  qed
qed

lemma callback_inv:
  assumes "takes_what_fits slots push_partial" and "pending s = []" and "flags < 2 ^ 32"
    and "push_capture_block slots push_partial (producer s) block device_frames host_ns flags = (p, took, ob)"
    and "length (history (begin_publication s p ob)) < 2 ^ 63"
    and "producer_inv s" "box_inv s" "reader_inv s"
  shows "producer_inv (begin_publication s p ob) \<and> box_inv (begin_publication s p ob)
    \<and> reader_inv (begin_publication s p ob)"
proof -
  have acc: "accepted_samples (producer s) \<le> u64_max" using assms(6) by (simp add: producer_inv_def)
  from assms(1) acc assms(4) show ?thesis
  proof (cases rule: push_capture_cases)
    case empty
    then show ?thesis
      using assms(2,6-8)
      by (auto simp: begin_publication_def producer_inv_def box_inv_def reader_inv_def ver_def
          split: reading.splits option.splits)
  next
    case (observed x)
    let ?s = "begin_publication s p ob"
    have n: "length (history s) + 1 \<le> u64_max"
      using assms(5) observed(1) by (simp add: begin_publication_def u64_max_def)
    have "producer_inv ?s"
      using assms(3,6) observed n
      by (auto simp: producer_inv_def begin_publication_def nth_append less_Suc_eq sat_add64_def)
    moreover have same: "ver ?s = ver s" "history ?s = history s @ [x]" "pending ?s = publish x"
      using assms(2) observed(1) by (auto simp: begin_publication_def ver_def simp flip: length_0_conv)
    moreover have "box_inv ?s"
      using assms(2,7) same by (auto simp: box_inv_def ver_def begin_publication_def nth_append)
    moreover have "reader_inv ?s"
      using assms(8) same
      by (auto simp: reader_inv_def begin_publication_def nth_append split: reading.splits option.splits)
    ultimately show ?thesis by blast
  qed
qed

lemma box_invD:
  assumes "box_inv s"
  shows "length (pending s) \<le> 10" "pending s \<noteq> [] \<Longrightarrow> history s \<noteq> []"
    and "pending s = drop (10 - length (pending s)) (publish (last (history s)))"
    and "length (mb_fields (box s)) = 8" "mb_version (box s) = ver s"
    and "even (ver s) \<Longrightarrow> 0 < ver s \<Longrightarrow> mb_fields (box s) = observation_values (history s ! (ver s div 2 - 1))"
    and "\<not> even (ver s) \<Longrightarrow> take (9 - length (pending s)) (mb_fields (box s))
           = take (9 - length (pending s)) (observation_values (last (history s)))"
  using assms unfolding box_inv_def by blast+

lemma store_inv:
  assumes "pending s = a # rest" and "length (history s) < 2 ^ 63"
    and "producer_inv s" "box_inv s" "reader_inv s"
    and "s' = s\<lparr>box := do_access (box s) a, pending := rest\<rparr>"
  shows "producer_inv s' \<and> box_inv s' \<and> reader_inv s'"
proof -
  define n where "n = length (history s)"
  define x where "x = last (history s)"
  define k where "k = 10 - length (pending s)"
  have len: "length (pending s) \<le> 10" by (rule box_invD [OF assms(4)])
  have suffix: "pending s = drop k (publish x)"
    unfolding k_def x_def by (rule box_invD [OF assms(4)])
  have hist: "history s \<noteq> []" using assms(1) box_invD(2) [OF assms(4)] by simp
  have n: "0 < n" "n < 2 ^ 63" "history s ! (n - 1) = x" "ob_sequence x = n"
    using hist assms(2,3) by (auto simp: n_def x_def producer_inv_def last_conv_nth)
  have k: "k < 10" "length rest = 9 - k" using assms(1) len by (auto simp: k_def)
  have a: "a = publish x ! k" "rest = drop (Suc k) (publish x)"
    using suffix assms(1) k(1) by (metis Cons_nth_drop_Suc length_publish list.inject)+
  have versions: "wrapping_mul64 n 2 = 2 * n" "wrapping_sub64 (2 * n) 1 = 2 * n - 1"
    using n(1,2) by (simp_all add: wrapping_mul64_def u64_max_def)
  have old: "length (mb_fields (box s)) = 8" "mb_version (box s) = ver s"
    using box_invD(4,5) [OF assms(4)] by blast+
  have ver: "ver s = (if k = 0 then 2 * (n - 1) else 2 * n - 1)"
    using assms(1) len by (auto simp: ver_def k_def n_def)
  have stored: "take (k - 1) (mb_fields (box s)) = take (k - 1) (observation_values x)" if "k \<noteq> 0"
  proof -
    have "\<not> even (ver s)" using ver n(1) that by auto
    moreover have "9 - length (pending s) = k - 1" using len that by (auto simp: k_def)
    ultimately show ?thesis using box_invD(7) [OF assms(4)] by (simp add: x_def)
  qed
  have new: "ver s' = (if k = 9 then 2 * n else 2 * n - 1)"
    using k assms(6) by (auto simp: ver_def n_def Let_def simp flip: length_0_conv)
  have "box_inv s'"
  proof -
    consider "k = 0" | "0 < k" "k < 9" | "k = 9" using k(1) by linarith
    then show ?thesis
    proof cases
      case 1
      then have "a = StoreVersion (2 * n - 1)" using a(1) n(4) versions by (simp add: publish_nth)
      then show ?thesis
        unfolding box_inv_def using 1 new a(2) k(2) hist old(1) assms(6) by (simp add: n_def x_def)
    next
      case 2
      define i where "i = k - 1"
      then have i: "k = Suc i" "i < 8" using 2 by simp_all
      have "take (Suc i) ((mb_fields (box s))[i := observation_values x ! i]) = take (Suc i) (observation_values x)"
        using old(1) stored i by (simp add: take_Suc_conv_app_nth)
      moreover have "a = StoreField i (observation_values x ! i)" using a(1) i by (simp add: publish_nth)
      ultimately show ?thesis
        unfolding box_inv_def using i new ver a(2) k(2) hist old assms(6) n(1) by (simp add: n_def x_def)
    next
      case 3
      then have "a = StoreVersion (2 * n)" using a(1) n(4) versions by (simp add: publish_nth)
      moreover have "mb_fields (box s) = observation_values x" using stored 3 old(1) by simp
      ultimately show ?thesis
        unfolding box_inv_def using 3 new a(2) k(2) hist n(3) assms(6) by (simp add: n_def x_def)
    qed
  qed
  moreover have "producer_inv s'" using assms(3,6) by (simp add: producer_inv_def)
  moreover have "reader_inv s'"
  proof -
    have "ver s \<le> ver s'" "ver s' \<noteq> 2 * m \<or> ver s < 2 * m" for m
      using ver new n(1) by (auto, presburger+)
    then show ?thesis
      using assms(5,6) by (fastforce simp: reader_inv_def split: reading.splits option.splits)
  qed
  ultimately show ?thesis by blast
qed

lemma ver_cong: "pending s' = pending s \<Longrightarrow> history s' = history s \<Longrightarrow> ver s' = ver s"
  by (simp only: ver_def)

lemma box_inv_cong:
  "pending s' = pending s \<Longrightarrow> history s' = history s \<Longrightarrow> box s' = box s \<Longrightarrow> box_inv s' \<longleftrightarrow> box_inv s"
  unfolding box_inv_def ver_def by (simp only:)

lemma producer_inv_cong:
  "clock_sequence (producer s') = clock_sequence (producer s)
    \<Longrightarrow> accepted_samples (producer s') = accepted_samples (producer s) \<Longrightarrow> history s' = history s
    \<Longrightarrow> producer_inv s' \<longleftrightarrow> producer_inv s"
  by (simp only: producer_inv_def)

lemma completed_ver: "box_inv s \<Longrightarrow> even (ver s) \<Longrightarrow> completed s = ver s div 2"
  using box_invD(2) [of s] by (cases "history s") (auto simp: completed_def ver_def Let_def split: if_splits)

lemma field_load_inv:
  assumes "producer_inv s" "box_inv s" "reader_inv s"
    and "s' = s\<lparr>reader := read_step (box s) (reader s), seen := (if reader s = ReadIdle then completed s else seen s)\<rparr>"
  shows "producer_inv s' \<and> box_inv s' \<and> reader_inv s'"
proof -
  have same: "producer_inv s'" "box_inv s'" "ver s' = ver s"
    using assms(1,2) box_inv_cong [of s' s] producer_inv_cong [of s' s] ver_cong [of s' s]
    by (simp_all add: assms(4))
  have version: "mb_version (box s) = ver s" by (rule box_invD [OF assms(2)])
  have "ver s \<le> 2 * length (history s)" by (simp add: ver_def Let_def)
  have "reader_inv s'"
  proof (cases "reader s")
    case ReadIdle
    then show ?thesis
      using assms(4) same(3) version completed_ver [OF assms(2)] \<open>ver s \<le> 2 * length (history s)\<close>
      by (auto simp: reader_inv_def elim!: evenE)
  next
    case (ReadFields before vals)
    then have r: "before = 2 * seen s" "0 < seen s" "seen s \<le> length (history s)" "before \<le> ver s" "length vals \<le> 8"
      "ver s = before \<Longrightarrow> vals = take (length vals) (observation_values (history s ! (seen s - 1)))"
      using assms(3) by (simp_all add: reader_inv_def)
    show ?thesis
    proof (cases "length vals < 8")
      case True
      have "vals @ [mb_fields (box s) ! length vals]
          = take (Suc (length vals)) (observation_values (history s ! (seen s - 1)))" if "ver s = before"
        using that r True box_invD(6) [OF assms(2)] by (simp add: take_Suc_conv_app_nth)
      then show ?thesis
        using ReadFields True r assms(4) same(3) by (simp add: reader_inv_def)
    next
      case False
      have "observation_of vals = history s ! (seen s - 1)" if "ver s = before"
      proof -
        have "vals = observation_values (history s ! (seen s - 1))"
          using r(6) [OF that] r(5) False by simp
        moreover have "ob_flags (history s ! (seen s - 1)) < 2 ^ 32"
          using assms(1) r(2,3) by (simp add: producer_inv_def)
        ultimately show ?thesis by (simp add: observation_of_values)
      qed
      then show ?thesis
        using ReadFields False r version assms(4) by (simp add: reader_inv_def)
    qed
  next
    case (ReadDone ob)
    then show ?thesis using assms(4) by (simp add: reader_inv_def)
  qed
  with same show ?thesis by blast
qed

lemma capture_step_inv:
  assumes "takes_what_fits slots push_partial" and "capture_step slots push_partial s s'" and "capture_inv s"
  shows "capture_inv s'"
  using assms(2)
proof cases
  case (callback flags block device_frames host_ns p took ob)
  moreover have "length (history s) \<le> length (history s')"
    using callback(1) by (simp add: begin_publication_def split: option.splits)
  ultimately show ?thesis
    using assms(3) callback_inv [OF assms(1) callback(2-4)] by (simp add: capture_inv_def)
next
  case (store a rest)
  then show ?thesis using assms(3) store_inv [OF store(2) _ _ _ _ store(1)] by (simp add: capture_inv_def)
next
  case load
  then show ?thesis using assms(3) field_load_inv [OF _ _ _ load] by (simp add: capture_inv_def)
next
  case (drain q)
  then show ?thesis
    using assms(3) box_inv_cong [of s' s] producer_inv_cong [of s' s] ver_cong [of s' s]
    by (simp add: capture_inv_def reader_inv_def cong: reading.case_cong option.case_cong)
qed

lemma capture_reachable_inv:
  assumes "takes_what_fits slots push_partial" and "(capture_step slots push_partial)\<^sup>*\<^sup>* (system_new q) s"
  shows "capture_inv s"
  using assms(2) by (induction rule: rtranclp_induct) (auto intro: capture_inv_new capture_step_inv [OF assms(1)])

text \<open>The interleavings as schedules, for evaluation.\<close>

datatype ('q, 'a) thread_op = Callback "'a list" nat nat nat | Store | Load | Drain 'q

fun exec_op ::
  "('q \<Rightarrow> nat) \<Rightarrow> ('q, 'a) pusher \<Rightarrow> 'q capture_system \<Rightarrow> ('q, 'a) thread_op \<Rightarrow> 'q capture_system" where
  "exec_op slots push_partial s (Callback block device_frames host_ns flags) =
     (if pending s = [] \<and> flags < 2 ^ 32
      then (case push_capture_block slots push_partial (producer s) block device_frames host_ns flags of
              (p, _, ob) \<Rightarrow> begin_publication s p ob)
      else s)"
| "exec_op slots push_partial s Store =
     (case pending s of [] \<Rightarrow> s | a # rest \<Rightarrow> s\<lparr>box := do_access (box s) a, pending := rest\<rparr>)"
| "exec_op slots push_partial s Load =
     s\<lparr>reader := read_step (box s) (reader s), seen := (if reader s = ReadIdle then completed s else seen s)\<rparr>"
| "exec_op slots push_partial s (Drain q) = s\<lparr>producer := (producer s)\<lparr>inner := q\<rparr>\<rparr>"

lemma exec_op_steps: "(capture_step slots push_partial)\<^sup>*\<^sup>* s (exec_op slots push_partial s op)"
proof (cases op)
  case (Callback block device_frames host_ns flags)
  obtain p took ob where
    "push_capture_block slots push_partial (producer s) block device_frames host_ns flags = (p, took, ob)"
    by (metis prod.exhaust)
  then show ?thesis using Callback capture_step.callback [of s flags slots push_partial] by auto
next
  case Load
  then show ?thesis by (simp only: exec_op.simps) (rule r_into_rtranclp, rule capture_step.load)
qed (auto intro: capture_step.store capture_step.drain split: list.splits)

lemma exec_steps: "(capture_step slots push_partial)\<^sup>*\<^sup>* s (foldl (exec_op slots push_partial) s ops)"
proof (induction ops arbitrary: s)
  case (Cons op ops)
  then show ?case using exec_op_steps rtranclp_trans by (metis foldl_Cons)
qed simp

text \<open>C31. A read of the capture clock is never torn, however its loads interleave with the stores of the
  audio callback. A read that returns an observation returns, field for field, the one that was the
  latest completely published when the read began, and no other had begun to be published when it
  ended. Its position is the number of samples accepted by the callbacks before it, so a consumer can
  place it in the audio it drains. This holds while fewer than two to the power 63 callbacks have been
  published; of the queue it uses that a partial push takes what fits.\<close>

theorem capture_read_never_torn:
  assumes "takes_what_fits slots push_partial"
    and "(capture_step slots push_partial)\<^sup>*\<^sup>* (system_new q) s"
    and "length (history s) < 2 ^ 63" and "reader s = ReadDone (Some ob)"
  shows "0 < seen s \<and> seen s \<le> length (history s) \<and> ob = history s ! (seen s - 1) \<and> ob_sequence ob = seen s
    \<and> ob_sample_start ob = min (sum_list (map ob_sample_count (take (seen s - 1) (history s)))) u64_max"
proof -
  have "producer_inv s" "reader_inv s"
    using capture_reachable_inv [OF assms(1,2)] assms(3) by (simp_all add: capture_inv_def)
  then show ?thesis using assms(4) by (auto simp: reader_inv_def producer_inv_def)
qed

text \<open>A queue that only counts its free places.\<close>

definition counting_push :: "nat \<Rightarrow> 'a list \<Rightarrow> nat \<times> nat" where
  "counting_push free block = (free - length block, min free (length block))"

lemma counting_push_fits: "takes_what_fits id counting_push"
  by (simp add: takes_what_fits_def counting_push_def)

lemma mailbox_eval: "mailbox_default = \<lparr>mb_version = 0, mb_fields = [0, 0, 0, 0, 0, 0, 0, 0]\<rparr>"
  by (simp add: mailbox_default_def eval_nat_numeral)

lemma exec_stores:
  "foldl (exec_op slots push_partial) s (replicate (length (pending s)) Store)
    = s\<lparr>box := foldl do_access (box s) (pending s), pending := []\<rparr>"
proof (induction "pending s" arbitrary: s)
  case (Cons a rest)
  from Cons(2) [symmetric] Cons(1) [of "s\<lparr>box := do_access (box s) a, pending := rest\<rparr>"] show ?case by simp
qed simp

theorem capture_read_never_torn_witness:
  "\<exists>s ob. (capture_step id (counting_push :: (nat, nat) pusher))\<^sup>*\<^sup>* (system_new 8) s
     \<and> reader s = ReadDone (Some ob) \<and> ob_sample_count ob = 2 \<and> ob_sequence ob = seen s"
proof -
  let ?exec = "foldl (exec_op id (counting_push :: (nat, nat) pusher))"
  define x where "x = \<lparr>ob_sequence = 1, ob_sample_start = 0, ob_sample_count = 2, ob_device_frames = 0,
    ob_host_ns = 7, ob_flags = 0, ob_dropped_samples = 0, ob_timing_faults = 0\<rparr>"
  define m where "m = \<lparr>mb_version = 2, mb_fields = [0, 2, 0, 7, 0, 0, 1, 0]\<rparr>"
  define s1 where "s1 = ?exec (system_new 8) [Callback [5, 6] 0 7 0]"
  define s2 where "s2 = ?exec s1 (replicate (length (pending s1)) Store)"
  define s3 where "s3 = ?exec s2 [Load, Load, Load, Load, Load, Load, Load, Load, Load, Load]"
  have steps: "(capture_step id (counting_push :: (nat, nat) pusher))\<^sup>*\<^sup>* (system_new 8) s3"
    unfolding s3_def s2_def s1_def by (meson exec_steps rtranclp_trans)
  have s1: "pending s1 = publish x" "history s1 = [x]" "box s1 = mailbox_default" "reader s1 = ReadIdle"
    by (simp_all add: s1_def x_def system_new_def producer_new_def counting_push_def push_capture_block_def
        push_complete_block_def push_block_def timing_fault_def begin_publication_def Let_def wrapping_add64_def
        u64_defs u64_max_def numeral_2_eq_2)
  have "[0..<8] = [0, 1, 2, 3, 4, 5, 6, 7 :: nat]" by (simp add: upt_rec)
  then have "foldl do_access mailbox_default (publish x) = m"
    by (simp add: mailbox_eval publish_def x_def m_def observation_values_def wrapping_mul64_def wrapping_sub64_def Let_def)
  then have s2: "box s2 = m" "pending s2 = []" "history s2 = [x]" "reader s2 = ReadIdle"
    unfolding s2_def exec_stores by (simp_all add: s1)
  have "read_step m (ReadFields 2 [0, 2, 0, 7, 0, 0, 1, 0]) = ReadDone (Some x)"
    by (simp add: m_def x_def observation_of_def)
  then have s3: "reader s3 = ReadDone (Some x)" "history s3 = [x]"
    by (simp_all add: s3_def s2, simp add: m_def)
  then show ?thesis
    using steps capture_read_never_torn [OF counting_push_fits steps _ s3(1)] by (auto simp: x_def)
qed

section \<open>Every sample is accounted for\<close>

text \<open>Callbacks, and what the consumer leaves of the queue between them.\<close>

datatype ('q, 'a) ring_event = CallbackEvent "'a list" nat nat nat | Drained 'q

fun ring_step ::
  "('q \<Rightarrow> nat) \<Rightarrow> ('q, 'a) pusher \<Rightarrow> 'q ring_producer \<Rightarrow> ('q, 'a) ring_event
     \<Rightarrow> 'q ring_producer \<times> nat \<times> nat \<times> capture_observation option" where
  "ring_step slots push_partial p (CallbackEvent block device_frames host_ns flags) =
     (case push_capture_block slots push_partial p block device_frames host_ns flags of
        (p, took, ob) \<Rightarrow> (p, length block, took, ob))"
| "ring_step slots push_partial p (Drained q) = (p\<lparr>inner := q\<rparr>, 0, 0, None)"

abbreviation offered :: "nat \<times> nat \<times> capture_observation option \<Rightarrow> nat" where "offered \<equiv> fst"

abbreviation taken :: "nat \<times> nat \<times> capture_observation option \<Rightarrow> nat" where "taken r \<equiv> fst (snd r)"

abbreviation observed :: "nat \<times> nat \<times> capture_observation option \<Rightarrow> capture_observation option" where
  "observed r \<equiv> snd (snd r)"

lemma ring_step_accounts:
  assumes "takes_what_fits slots push_partial" and "ring_step slots push_partial p ev = (p', r)"
    and "accepted_samples p + dropped p + offered r \<le> u64_max"
  shows "taken r \<in> {0, offered r}" and "accepted_samples p' = accepted_samples p + taken r"
    and "dropped p' = dropped p + (offered r - taken r)"
    and "observed r = Some ob \<Longrightarrow> ob_sample_start ob = accepted_samples p \<and> ob_sample_count ob = taken r
           \<and> ob_dropped_samples ob = dropped p'"
proof -
  have "taken r \<in> {0, offered r} \<and> accepted_samples p' = accepted_samples p + taken r
    \<and> dropped p' = dropped p + (offered r - taken r)
    \<and> (observed r = Some ob \<longrightarrow> ob_sample_start ob = accepted_samples p \<and> ob_sample_count ob = taken r
           \<and> ob_dropped_samples ob = dropped p')"
  proof (cases ev)
    case (CallbackEvent block device_frames host_ns flags)
    obtain p1 t where c: "push_complete_block slots push_partial p block = (p1, t)" by fastforce
    have "r = (length block, t, observed r)" and same: "accepted_samples p' = accepted_samples p1" "dropped p' = dropped p1"
      and ob: "observed r = Some ob \<longrightarrow> ob_sample_start ob = accepted_samples p \<and> ob_sample_count ob = t
           \<and> ob_dropped_samples ob = dropped p1"
      using assms(2) c CallbackEvent by (auto simp: push_capture_block_def Let_def split: if_splits)
    then show ?thesis
      using push_complete_cases [OF assms(1) c] assms(3) by (cases r) (auto simp: sat_add64_def)
  qed (use assms(2) in auto)
  then show "taken r \<in> {0, offered r}" "accepted_samples p' = accepted_samples p + taken r"
    "dropped p' = dropped p + (offered r - taken r)"
    "observed r = Some ob \<Longrightarrow> ob_sample_start ob = accepted_samples p \<and> ob_sample_count ob = taken r
           \<and> ob_dropped_samples ob = dropped p'"
    by blast+
qed

lemma taken_and_dropped:
  "\<forall>r \<in> set rs. taken r \<in> {0, offered r} \<Longrightarrow>
    sum_list (map taken rs) + sum_list (map (\<lambda>r. offered r - taken r) rs) = sum_list (map offered rs)"
  by (induction rs) auto

definition observations_placed :: "(nat \<times> nat \<times> capture_observation option) list \<Rightarrow> bool" where
  "observations_placed reports \<longleftrightarrow>
     (\<forall>i ob. i < length reports \<and> observed (reports ! i) = Some ob \<longrightarrow>
        ob_sample_start ob = sum_list (map taken (take i reports))
        \<and> ob_sample_count ob = taken (reports ! i)
        \<and> ob_dropped_samples ob = sum_list (map (\<lambda>r. offered r - taken r) (take (Suc i) reports)))"

lemma observations_placed_snoc:
  assumes "observations_placed rs"
    and "\<And>ob. observed r = Some ob \<Longrightarrow> ob_sample_start ob = sum_list (map taken rs) \<and> ob_sample_count ob = taken r
      \<and> ob_dropped_samples ob = sum_list (map (\<lambda>r. offered r - taken r) (rs @ [r]))"
  shows "observations_placed (rs @ [r])"
  using assms by (auto simp: observations_placed_def nth_append less_Suc_eq)

lemma ring_run_accounts:
  assumes "takes_what_fits slots push_partial"
    and "sum_list (map offered (run_log (ring_step slots push_partial) (producer_new q) evs)) \<le> u64_max"
  shows "accepted_samples (run_state (ring_step slots push_partial) (producer_new q) evs)
      = sum_list (map taken (run_log (ring_step slots push_partial) (producer_new q) evs))
    \<and> dropped (run_state (ring_step slots push_partial) (producer_new q) evs)
        = sum_list (map (\<lambda>r. offered r - taken r) (run_log (ring_step slots push_partial) (producer_new q) evs))
    \<and> (\<forall>r \<in> set (run_log (ring_step slots push_partial) (producer_new q) evs). taken r \<in> {0, offered r})
    \<and> observations_placed (run_log (ring_step slots push_partial) (producer_new q) evs)"
  using assms(2)
proof (induction evs rule: rev_induct)
  case (snoc ev evs)
  let ?p = "run_state (ring_step slots push_partial) (producer_new q) evs"
  let ?before = "run_log (ring_step slots push_partial) (producer_new q) evs"
  obtain p' r where step: "ring_step slots push_partial ?p ev = (p', r)" by (metis surj_pair)
  have IH: "accepted_samples ?p = sum_list (map taken ?before)"
    "dropped ?p = sum_list (map (\<lambda>r. offered r - taken r) ?before)" "\<forall>r \<in> set ?before. taken r \<in> {0, offered r}"
    "observations_placed ?before"
    using snoc by simp_all
  have "accepted_samples ?p + dropped ?p + offered r \<le> u64_max"
    using IH(1,2) taken_and_dropped [OF IH(3)] snoc.prems step by simp
  note facts = ring_step_accounts [OF assms(1) step this]
  have "observations_placed (?before @ [r])"
    using facts(3,4) IH(1,2) by (intro observations_placed_snoc [OF IH(4)]) auto
  with facts(1-3) IH step show ?case by simp
qed (simp add: producer_new_def observations_placed_def)

text \<open>C32. The ring loses no sample silently and splits no callback. However the consumer keeps up, every
  callback is taken whole or not at all; the samples taken and the samples counted as dropped add up to
  the samples offered; and each published observation begins where the samples taken by all earlier
  callbacks end and carries the drops up to and including its own callback.\<close>

theorem callbacks_all_accounted:
  assumes "takes_what_fits slots push_partial" and "reports = run_log (ring_step slots push_partial) (producer_new q) evs"
    and "sum_list (map offered reports) \<le> u64_max"
    and "p = run_state (ring_step slots push_partial) (producer_new q) evs"
  shows "accepted_samples p = sum_list (map taken reports)
    \<and> accepted_samples p + dropped p = sum_list (map offered reports)
    \<and> (\<forall>r \<in> set reports. taken r \<in> {0, offered r})
    \<and> (\<forall>i ob. i < length reports \<and> observed (reports ! i) = Some ob \<longrightarrow>
         ob_sample_start ob = sum_list (map taken (take i reports))
         \<and> ob_sample_count ob = taken (reports ! i)
         \<and> ob_dropped_samples ob = sum_list (map (\<lambda>r. offered r - taken r) (take (Suc i) reports)))"
proof -
  note facts = ring_run_accounts [OF assms(1), of q evs, folded assms(2,4), OF assms(3)]
  moreover have "accepted_samples p + dropped p = sum_list (map offered reports)"
    using facts taken_and_dropped [of reports] by simp
  ultimately show ?thesis unfolding observations_placed_def by blast
qed

theorem callbacks_all_accounted_witness:
  "\<exists>p. p = run_state (ring_step id (counting_push :: (nat, nat) pusher)) (producer_new 2)
       [CallbackEvent [1, 2] 0 7 0, CallbackEvent [3, 4] 2 9 0]
     \<and> accepted_samples p + dropped p = 4"
proof -
  let ?evs = "[CallbackEvent [1, 2 :: nat] 0 7 0, CallbackEvent [3, 4] 2 9 0]"
  have "map offered (run_log (ring_step id (counting_push :: (nat, nat) pusher)) (producer_new 2) ?evs) = [2, 2]"
    by (auto split: prod.splits)
  then show ?thesis
    using callbacks_all_accounted [OF counting_push_fits refl _ refl, of 2 ?evs] by (simp add: u64_max_def)
qed

section \<open>Generations of rings\<close>

text \<open>Rings are numbered in the order of their allocation; the initial one is number 0. A number stands
  for both halves of a ring.\<close>

record generation_ring =
  gr_initial :: "nat option"
  gr_next :: "nat option"
  gr_allocated :: nat

definition generation_new :: generation_ring where
  "generation_new = \<lparr>gr_initial = Some 0, gr_next = None, gr_allocated = 1\<rparr>"

definition generation_producer :: "generation_ring \<Rightarrow> generation_ring \<times> nat" where
  "generation_producer g =
     (case gr_initial g of
        Some r \<Rightarrow> (g\<lparr>gr_initial := None\<rparr>, r)
      | None \<Rightarrow> (g\<lparr>gr_next := Some (gr_allocated g), gr_allocated := gr_allocated g + 1\<rparr>, gr_allocated g))"

definition discard_initial_attempt :: "generation_ring \<Rightarrow> generation_ring \<times> nat" where
  "discard_initial_attempt g =
     (g\<lparr>gr_initial := None, gr_next := None, gr_allocated := gr_allocated g + 1\<rparr>, gr_allocated g)"

definition take_replacement :: "generation_ring \<Rightarrow> generation_ring \<times> nat option" where
  "take_replacement g = (g\<lparr>gr_next := None\<rparr>, gr_next g)"

datatype generation_op = RequestProducer | DiscardInitial | TakeReplacement

text \<open>A step reports the ring whose producer it handed out and the ring whose consumer it handed out.\<close>

fun generation_step :: "generation_ring \<Rightarrow> generation_op \<Rightarrow> generation_ring \<times> nat option \<times> nat option" where
  "generation_step g RequestProducer = (case generation_producer g of (g, r) \<Rightarrow> (g, Some r, None))"
| "generation_step g DiscardInitial = (case discard_initial_attempt g of (g, r) \<Rightarrow> (g, None, Some r))"
| "generation_step g TakeReplacement = (case take_replacement g of (g, r) \<Rightarrow> (g, None, r))"

definition handed :: "(nat option \<times> nat option) list \<Rightarrow> nat list" where
  "handed reports = List.map_filter fst reports"

lemma handed_snoc [simp]: "handed (rs @ [r]) = handed rs @ (case fst r of None \<Rightarrow> [] | Some i \<Rightarrow> [i])"
  by (auto simp: handed_def map_filter_def split: option.splits)

text \<open>Every ring handed out is older than the next one to be allocated, none is handed out twice, and a
  waiting replacement is the ring of the latest producer.\<close>

lemma generation_inv:
  fixes ops
  defines "g \<equiv> run_state generation_step generation_new ops"
    and "rs \<equiv> handed (run_log generation_step generation_new ops)"
  shows "0 < gr_allocated g \<and> gr_initial g \<in> {None, Some 0} \<and> (gr_initial g \<noteq> None \<longrightarrow> rs = [])
    \<and> (\<forall>i \<in> set rs. i < gr_allocated g) \<and> distinct rs
    \<and> (\<forall>i. gr_next g = Some i \<longrightarrow> rs \<noteq> [] \<and> i = last rs)"
  unfolding g_def rs_def
proof (induction ops rule: rev_induct)
  case Nil
  then show ?case by (simp add: generation_new_def handed_def map_filter_def)
next
  case (snoc op ops)
  then show ?case
    by (cases op)
      (auto simp: generation_producer_def discard_initial_attempt_def take_replacement_def split: option.splits)
qed



end
