(* ===== verification/Utf8.thy ===== *)
theory Utf8
  imports Prelude "HOL-Library.Sublist"
begin

text \<open>
  What the code uses of Rust's \<^verbatim>\<open>str\<close>. A string is its UTF-8 bytes; its characters are the
  groups of bytes a leading byte announces. Trimming, words, lines, searching and joining are
  modelled; the Unicode tables beyond white space are a parameter where they are used.
\<close>

section \<open>Characters and white space\<close>

definition utf8_width :: "char \<Rightarrow> nat" where
  "utf8_width c = (let b = of_char c :: nat in if b < 192 then 1 else if b < 224 then 2 else if b < 240 then 3 else 4)"

function utf8_chars :: "string \<Rightarrow> string list" where
  "utf8_chars [] = []"
| "utf8_chars (c # cs) = (c # take (utf8_width c - 1) cs) # utf8_chars (drop (utf8_width c - 1) cs)"
  by pat_completeness auto

termination
  by (relation "measure length") auto

definition white_space :: "string list" where
  "white_space = map (map char_of) ([[9], [10], [11], [12], [13], [32], [194, 133], [194, 160], [225, 154, 128],
       [226, 128, 168], [226, 128, 169], [226, 128, 175], [226, 129, 159], [227, 128, 128]]
     @ map (\<lambda>b. [226, 128, b]) [128 ..< 139] :: nat list list)"

definition is_white :: "string \<Rightarrow> bool" where
  "is_white c \<longleftrightarrow> c \<in> set white_space"

definition trim_start :: "string \<Rightarrow> string" where
  "trim_start cs = concat (dropWhile is_white (utf8_chars cs))"

definition trim_end :: "string \<Rightarrow> string" where
  "trim_end cs = concat (rev (dropWhile is_white (rev (utf8_chars cs))))"

definition trim_matches :: "(string \<Rightarrow> bool) \<Rightarrow> string \<Rightarrow> string" where
  "trim_matches p cs = concat (rev (dropWhile p (rev (dropWhile p (utf8_chars cs)))))"

definition trim :: "string \<Rightarrow> string" where
  "trim cs = trim_matches is_white cs"

text \<open>The dash the code writes in labels and prompts.\<close>

definition em_dash :: string where
  "em_dash = map char_of [226 :: nat, 128, 148]"

section \<open>Words, lines and joins\<close>

fun split_words :: "string \<Rightarrow> string list \<Rightarrow> string list" where
  "split_words word [] = (if word = [] then [] else [word])"
| "split_words word (c # cs) =
     (if is_white c then (if word = [] then [] else [word]) @ split_words [] cs
      else split_words (word @ c) cs)"

text \<open>\<^verbatim>\<open>split_whitespace\<close>.\<close>

definition words_of :: "string \<Rightarrow> string list" where
  "words_of cs = split_words [] (utf8_chars cs)"

definition strip_cr :: "string \<Rightarrow> string" where
  "strip_cr cs = (if cs \<noteq> [] \<and> last cs = char_of (13 :: nat) then butlast cs else cs)"

fun split_lines :: "string \<Rightarrow> string \<Rightarrow> string list" where
  "split_lines line [] = (if line = [] then [] else [line])"
| "split_lines line (c # cs) =
     (if c = char_of (10 :: nat) then strip_cr line # split_lines [] cs else split_lines (line @ [c]) cs)"

text \<open>\<^verbatim>\<open>lines\<close>: a line ends at a line feed, with the carriage return before it; the last need not end.\<close>

definition lines_of :: "string \<Rightarrow> string list" where
  "lines_of cs = split_lines [] cs"

fun join_with :: "string \<Rightarrow> string list \<Rightarrow> string" where
  "join_with sep [] = []"
| "join_with sep [w] = w"
| "join_with sep (w # v # vs) = w @ sep @ join_with sep (v # vs)"

text \<open>\<^verbatim>\<open>find\<close>: the offset of the first occurrence.\<close>

fun find_str :: "string \<Rightarrow> string \<Rightarrow> nat option" where
  "find_str needle [] = (if needle = [] then Some 0 else None)"
| "find_str needle (c # cs) =
     (if take (length needle) (c # cs) = needle then Some 0 else map_option Suc (find_str needle cs))"

definition contains :: "string \<Rightarrow> string \<Rightarrow> bool" where
  "contains hay needle \<longleftrightarrow> find_str needle hay \<noteq> None"

fun split_on :: "char \<Rightarrow> string \<Rightarrow> string \<Rightarrow> string list" where
  "split_on sep part [] = [part]"
| "split_on sep part (c # cs) = (if c = sep then part # split_on sep [] cs else split_on sep (part @ [c]) cs)"

section \<open>Lemmas\<close>

lemma find_str_Some:
  "find_str needle hay = Some i \<Longrightarrow> i + length needle \<le> length hay \<and> take (length needle) (drop i hay) = needle"
proof (induction needle hay arbitrary: i rule: find_str.induct)
  case (2 needle c cs)
  show ?case
  proof (cases "take (length needle) (c # cs) = needle")
    case True
    then have "length needle \<le> length (c # cs)" by (metis length_take min.cobounded1)
    moreover have "i = 0" using 2(2) True by simp
    ultimately show ?thesis using True by (simp only: add_0 drop_0 simp_thms)
  next
    case False
    with 2 show ?thesis by auto
  qed
qed (auto split: if_splits)

lemma find_str_prefix: "find_str needle (needle @ ys) = Some 0"
proof (cases "needle @ ys")
  case (Cons c cs)
  then have "take (length needle) (c # cs) = needle" by (metis append_eq_conv_conj)
  with Cons show ?thesis by (simp only: find_str.simps if_True simp_thms)
qed simp

lemma contains_iff: "contains hay needle \<longleftrightarrow> sublist needle hay"
proof
  assume "contains hay needle"
  then obtain i where "find_str needle hay = Some i" by (auto simp: contains_def)
  then have "hay = take i hay @ needle @ drop (length needle) (drop i hay)"
    using append_take_drop_id [of "length needle" "drop i hay"] append_take_drop_id [of i hay]
    by (simp add: find_str_Some del: append_take_drop_id)
  then show "sublist needle hay" unfolding sublist_def by blast
next
  assume "sublist needle hay"
  then obtain xs ys where hay: "hay = xs @ needle @ ys" by (auto simp: sublist_def)
  have "find_str needle (xs @ needle @ ys) \<noteq> None"
    by (induction xs) (simp_all add: find_str_prefix)
  then show "contains hay needle" by (simp add: contains_def hay)
qed

lemma words_nonempty: "w \<in> set (split_words word cs) \<Longrightarrow> w \<noteq> []"
  by (induction word cs rule: split_words.induct) (auto split: if_splits)

text \<open>\<^verbatim>\<open>replace\<close>: the leftmost occurrences that do not overlap; the text replaced is not empty.\<close>

function replace_all :: "string \<Rightarrow> string \<Rightarrow> string \<Rightarrow> string" where
  "replace_all needle r hay =
     (case find_str needle hay of
        None \<Rightarrow> hay
      | Some i \<Rightarrow>
          if needle = [] then hay
          else take i hay @ r @ replace_all needle r (drop (i + length needle) hay))"
  by auto

termination
proof (relation "measure (\<lambda>(needle, r, hay). length hay)")
  fix needle hay :: string and i
  assume "find_str needle hay = Some i" and "needle \<noteq> []"
  with find_str_Some [of needle hay i] show "((needle, r, drop (i + length needle) hay), needle, r, hay)
      \<in> measure (\<lambda>(needle, r, hay). length hay)" for r
    by (cases needle) auto
qed simp

declare replace_all.simps [simp del]

text \<open>The occurrence found is the first.\<close>

lemma find_str_least: "find_str needle hay = Some i \<Longrightarrow> j < i \<Longrightarrow> take (length needle) (drop j hay) \<noteq> needle"
  by (induction needle hay arbitrary: i j rule: find_str.induct) (auto simp: drop_Cons' split: if_splits)

lemma find_str_first:
  assumes "find_str needle hay = Some i" and "needle \<noteq> []"
  shows "find_str needle (take i hay) = None"
proof (rule ccontr)
  assume "find_str needle (take i hay) \<noteq> None"
  then obtain j where "find_str needle (take i hay) = Some j" by blast
  from find_str_Some [OF this] have fits: "j + length needle \<le> i"
    and occ: "take (length needle) (drop j (take i hay)) = needle" by auto
  have "take (length needle) (drop j hay) = needle"
    using occ fits by (simp add: drop_take min_def split: if_splits)
  moreover have "j < i" using fits assms(2) by (cases needle) auto
  ultimately show False using find_str_least [OF assms(1)] by blast
qed

text \<open>
  A text put between two others meets no pattern of a kind: one that does not contain the first
  character of the text and does not begin with a character of it.
\<close>

lemma sublist_splice:
  assumes "r \<noteq> []" and "needle \<noteq> []" and "hd r \<notin> set needle" and "hd needle \<notin> set r"
  shows "sublist needle (xs @ r @ ys) \<longleftrightarrow> sublist needle xs \<or> sublist needle ys"
proof
  assume "sublist needle (xs @ r @ ys)"
  then consider "sublist needle xs" | "sublist needle r" | "sublist needle ys"
    | a b where "needle = a @ b" "suffix a r" "prefix b ys" | a b where "needle = a @ b" "suffix a xs" "prefix b (r @ ys)"
    unfolding sublist_append by blast
  then show "sublist needle xs \<or> sublist needle ys"
  proof cases
    case 2
    then have "hd needle \<in> set r" using assms(2) set_mono_sublist hd_in_set by blast
    with assms(4) show ?thesis by simp
  next
    case (4 a b)
    show ?thesis
    proof (cases "a = []")
      case False
      then have "hd needle \<in> set r" using 4(1,2) set_mono_suffix [OF 4(2)] hd_in_set [OF False] by auto
      with assms(4) show ?thesis by simp
    qed (use 4 in auto)
  next
    case (5 a b)
    show ?thesis
    proof (cases "b = []")
      case False
      then have "hd b = hd r" using 5(3) assms(1) by (cases b; cases r) (auto simp: prefix_def)
      then have "hd r \<in> set needle" using 5(1) hd_in_set [OF False] by auto
      with assms(3) show ?thesis by simp
    qed (use 5 in auto)
  qed simp_all
qed (auto simp: sublist_append)

lemma replace_all_free:
  assumes "r \<noteq> []" and "needle \<noteq> []" and "hd r \<notin> set needle" and "hd needle \<notin> set r"
  shows "\<not> sublist needle (replace_all needle r hay)"
  using assms
proof (induction needle r hay rule: replace_all.induct)
  case (1 needle r hay)
  show ?case
  proof (cases "find_str needle hay")
    case None
    then show ?thesis by (subst replace_all.simps) (simp add: contains_iff [symmetric] contains_def)
  next
    case (Some i)
    have "\<not> sublist needle (take i hay)"
      using find_str_first [OF Some] 1(3) by (simp add: contains_iff [symmetric] contains_def)
    with 1 Some show ?thesis by (subst replace_all.simps) (simp add: sublist_splice)
  qed
qed

lemma replace_all_keeps_free:
  assumes "r \<noteq> []" and "q \<noteq> []" and "hd r \<notin> set q" and "hd q \<notin> set r" and "\<not> sublist q hay"
  shows "\<not> sublist q (replace_all needle r hay)"
  using assms
proof (induction needle r hay rule: replace_all.induct)
  case (1 needle r hay)
  have parts: "\<not> sublist q (take i hay)" "\<not> sublist q (drop i hay)" for i
    using 1(6) by (metis append_take_drop_id sublist_append)+
  show ?case
  proof (cases "find_str needle hay")
    case (Some i)
    with 1 parts show ?thesis by (subst replace_all.simps) (simp add: sublist_splice)
  qed (use 1 in \<open>subst replace_all.simps, simp\<close>)
qed

lemma concat_utf8_chars [simp]: "concat (utf8_chars cs) = cs"
  by (induction cs rule: utf8_chars.induct) simp_all

lemma sublist_concat: "sublist xss yss \<Longrightarrow> sublist (concat xss) (concat yss)"
  unfolding sublist_def by (metis concat_append)

lemma trim_sublist: "sublist (trim cs) cs"
proof -
  have "sublist (rev (dropWhile is_white (rev (dropWhile is_white (utf8_chars cs))))) (utf8_chars cs)"
    by (metis rev_rev_ident suffix_dropWhile suffix_imp_sublist sublist_rev_right sublist_order.order_trans)
  from sublist_concat [OF this] show ?thesis by (simp add: trim_def trim_matches_def)
qed

text \<open>Text of ASCII characters, none of them white space, is its own trimmed form.\<close>

definition solid :: "char \<Rightarrow> bool" where
  "solid c \<longleftrightarrow> of_char c < (128 :: nat) \<and> of_char c \<notin> {9, 10, 11, 12, 13, 32 :: nat}"

lemma utf8_chars_ascii: "\<forall>c \<in> set cs. of_char c < (192 :: nat) \<Longrightarrow> utf8_chars cs = map (\<lambda>c. [c]) cs"
  by (induction cs) (simp_all add: utf8_width_def)

lemma is_white_single: "is_white [c] \<longleftrightarrow> of_char c \<in> {9, 10, 11, 12, 13, 32 :: nat}"
proof -
  have "is_white [c] \<longleftrightarrow> (\<exists>b \<in> {9, 10, 11, 12, 13, 32 :: nat}. c = char_of b)"
    by (auto simp: is_white_def white_space_def)
  also have "\<dots> \<longleftrightarrow> (\<exists>b \<in> {9, 10, 11, 12, 13, 32 :: nat}. of_char c = b)"
  proof (rule bex_cong [OF refl])
    fix b :: nat assume "b \<in> {9, 10, 11, 12, 13, 32}"
    then have "b < 256" by auto
    then show "c = char_of b \<longleftrightarrow> of_char c = b" by (metis char_of_char of_char_of mod_less)
  qed
  also have "\<dots> \<longleftrightarrow> of_char c \<in> {9, 10, 11, 12, 13, 32 :: nat}" by simp
  finally show ?thesis .
qed

lemma solid_chars:
  assumes "\<forall>c \<in> set cs. solid c"
  shows "utf8_chars cs = map (\<lambda>c. [c]) cs" and "\<forall>ch \<in> set (utf8_chars cs). \<not> is_white ch"
proof -
  show chars: "utf8_chars cs = map (\<lambda>c. [c]) cs"
    using assms by (intro utf8_chars_ascii) (auto simp: solid_def)
  show "\<forall>ch \<in> set (utf8_chars cs). \<not> is_white ch"
    using assms by (auto simp: chars is_white_single solid_def)
qed

lemma dropWhile_none: "\<forall>x \<in> set xs. \<not> P x \<Longrightarrow> dropWhile P xs = xs"
  by (cases xs) simp_all

lemma trim_solid:
  assumes "\<forall>c \<in> set cs. solid c"
  shows "trim cs = cs" and "trim_start cs = cs" and "trim_end cs = cs"
  using solid_chars [OF assms]
  by (simp_all add: trim_def trim_matches_def trim_start_def trim_end_def dropWhile_none)

lemma trim_start_solid: "solid c \<Longrightarrow> trim_start (c # cs) = c # cs"
  by (simp add: trim_start_def utf8_width_def solid_def is_white_single)

end
