(* ===== verification/Summary_Plan.thy ===== *)
theory Summary_Plan
  imports Transcript Utf8 "HOL-Library.Char_ord" "HOL-Library.List_Lexorder" "HOL-Library.Product_Lexorder"
begin

text \<open>
  How a transcript is laid out for the summarizer
  (\<^verbatim>\<open>crates/fotw-summarize/src/document.rs\<close> and \<^verbatim>\<open>chunk.rs\<close>): the document whose
  positions are the evidence ids a summary cites, its grouping into speaker turns, and the
  packing of turns into chunks for a model with a small context, with the token estimates
  (\<^verbatim>\<open>tokens.rs\<close>) and the budgets of a provider (\<^verbatim>\<open>capabilities.rs\<close>) that decide it.
  Strings are their UTF-8 bytes, which Rust also orders by. Token counts are natural numbers.
\<close>

section \<open>The document\<close>

record document_segment =
  ds_index :: nat
  ds_segment_id :: string
  ds_speaker :: "string option"
  ds_source :: source
  ds_start_ms :: nat
  ds_end_ms :: nat
  ds_text :: string
  ds_confidence :: "f64 option"

text \<open>A \<^verbatim>\<open>BTreeMap\<close> from ids to segments is the list of its values in the order of the ids.\<close>

fun newest_insert :: "segment \<Rightarrow> segment list \<Rightarrow> segment list" where
  "newest_insert s [] = [s]"
| "newest_insert s (x # xs) =
     (if seg_id s = seg_id x then (if revision x \<le> revision s then s else x) # xs
      else if seg_id s < seg_id x then s # x # xs
      else x # newest_insert s xs)"

definition newest_of :: "segment list \<Rightarrow> segment list" where
  "newest_of segs = foldl (\<lambda>acc s. newest_insert s acc) [] segs"

definition document_order :: "segment \<Rightarrow> nat \<times> string" where
  "document_order s = (seg_start_ms s, seg_id s)"

definition document_segment_of :: "nat \<Rightarrow> segment \<Rightarrow> document_segment" where
  "document_segment_of i s =
     \<lparr>ds_index = i, ds_segment_id = seg_id s, ds_speaker = seg_speaker s, ds_source = seg_source s,
      ds_start_ms = seg_start_ms s, ds_end_ms = seg_end_ms s, ds_text = trim (seg_text s),
      ds_confidence = seg_confidence s\<rparr>"

definition from_segments :: "segment list \<Rightarrow> document_segment list" where
  "from_segments segs =
     (let kept = sort_key document_order (filter (\<lambda>s. trim (seg_text s) \<noteq> []) (newest_of segs))
      in map (\<lambda>(i, s). document_segment_of i s) (enumerate 0 kept))"

definition document_lookup :: "document_segment list \<Rightarrow> nat \<Rightarrow> document_segment option" where
  "document_lookup doc i = (if i < length doc then Some (doc ! i) else None)"

fun speaker_label :: "document_segment \<Rightarrow> string" where
  "speaker_label d =
     (case ds_speaker d of
        Some label \<Rightarrow> label
      | None \<Rightarrow> (case ds_source d of Mic \<Rightarrow> ''me'' | System \<Rightarrow> ''unknown''))"

definition two_digits :: "nat \<Rightarrow> string" where
  "two_digits n = (if n < 10 then ''0'' @ show_nat n else show_nat n)"

definition format_timestamp :: "nat \<Rightarrow> string" where
  "format_timestamp ms =
     (let total_seconds = ms div 1000; hours = total_seconds div 3600;
          minutes = (total_seconds mod 3600) div 60; seconds = total_seconds mod 60
      in if 0 < hours then show_nat hours @ '':'' @ two_digits minutes @ '':'' @ two_digits seconds
         else two_digits minutes @ '':'' @ two_digits seconds)"

definition block_text :: "document_segment \<Rightarrow> string" where
  "block_text d = ''[#'' @ show_nat (ds_index d) @ ''] '' @ speaker_label d @ '' @ '' @
     format_timestamp (ds_start_ms d) @ '' '' @ em_dash @ '' '' @ ds_text d"

definition speaker_labels :: "document_segment list \<Rightarrow> string list" where
  "speaker_labels doc = remdups_adj (sort (map speaker_label doc))"

fun texts_of :: "document_segment list \<Rightarrow> nat list \<Rightarrow> string list option" where
  "texts_of doc [] = Some []"
| "texts_of doc (i # is) =
     (case document_lookup doc i of
        None \<Rightarrow> None
      | Some d \<Rightarrow> map_option ((#) (ds_text d)) (texts_of doc is))"

definition concatenated_text :: "document_segment list \<Rightarrow> nat list \<Rightarrow> string option" where
  "concatenated_text doc indices = map_option (join_with '' '') (texts_of doc indices)"

definition blocks_for :: "document_segment list \<Rightarrow> nat list \<Rightarrow> string list" where
  "blocks_for doc indices = map block_text (List.map_filter (document_lookup doc) indices)"

definition all_indices :: "document_segment list \<Rightarrow> nat list" where
  "all_indices doc = [0..<length doc]"

definition content_blocks :: "document_segment list \<Rightarrow> string list" where
  "content_blocks doc = blocks_for doc (all_indices doc)"

section \<open>Token estimates and budgets\<close>

text \<open>
  Multiplying a count by a fraction is floating-point arithmetic: \<open>scale\<close> gives the rounded-up
  tokens of a number of words, \<open>fraction_of\<close> the tokens of a fraction of a context, the fraction
  being named by the constant the code passes.
\<close>

datatype fraction = SINGLE_SHOT_FRACTION | CHUNK_FRACTION

record estimator =
  scale :: "nat \<Rightarrow> nat"
  fraction_of :: "nat \<Rightarrow> fraction \<Rightarrow> nat"

definition PER_BLOCK_OVERHEAD_TOKENS :: nat where "PER_BLOCK_OVERHEAD_TOKENS = 8"

definition estimate_tokens :: "estimator \<Rightarrow> string \<Rightarrow> nat" where
  "estimate_tokens est cs =
     (let words = length (words_of cs) in if words = 0 then 0 else max 1 (scale est words))"

definition estimate_block_tokens :: "estimator \<Rightarrow> string \<Rightarrow> nat" where
  "estimate_block_tokens est cs = estimate_tokens est cs + PER_BLOCK_OVERHEAD_TOKENS"

definition estimated_tokens :: "estimator \<Rightarrow> document_segment list \<Rightarrow> nat" where
  "estimated_tokens est doc = sum_list (map (\<lambda>d. estimate_block_tokens est (block_text d)) doc)"

datatype prompt_cache = NoPromptCache | FiveMinutesCache | OneHourCache

datatype cache_ttl = NoTtl | FiveMinutes | OneHour

record capabilities =
  native_citations :: bool
  strict_json_schema :: bool
  cap_prompt_cache :: prompt_cache
  usable_context_tokens :: nat
  max_output_tokens :: nat
  supports_effort :: bool
  supports_thinking :: bool

definition single_shot_budget_tokens :: "estimator \<Rightarrow> capabilities \<Rightarrow> nat" where
  "single_shot_budget_tokens est caps = fraction_of est (usable_context_tokens caps) SINGLE_SHOT_FRACTION"

definition chunk_budget_tokens :: "estimator \<Rightarrow> capabilities \<Rightarrow> nat" where
  "chunk_budget_tokens est caps = fraction_of est (usable_context_tokens caps) CHUNK_FRACTION"

definition fits_single_shot :: "estimator \<Rightarrow> capabilities \<Rightarrow> nat \<Rightarrow> bool" where
  "fits_single_shot est caps tokens = (tokens < single_shot_budget_tokens est caps)"

fun clamp_ttl :: "capabilities \<Rightarrow> cache_ttl \<Rightarrow> cache_ttl" where
  "clamp_ttl caps requested =
     (case (cap_prompt_cache caps, requested) of
        (NoPromptCache, _) \<Rightarrow> NoTtl
      | (_, NoTtl) \<Rightarrow> NoTtl
      | (FiveMinutesCache, _) \<Rightarrow> FiveMinutes
      | (OneHourCache, ttl) \<Rightarrow> ttl)"

section \<open>Turns and chunks\<close>

record speaker_turn =
  turn_segments :: "nat list"
  turn_speaker :: string
  turn_tokens :: nat

record chunk =
  chunk_segments :: "nat list"
  overlap_segments :: nat
  chunk_tokens :: nat

definition to_global :: "chunk \<Rightarrow> nat \<Rightarrow> nat option" where
  "to_global c local_block_index =
     (if local_block_index < length (chunk_segments c) then Some (chunk_segments c ! local_block_index) else None)"

definition add_to_turns :: "estimator \<Rightarrow> speaker_turn list \<Rightarrow> document_segment \<Rightarrow> speaker_turn list" where
  "add_to_turns est turns d =
     (let speaker = speaker_label d; tokens = estimate_block_tokens est (block_text d)
      in if turns \<noteq> [] \<and> turn_speaker (last turns) = speaker
         then butlast turns @ [(last turns)\<lparr>turn_segments := turn_segments (last turns) @ [ds_index d],
                                            turn_tokens := turn_tokens (last turns) + tokens\<rparr>]
         else turns @ [\<lparr>turn_segments = [ds_index d], turn_speaker = speaker, turn_tokens = tokens\<rparr>])"

definition speaker_turns :: "estimator \<Rightarrow> document_segment list \<Rightarrow> speaker_turn list" where
  "speaker_turns est doc = foldl (add_to_turns est) [] doc"

definition OVERLAP_TURNS :: nat where "OVERLAP_TURNS = 2"

text \<open>The inner loop: how many turns from the start of the list fit, and their tokens.\<close>

fun fill_chunk :: "nat \<Rightarrow> bool \<Rightarrow> nat \<Rightarrow> speaker_turn list \<Rightarrow> nat \<times> nat" where
  "fill_chunk budget first tokens [] = (0, tokens)"
| "fill_chunk budget first tokens (t # ts) =
     (if \<not> first \<and> budget < tokens + turn_tokens t then (0, tokens)
      else (case fill_chunk budget False (tokens + turn_tokens t) ts of (n, used) \<Rightarrow> (Suc n, used)))"

text \<open>A slice of turns; slicing backwards panics.\<close>

definition turns_slice :: "speaker_turn list \<Rightarrow> nat \<Rightarrow> nat \<Rightarrow> speaker_turn list" where
  "turns_slice turns a b = take (b - a) (drop a turns)"

definition slice_segments :: "speaker_turn list \<Rightarrow> nat \<Rightarrow> nat \<Rightarrow> nat list" where
  "slice_segments turns a b = concat (map turn_segments (turns_slice turns a b))"

text \<open>The outer loop. Not returning is \<^const>\<open>None\<close>.\<close>

partial_function (option) pack_loop ::
  "speaker_turn list \<Rightarrow> nat \<Rightarrow> nat \<Rightarrow> nat \<Rightarrow> chunk list \<Rightarrow> (unit, chunk list) outcome option" where
  "pack_loop turns budget start previous_end chunks =
     (if length turns \<le> start then Some (Ok chunks)
      else case fill_chunk budget True 0 (drop start turns) of
        (n, tokens) \<Rightarrow>
          let stop = start + n
          in if chunks \<noteq> [] \<and> min previous_end stop < start then Some Panic
             else let overlap = (if chunks = [] then 0
                                 else length (slice_segments turns start (min previous_end stop)));
                      chunks = chunks @ [\<lparr>chunk_segments = slice_segments turns start stop,
                                          overlap_segments = overlap, chunk_tokens = tokens\<rparr>]
                  in if length turns \<le> stop then Some (Ok chunks)
                     else pack_loop turns budget (max (stop - OVERLAP_TURNS) (start + 1)) stop chunks)"

definition pack :: "speaker_turn list \<Rightarrow> nat \<Rightarrow> (unit, chunk list) outcome option" where
  "pack turns budget = pack_loop turns budget 0 0 []"

datatype plan = SingleShot | MapReduce "chunk list"

definition plan_for :: "estimator \<Rightarrow> document_segment list \<Rightarrow> capabilities \<Rightarrow> (unit, plan) outcome option" where
  "plan_for est doc caps =
     (if fits_single_shot est caps (estimated_tokens est doc) then Some (Ok SingleShot)
      else map_option (\<lambda>r. outcome_bind r (\<lambda>cs. Ok (MapReduce cs)))
             (pack (speaker_turns est doc) (chunk_budget_tokens est caps)))"

fun plan_chunks :: "estimator \<Rightarrow> document_segment list \<Rightarrow> plan \<Rightarrow> chunk list" where
  "plan_chunks est doc SingleShot =
     [\<lparr>chunk_segments = all_indices doc, overlap_segments = 0, chunk_tokens = estimated_tokens est doc\<rparr>]"
| "plan_chunks est doc (MapReduce chunks) = chunks"

fun is_map_reduce :: "plan \<Rightarrow> bool" where
  "is_map_reduce SingleShot = False"
| "is_map_reduce (MapReduce chunks) = True"

text \<open>The tail of the running context that fits the budget: \<open>kept\<close> is the part already kept, in order.\<close>

fun keep_tail :: "estimator \<Rightarrow> nat \<Rightarrow> string list \<Rightarrow> string list \<Rightarrow> string list" where
  "keep_tail est budget [] kept = kept"
| "keep_tail est budget (word # words) kept =
     (if budget < estimate_tokens est (join_with '' '' (rev (word # kept))) then kept
      else keep_tail est budget words (word # kept))"

definition truncate_context :: "estimator \<Rightarrow> string \<Rightarrow> nat \<Rightarrow> string" where
  "truncate_context est context budget_tokens =
     (if estimate_tokens est context \<le> budget_tokens then context
      else join_with '' '' (keep_tail est budget_tokens (rev (words_of context)) []))"

section \<open>Packing\<close>

definition tokens_of :: "speaker_turn list \<Rightarrow> nat" where
  "tokens_of ts = sum_list (map turn_tokens ts)"

lemma tokens_of_simps [simp]:
  "tokens_of [] = 0" "tokens_of (t # ts) = turn_tokens t + tokens_of ts"
  "tokens_of (xs @ ys) = tokens_of xs + tokens_of ys"
  by (simp_all add: tokens_of_def)

lemma tokens_of_take_drop: "tokens_of (take n (drop k ts)) \<le> tokens_of ts"
  by (metis append_take_drop_id le_add1 le_add2 order_trans tokens_of_simps(3))

text \<open>The inner loop takes the longest prefix within the budget, but at least one turn at the start.\<close>

lemma fill_chunk_greedy:
  assumes "fill_chunk budget first tokens ts = (n, used)"
  shows "n \<le> length ts \<and> used = tokens + tokens_of (take n ts) \<and> (first \<and> ts \<noteq> [] \<longrightarrow> 0 < n)
    \<and> (used \<le> budget \<or> n = 0 \<or> (first \<and> n = 1))
    \<and> (\<forall>m \<le> length ts. tokens + tokens_of (take m ts) \<le> budget \<longrightarrow> m \<le> n)"
  using assms
proof (induction budget first tokens ts arbitrary: n rule: fill_chunk.induct)
  case (2 budget first tokens t ts)
  show ?case
  proof (cases "\<not> first \<and> budget < tokens + turn_tokens t")
    case True
    then have "m = 0" if "tokens + tokens_of (take m (t # ts)) \<le> budget" for m
      using that by (cases m) auto
    with True 2(2) show ?thesis by auto
  next
    case False
    then obtain k where k: "fill_chunk budget False (tokens + turn_tokens t) ts = (k, used)" "n = Suc k"
      using 2(2) by (auto split: if_splits prod.splits)
    note IH = 2(1) [OF False k(1)]
    have "m \<le> n" if "m \<le> length (t # ts)" "tokens + tokens_of (take m (t # ts)) \<le> budget" for m
    proof (cases m)
      case (Suc m')
      with IH that k(2) show ?thesis by (simp add: add.assoc)
    qed simp
    moreover have "used \<le> budget \<or> (first \<and> n = 1)"
      using IH False k(2) by auto
    ultimately show ?thesis using IH k(2) by (simp add: add.assoc)
  qed
qed auto

text \<open>A chunk holds the whole turns from the first to before the second component of a range.\<close>

definition chunk_spans :: "speaker_turn list \<Rightarrow> nat \<Rightarrow> chunk \<Rightarrow> nat \<times> nat \<Rightarrow> bool" where
  "chunk_spans turns budget c r \<longleftrightarrow> fst r < snd r \<and> snd r \<le> length turns
     \<and> chunk_segments c = slice_segments turns (fst r) (snd r)
     \<and> chunk_tokens c = tokens_of (turns_slice turns (fst r) (snd r))
     \<and> (chunk_tokens c \<le> budget \<or> snd r = Suc (fst r))"

definition next_start :: "nat \<times> nat \<Rightarrow> nat" where
  "next_start r = max (snd r - 2) (Suc (fst r))"

definition overlapping :: "(nat \<times> nat) list \<Rightarrow> bool" where
  "overlapping rs \<longleftrightarrow> (\<forall>i. Suc i < length rs \<longrightarrow> fst (rs ! Suc i) = next_start (rs ! i))"

definition fresh_segments :: "chunk \<Rightarrow> nat list" where
  "fresh_segments c = drop (overlap_segments c) (chunk_segments c)"

definition pack_inv :: "speaker_turn list \<Rightarrow> nat \<Rightarrow> nat \<Rightarrow> nat \<Rightarrow> chunk list \<Rightarrow> (nat \<times> nat) list \<Rightarrow> bool" where
  "pack_inv turns budget start prev cs rs \<longleftrightarrow>
     list_all2 (chunk_spans turns budget) cs rs \<and> overlapping rs \<and> length cs \<le> start
     \<and> concat (map fresh_segments cs) = slice_segments turns 0 prev
     \<and> (if rs = [] then start = 0 \<and> prev = 0 else prev = snd (last rs) \<and> start = next_start (last rs))"

lemma turns_slice_append:
  assumes "a \<le> b" and "b \<le> c"
  shows "turns_slice turns a c = turns_slice turns a b @ turns_slice turns b c"
proof -
  have "take (c - a) xs = take (b - a) xs @ take (c - b) (drop (b - a) xs)" for xs :: "speaker_turn list"
    using take_add [of "b - a" "c - b" xs] assms by simp
  then show ?thesis using assms by (simp add: turns_slice_def)
qed

lemma slice_segments_append:
  "a \<le> b \<Longrightarrow> b \<le> c \<Longrightarrow> slice_segments turns a c = slice_segments turns a b @ slice_segments turns b c"
  by (simp add: slice_segments_def turns_slice_append [of a b c])

lemma slice_segments_empty [simp]: "slice_segments turns a a = []"
  by (simp add: slice_segments_def turns_slice_def)

lemma overlapping_snoc:
  "overlapping (rs @ [r]) \<longleftrightarrow> overlapping rs \<and> (rs \<noteq> [] \<longrightarrow> fst r = next_start (last rs))"
  by (auto simp: overlapping_def nth_append last_conv_nth less_Suc_eq) (metis One_nat_def diff_Suc_1)

text \<open>What the previous chunk leaves to repeat always fits the next one again.\<close>

lemma pack_overlap_fits:
  assumes inv: "pack_inv turns budget start prev cs rs" and rs: "rs \<noteq> []"
    and fill: "fill_chunk budget True 0 (drop start turns) = (n, used)"
  shows "start \<le> prev" and "prev \<le> start + n"
proof -
  obtain c where c: "chunk_spans turns budget c (last rs)"
    using inv rs list_all2_nthD2 [of "chunk_spans turns budget" cs rs "length rs - 1"]
    by (auto simp: pack_inv_def last_conv_nth)
  have prev: "prev = snd (last rs)" and start: "start = next_start (last rs)"
    using inv rs by (simp_all add: pack_inv_def)
  show le: "start \<le> prev" using c prev start by (auto simp: chunk_spans_def next_start_def)
  show "prev \<le> start + n"
  proof (cases "start = prev")
    case False
    then have "tokens_of (turns_slice turns (fst (last rs)) prev) \<le> budget"
      using c prev start by (auto simp: chunk_spans_def next_start_def)
    moreover have "turns_slice turns (fst (last rs)) prev
        = turns_slice turns (fst (last rs)) start @ turns_slice turns start prev"
      using le start by (intro turns_slice_append) (auto simp: next_start_def)
    ultimately have "tokens_of (take (prev - start) (drop start turns)) \<le> budget"
      by (simp add: turns_slice_def)
    moreover have "prev - start \<le> length (drop start turns)"
      using c prev by (auto simp: chunk_spans_def intro: diff_le_mono)
    ultimately have "prev - start \<le> n"
      using fill_chunk_greedy [OF fill] by simp
    then show ?thesis by simp
  qed simp
qed

definition packed_chunk :: "speaker_turn list \<Rightarrow> nat \<Rightarrow> nat \<Rightarrow> chunk list \<Rightarrow> nat \<times> nat \<Rightarrow> chunk" where
  "packed_chunk turns start prev cs fill =
     \<lparr>chunk_segments = slice_segments turns start (start + fst fill),
      overlap_segments = (if cs = [] then 0 else length (slice_segments turns start (min prev (start + fst fill)))),
      chunk_tokens = snd fill\<rparr>"

lemma pack_loop_step:
  "pack_loop turns budget start prev cs =
     (if length turns \<le> start then Some (Ok cs)
      else let fill = fill_chunk budget True 0 (drop start turns); stop = start + fst fill;
               cs' = cs @ [packed_chunk turns start prev cs fill]
           in if cs \<noteq> [] \<and> min prev stop < start then Some Panic
              else if length turns \<le> stop then Some (Ok cs')
              else pack_loop turns budget (next_start (start, stop)) stop cs')"
  by (subst pack_loop.simps)
    (auto simp: packed_chunk_def next_start_def OVERLAP_TURNS_def Let_def split: prod.splits)

lemma pack_inv_step:
  assumes inv: "pack_inv turns budget start prev cs rs" and start: "start < length turns"
    and fill: "fill_chunk budget True 0 (drop start turns) = (n, used)"
  defines "stop \<equiv> start + n"
  shows "start < stop" and "stop \<le> length turns" and "cs \<noteq> [] \<Longrightarrow> start \<le> min prev stop"
    and "pack_inv turns budget (next_start (start, stop)) stop
      (cs @ [packed_chunk turns start prev cs (n, used)]) (rs @ [(start, stop)])"
proof -
  note greedy = fill_chunk_greedy [OF fill]
  show stop: "start < stop" "stop \<le> length turns" using greedy start by (auto simp: stop_def)
  have nil: "cs = [] \<longleftrightarrow> rs = []" using inv by (auto simp: pack_inv_def)
  note fits = pack_overlap_fits [OF inv _ fill, folded stop_def]
  show "cs \<noteq> [] \<Longrightarrow> start \<le> min prev stop" using fits nil stop by simp
  let ?c = "packed_chunk turns start prev cs (n, used)"
  have "chunk_spans turns budget ?c (start, stop)"
    using greedy stop start by (auto simp: chunk_spans_def packed_chunk_def stop_def turns_slice_def)
  moreover have "slice_segments turns 0 prev @ fresh_segments ?c = slice_segments turns 0 stop"
  proof (cases "rs = []")
    case True
    with inv nil show ?thesis by (simp add: pack_inv_def fresh_segments_def packed_chunk_def stop_def)
  next
    case False
    with fits have le: "start \<le> prev" "prev \<le> stop" by blast+
    with False nil have "fresh_segments ?c = slice_segments turns prev stop"
      by (simp add: fresh_segments_def packed_chunk_def slice_segments_append [OF le] min_absorb1 flip: stop_def)
    with le show ?thesis by (simp add: slice_segments_append [of 0 prev stop])
  qed
  moreover have "rs \<noteq> [] \<Longrightarrow> start = next_start (last rs)" "length cs \<le> start"
    using inv by (simp_all add: pack_inv_def)
  moreover have "list_all2 (chunk_spans turns budget) cs rs" "overlapping rs"
    "concat (map fresh_segments cs) = slice_segments turns 0 prev"
    using inv by (simp_all add: pack_inv_def)
  ultimately show "pack_inv turns budget (next_start (start, stop)) stop (cs @ [?c]) (rs @ [(start, stop)])"
    by (simp add: pack_inv_def overlapping_snoc list_all2_appendI) (simp add: next_start_def)
qed

lemma pack_loop_total:
  assumes "pack_inv turns budget start prev cs rs" and "start < length turns"
  shows "\<exists>cs' rs'. pack_loop turns budget start prev cs = Some (Ok cs') \<and> length cs' \<le> length turns
    \<and> list_all2 (chunk_spans turns budget) cs' rs' \<and> overlapping rs'
    \<and> concat (map fresh_segments cs') = slice_segments turns 0 (length turns)"
  using assms
proof (induction "length turns - start" arbitrary: start prev cs rs rule: less_induct)
  case less
  obtain n used where fill: "fill_chunk budget True 0 (drop start turns) = (n, used)"
    by (metis surj_pair)
  let ?stop = "start + n" and ?cs = "cs @ [packed_chunk turns start prev cs (n, used)]"
  note step = pack_inv_step [OF less.prems fill]
  have loop: "pack_loop turns budget start prev cs =
      (if length turns \<le> ?stop then Some (Ok ?cs)
       else pack_loop turns budget (next_start (start, ?stop)) ?stop ?cs)"
    using less.prems(2) step(3) fill by (subst pack_loop_step) (auto simp: Let_def)
  show ?case
  proof (cases "length turns \<le> ?stop")
    case True
    with step(2) have "?stop = length turns" by simp
    moreover have "length ?cs \<le> length turns" using less.prems by (simp add: pack_inv_def)
    ultimately show ?thesis using step(4) loop unfolding pack_inv_def by auto
  next
    case False
    have "start < next_start (start, ?stop)" "next_start (start, ?stop) < length turns"
      using False step(1,2) by (auto simp: next_start_def)
    then show ?thesis using less.hyps [OF _ step(4)] less.prems(2) loop False by simp
  qed
qed

lemma pack_total:
  "\<exists>cs rs. pack turns budget = Some (Ok cs) \<and> length cs \<le> length turns
    \<and> list_all2 (chunk_spans turns budget) cs rs \<and> overlapping rs
    \<and> concat (map fresh_segments cs) = concat (map turn_segments turns)"
proof (cases "turns = []")
  case True
  then show ?thesis by (auto simp: pack_def pack_loop.simps overlapping_def)
next
  case False
  have "pack_inv turns budget 0 0 [] []" by (simp add: pack_inv_def overlapping_def)
  from pack_loop_total [OF this] False show ?thesis
    by (auto simp: pack_def slice_segments_def turns_slice_def)
qed

text \<open>C39. Packing a transcript into chunks always ends, with at most as many chunks as there are turns.
  Each chunk is a run of whole turns and is within the budget unless it is a single turn; each chunk
  after the first starts two turns before the end of its predecessor, or one turn after its start where
  that is later; and the segments that are new in each chunk are, in order, exactly the segments of the
  transcript, so none is lost and none is counted twice.\<close>

theorem pack_partitions_turns:
  "\<exists>cs rs. pack turns budget = Some (Ok cs) \<and> length cs \<le> length turns
    \<and> list_all2 (chunk_spans turns budget) cs rs \<and> overlapping rs
    \<and> concat (map fresh_segments cs) = concat (map turn_segments turns)"
  by (rule pack_total)

section \<open>Evidence ids\<close>

lemma newest_insert_ids: "seg_id ` set (newest_insert s xs) = insert (seg_id s) (seg_id ` set xs)"
  by (induction xs) auto

lemma newest_insert_sorted:
  "sorted_wrt (<) (map seg_id xs) \<Longrightarrow> sorted_wrt (<) (map seg_id (newest_insert s xs))"
proof (induction xs)
  case (Cons y ys)
  show ?case
  proof (cases "seg_id y < seg_id s")
    case True
    have "seg_id y < seg_id x" if "x \<in> set (newest_insert s ys)" for x
      using imageI [OF that, of seg_id] True Cons.prems unfolding newest_insert_ids by auto
    moreover have "\<not> seg_id s < seg_id y" "seg_id s \<noteq> seg_id y" using True by auto
    ultimately show ?thesis using Cons by simp
  next
    case False
    with Cons.prems show ?thesis by auto
  qed
qed simp

lemma newest_insert_newest:
  assumes "sorted_wrt (<) (map seg_id xs)" and "x \<in> set (newest_insert s xs)"
  shows "x \<in> set xs \<and> (seg_id x = seg_id s \<longrightarrow> revision s \<le> revision x)
    \<or> x = s \<and> (\<forall>y \<in> set xs. seg_id y = seg_id s \<longrightarrow> revision y \<le> revision s)"
  using assms by (induction xs) (auto split: if_splits)

definition newest_inv :: "segment list \<Rightarrow> segment list \<Rightarrow> bool" where
  "newest_inv segs xs \<longleftrightarrow> sorted_wrt (<) (map seg_id xs) \<and> seg_id ` set xs = seg_id ` set segs
     \<and> set xs \<subseteq> set segs \<and> (\<forall>x \<in> set xs. \<forall>s \<in> set segs. seg_id s = seg_id x \<longrightarrow> revision s \<le> revision x)"

lemma newest_inv_insert:
  assumes "newest_inv segs xs"
  shows "newest_inv (segs @ [s]) (newest_insert s xs)"
proof -
  have sorted: "sorted_wrt (<) (map seg_id xs)" and ids: "seg_id ` set xs = seg_id ` set segs"
    and sub: "set xs \<subseteq> set segs"
    and top: "\<And>x t. x \<in> set xs \<Longrightarrow> t \<in> set segs \<Longrightarrow> seg_id t = seg_id x \<Longrightarrow> revision t \<le> revision x"
    using assms unfolding newest_inv_def by blast+
  note new = newest_insert_newest [OF sorted]
  have "revision t \<le> revision x"
    if x: "x \<in> set (newest_insert s xs)" and t: "t \<in> insert s (set segs)" and eq: "seg_id t = seg_id x" for x t
    using new [OF x]
  proof (elim disjE conjE)
    assume "x \<in> set xs" and "seg_id x = seg_id s \<longrightarrow> revision s \<le> revision x"
    with t eq top show ?thesis by (cases "t = s") auto
  next
    assume "x = s" and less: "\<forall>y \<in> set xs. seg_id y = seg_id s \<longrightarrow> revision y \<le> revision s"
    show ?thesis
    proof (cases "t = s")
      case False
      with t obtain y where y: "y \<in> set xs" "seg_id y = seg_id t" using ids by (metis imageE imageI insertE)
      with False t have "revision t \<le> revision y" using top by auto
      with less y eq \<open>x = s\<close> show ?thesis by (metis le_trans)
    qed (simp add: \<open>x = s\<close>)
  qed
  moreover have "set (newest_insert s xs) \<subseteq> insert s (set segs)" using new sub by blast
  ultimately show ?thesis
    using newest_insert_sorted [OF sorted] ids by (simp add: newest_inv_def newest_insert_ids)
qed

lemma newest_inv_of: "newest_inv segs (newest_of segs)"
  by (induction segs rule: rev_induct) (simp_all add: newest_of_def newest_inv_insert, simp add: newest_inv_def)

text \<open>The segments a document shows, in its order.\<close>

definition kept_segments :: "segment list \<Rightarrow> segment list" where
  "kept_segments segs = sort_key document_order (filter (\<lambda>s. trim (seg_text s) \<noteq> []) (newest_of segs))"

lemma from_segments_nth:
  "length (from_segments segs) = length (kept_segments segs)"
  "i < length (kept_segments segs) \<Longrightarrow> from_segments segs ! i = document_segment_of i (kept_segments segs ! i)"
  by (simp_all add: from_segments_def kept_segments_def Let_def nth_enumerate_eq)

lemma from_segments_sel:
  "(\<And>i s. f (document_segment_of i s) = g s) \<Longrightarrow> map f (from_segments segs) = map g (kept_segments segs)"
  by (rule nth_equalityI) (simp_all add: from_segments_nth)

lemma set_kept_segments:
  "set (kept_segments segs) = {s \<in> set (newest_of segs). trim (seg_text s) \<noteq> []}"
  by (simp add: kept_segments_def)

lemma newest_of_distinct: "distinct (map seg_id (newest_of segs))"
  using newest_inv_of [of segs] by (simp add: newest_inv_def strict_sorted_iff)

lemma kept_segments_distinct: "distinct (map seg_id (kept_segments segs))"
  using newest_of_distinct [of segs] by (simp add: kept_segments_def distinct_map inj_on_def)

lemma kept_segments_sorted: "sorted_wrt (<) (map document_order (kept_segments segs))"
proof -
  have "distinct (map document_order (kept_segments segs))"
    using kept_segments_distinct [of segs] by (auto simp: distinct_map document_order_def inj_on_def)
  then show ?thesis by (simp add: strict_sorted_iff kept_segments_def)
qed

lemma set_newest_of:
  assumes "inj_on (\<lambda>s. (seg_id s, revision s)) (set segs)"
  shows "set (newest_of segs)
    = {s \<in> set segs. \<forall>t \<in> set segs. seg_id t = seg_id s \<longrightarrow> revision t \<le> revision s}"
proof -
  have inv: "seg_id ` set (newest_of segs) = seg_id ` set segs" "set (newest_of segs) \<subseteq> set segs"
    "\<And>x s. x \<in> set (newest_of segs) \<Longrightarrow> s \<in> set segs \<Longrightarrow> seg_id s = seg_id x \<Longrightarrow> revision s \<le> revision x"
    using newest_inv_of [of segs] unfolding newest_inv_def by blast+
  have "s \<in> set (newest_of segs)"
    if s: "s \<in> set segs" and top: "\<forall>t \<in> set segs. seg_id t = seg_id s \<longrightarrow> revision t \<le> revision s" for s
  proof -
    obtain x where x: "x \<in> set (newest_of segs)" "seg_id x = seg_id s"
      using s inv(1) by (metis imageE imageI)
    then have "x \<in> set segs" "revision x = revision s" using inv(2,3) s top by (auto intro!: antisym)
    with assms x s have "x = s" by (auto simp: inj_on_def)
    with x show ?thesis by simp
  qed
  with inv show ?thesis by auto
qed

lemma newest_of_cong:
  assumes "set segs' = set segs" and "inj_on (\<lambda>s. (seg_id s, revision s)) (set segs)"
  shows "newest_of segs' = newest_of segs"
proof (rule map_sorted_distinct_set_unique [where f = seg_id])
  show eq: "set (newest_of segs') = set (newest_of segs)" using assms by (simp add: set_newest_of)
  show "inj_on seg_id (set (newest_of segs') \<union> set (newest_of segs))"
    using newest_of_distinct [of segs] eq by (simp add: distinct_map)
  show "sorted (map seg_id (newest_of segs'))" "sorted (map seg_id (newest_of segs))"
    using newest_inv_of [of segs] newest_inv_of [of segs'] by (simp_all add: newest_inv_def strict_sorted_iff)
qed (simp_all add: newest_of_distinct)

lemma from_segments_map:
  "from_segments segs = map (\<lambda>i. document_segment_of i (kept_segments segs ! i)) [0..<length (kept_segments segs)]"
  by (rule nth_equalityI) (simp_all add: from_segments_nth)

lemma document_indices: "map ds_index (from_segments segs) = all_indices (from_segments segs)"
  by (simp add: from_segments_map all_indices_def document_segment_of_def o_def)

lemma document_sorted: "sorted_wrt (<) (map (\<lambda>d. (ds_start_ms d, ds_segment_id d)) (from_segments segs))"
proof -
  have "map (\<lambda>d. (ds_start_ms d, ds_segment_id d)) (from_segments segs) = map document_order (kept_segments segs)"
    by (rule from_segments_sel) (simp add: document_segment_of_def document_order_def)
  then show ?thesis using kept_segments_sorted [of segs] by simp
qed

lemma document_distinct: "distinct (map ds_segment_id (from_segments segs))"
proof -
  have "map ds_segment_id (from_segments segs) = map seg_id (kept_segments segs)"
    by (rule from_segments_sel) (simp add: document_segment_of_def)
  then show ?thesis using kept_segments_distinct [of segs] by simp
qed

lemma document_block_newest:
  assumes "d \<in> set (from_segments segs)"
  shows "\<exists>s \<in> set segs. d = document_segment_of (ds_index d) s
    \<and> trim (seg_text s) \<noteq> [] \<and> (\<forall>t \<in> set segs. seg_id t = seg_id s \<longrightarrow> revision t \<le> revision s)"
proof -
  obtain i where i: "i < length (kept_segments segs)" "d = document_segment_of i (kept_segments segs ! i)"
    using assms unfolding from_segments_map by auto
  let ?s = "kept_segments segs ! i"
  have "?s \<in> set (newest_of segs)" "trim (seg_text ?s) \<noteq> []"
    using nth_mem [OF i(1)] by (simp_all add: set_kept_segments)
  moreover have "d = document_segment_of (ds_index d) ?s" using i(2) by (simp add: document_segment_of_def)
  ultimately show ?thesis using newest_inv_of [of segs] unfolding newest_inv_def by blast
qed

lemma newest_has_block:
  assumes "s \<in> set (newest_of segs)" and "trim (seg_text s) \<noteq> []"
  shows "\<exists>i. document_lookup (from_segments segs) i = Some (document_segment_of i s)"
proof -
  have "s \<in> set (kept_segments segs)" using assms by (simp add: set_kept_segments)
  then obtain i where "i < length (kept_segments segs)" "kept_segments segs ! i = s" by (auto simp: in_set_conv_nth)
  then show ?thesis by (auto simp: document_lookup_def from_segments_nth)
qed

text \<open>C40. Evidence ids are positions and do not depend on how the segments arrived. Block i of a document
  carries the index i; blocks are ordered by start and then by id, and no segment has two blocks; each
  block is the trimmed text of a segment that is not blank and whose revision is the newest of its id,
  and every such segment has a block unless another carries the same id and revision. When no two
  segments share an id and a revision, any order of the same segments gives the same document.\<close>

theorem evidence_ids_stable:
  "map ds_index (from_segments segs) = all_indices (from_segments segs)
    \<and> sorted_wrt (<) (map (\<lambda>d. (ds_start_ms d, ds_segment_id d)) (from_segments segs))
    \<and> distinct (map ds_segment_id (from_segments segs))
    \<and> (\<forall>d \<in> set (from_segments segs). \<exists>s \<in> set segs. d = document_segment_of (ds_index d) s
         \<and> trim (seg_text s) \<noteq> [] \<and> (\<forall>t \<in> set segs. seg_id t = seg_id s \<longrightarrow> revision t \<le> revision s))
    \<and> (inj_on (\<lambda>s. (seg_id s, revision s)) (set segs) \<longrightarrow>
         (\<forall>s \<in> set segs. trim (seg_text s) \<noteq> []
            \<and> (\<forall>t \<in> set segs. seg_id t = seg_id s \<longrightarrow> revision t \<le> revision s)
            \<longrightarrow> (\<exists>i. document_lookup (from_segments segs) i = Some (document_segment_of i s)))
         \<and> (\<forall>segs'. set segs' = set segs \<longrightarrow> from_segments segs' = from_segments segs))"
proof (intro conjI ballI impI allI)
  fix s assume inj: "inj_on (\<lambda>s. (seg_id s, revision s)) (set segs)" and s: "s \<in> set segs"
    and top: "trim (seg_text s) \<noteq> [] \<and> (\<forall>t \<in> set segs. seg_id t = seg_id s \<longrightarrow> revision t \<le> revision s)"
  have "s \<in> set (newest_of segs)" using s top unfolding set_newest_of [OF inj] by blast
  moreover have "trim (seg_text s) \<noteq> []" using top by blast
  ultimately show "\<exists>i. document_lookup (from_segments segs) i = Some (document_segment_of i s)"
    by (rule newest_has_block)
next
  fix segs' assume inj: "inj_on (\<lambda>s. (seg_id s, revision s)) (set segs)" and eq: "set segs' = set segs"
  show "from_segments segs' = from_segments segs"
    unfolding from_segments_def newest_of_cong [OF eq inj] by (rule refl)
next
  fix d assume "d \<in> set (from_segments segs)"
  then show "\<exists>s \<in> set segs. d = document_segment_of (ds_index d) s
      \<and> trim (seg_text s) \<noteq> [] \<and> (\<forall>t \<in> set segs. seg_id t = seg_id s \<longrightarrow> revision t \<le> revision s)"
    by (rule document_block_newest)
qed (rule document_indices document_sorted document_distinct)+

definition sample_segment :: "string \<Rightarrow> nat \<Rightarrow> string \<Rightarrow> segment" where
  "sample_segment sid r cs = (segment_new sid ''s'' Mic ''deepgram'' ''nova'')\<lparr>revision := r, seg_text := cs\<rparr>"

theorem evidence_ids_stable_witness:
  "from_segments [sample_segment ''b'' 0 ''so'', sample_segment ''a'' 0 ''we'', sample_segment ''a'' 1 '' we ship'']
     = from_segments [sample_segment ''a'' 1 '' we ship'', sample_segment ''a'' 0 ''we'', sample_segment ''b'' 0 ''so'']"
proof -
  let ?segs = "[sample_segment ''a'' 1 '' we ship'', sample_segment ''a'' 0 ''we'', sample_segment ''b'' 0 ''so'']"
  have "inj_on (\<lambda>s. (seg_id s, revision s)) (set ?segs)"
    by (simp add: inj_on_def sample_segment_def segment_new_def)
  note evidence_ids_stable [of ?segs, THEN conjunct2, THEN conjunct2, THEN conjunct2, THEN conjunct2, THEN mp,
      OF this, THEN conjunct2]
  then show ?thesis by (rule allE) (erule mp, auto simp only: set_simps insert_commute)
qed

end
