(* ===== verification/Evidence.thy ===== *)
theory Evidence
  imports Summary_Plan
begin

text \<open>
  The evidence validator (\<^verbatim>\<open>crates/fotw-summarize/src/validate.rs\<close>) over the extraction a
  model returns (\<^verbatim>\<open>schema.rs\<close>). Nothing a model claims is kept unless the transcript supports
  it; what is dropped or nulled is reported. The Unicode tables of letters and case are a
  parameter: predicates on the bytes of one character, and the lowercase form of a word.
\<close>

section \<open>The extraction\<close>

datatype confidence = Explicit | Implied

record action_item =
  ai_text :: string
  ai_owner :: "string option"
  ai_due :: "string option"
  ai_due_raw :: "string option"
  ai_confidence :: confidence
  ai_ids :: "nat list"
  ai_quote :: string

record decision =
  de_text :: string
  de_alternatives :: "string list"
  de_confidence :: confidence
  de_ids :: "nat list"
  de_quote :: string

record open_question =
  oq_text :: string
  oq_raised_by :: "string option"
  oq_confidence :: confidence
  oq_ids :: "nat list"
  oq_quote :: string

record follow_up =
  fu_text :: string
  fu_blocked_on :: "string option"
  fu_confidence :: confidence
  fu_ids :: "nat list"
  fu_quote :: string

record topic =
  tp_label :: string
  tp_start :: nat

record extraction =
  action_items :: "action_item list"
  decisions :: "decision list"
  open_questions :: "open_question list"
  follow_ups :: "follow_up list"
  topics :: "topic list"

definition extraction_default :: extraction where
  "extraction_default = \<lparr>action_items = [], decisions = [], open_questions = [], follow_ups = [], topics = []\<rparr>"

definition item_count :: "extraction \<Rightarrow> nat" where
  "item_count ex = length (action_items ex) + length (decisions ex) + length (open_questions ex) + length (follow_ups ex)"

datatype item_kind = ActionItem | Decision | OpenQuestion | FollowUp | Topic

section \<open>The report\<close>

record validator_config =
  min_speaker_confidence :: f64

datatype drop_reason = NoEvidence | UnknownSegmentId nat | QuoteNotInCitedSegments

datatype adjustment = OwnerUnverifiable | OwnerLowConfidence | DueUnverifiable

record dropped_item =
  di_kind :: item_kind
  di_text :: string
  di_reason :: drop_reason

record adjusted_item =
  ad_kind :: item_kind
  ad_text :: string
  ad_adjustment :: adjustment

record validation_report =
  vr_extraction :: extraction
  vr_dropped :: "dropped_item list"
  vr_adjusted :: "adjusted_item list"

definition drop_count :: "validation_report \<Rightarrow> nat" where
  "drop_count r = length (vr_dropped r)"

definition drop_notice :: "validation_report \<Rightarrow> string option" where
  "drop_notice r =
     (let count = drop_count r
      in if count = 0 then None
         else let plural = (if count = 1 then ''item'' else ''items'')
              in Some (show_nat count @ '' candidate '' @ plural
                   @ '' had no verifiable evidence and were hidden '' @ em_dash @ '' show anyway?''))"

section \<open>Text and confidence\<close>

record case_tables =
  alphanumeric :: "string \<Rightarrow> bool"
  uppercase :: "string \<Rightarrow> bool"
  to_lowercase :: "string \<Rightarrow> string"

definition normalize :: "case_tables \<Rightarrow> string \<Rightarrow> string" where
  "normalize tabs cs = join_with '' '' (map (to_lowercase tabs) (words_of cs))"

definition ends_sentence :: "string \<Rightarrow> bool" where
  "ends_sentence token \<longleftrightarrow> token \<noteq> [] \<and> last token \<in> {CHR ''.'', CHR ''!'', CHR ''?''}"

fun proper_nouns_loop :: "case_tables \<Rightarrow> bool \<Rightarrow> string list \<Rightarrow> string list" where
  "proper_nouns_loop tabs at_sentence_start [] = []"
| "proper_nouns_loop tabs at_sentence_start (token # tokens) =
     (let trimmed = trim_matches (\<lambda>c. \<not> alphanumeric tabs c) token
      in if trimmed = [] then proper_nouns_loop tabs (at_sentence_start \<or> ends_sentence token) tokens
         else let starts_upper = uppercase tabs (hd (utf8_chars trimmed))
              in (if starts_upper \<and> \<not> at_sentence_start then [to_lowercase tabs trimmed] else [])
                   @ proper_nouns_loop tabs (ends_sentence token) tokens)"

definition proper_nouns :: "case_tables \<Rightarrow> string \<Rightarrow> string set" where
  "proper_nouns tabs cs = set (proper_nouns_loop tabs True (words_of cs))"

text \<open>\<^verbatim>\<open>f64::min\<close> ignores a NaN; a comparison with one is false.\<close>

fun f64_less :: "f64 \<Rightarrow> f64 \<Rightarrow> bool" where
  "f64_less (Finite a) (Finite b) = (a < b)"
| "f64_less NegInf (Finite b) = True"
| "f64_less NegInf PosInf = True"
| "f64_less (Finite a) PosInf = True"
| "f64_less _ _ = False"

definition f64_min :: "f64 \<Rightarrow> f64 \<Rightarrow> f64" where
  "f64_min a b = (if a = NaN then b else if b = NaN then a else if f64_less b a then b else a)"

section \<open>The four rules\<close>

record cited_segments =
  cs_text :: string
  cs_normalized :: string
  cs_min_confidence :: f64

definition drop_item :: "validation_report \<Rightarrow> item_kind \<Rightarrow> string \<Rightarrow> drop_reason \<Rightarrow> validation_report" where
  "drop_item r kind txt reason =
     r\<lparr>vr_dropped := vr_dropped r @ [\<lparr>di_kind = kind, di_text = txt, di_reason = reason\<rparr>]\<rparr>"

definition min_confidence_of :: "document_segment list \<Rightarrow> nat list \<Rightarrow> f64" where
  "min_confidence_of doc ids =
     foldl f64_min PosInf (List.map_filter (\<lambda>i. Option.bind (document_lookup doc i) ds_confidence) ids)"

definition check_evidence ::
  "case_tables \<Rightarrow> validation_report \<Rightarrow> item_kind \<Rightarrow> string \<Rightarrow> nat list \<Rightarrow> string \<Rightarrow> document_segment list
     \<Rightarrow> validation_report \<times> cited_segments option" where
  "check_evidence tabs r kind txt ids quote doc =
     (if ids = [] then (drop_item r kind txt NoEvidence, None)
      else case find (\<lambda>i. document_lookup doc i = None) ids of
        Some i \<Rightarrow> (drop_item r kind txt (UnknownSegmentId i), None)
      | None \<Rightarrow>
          (case concatenated_text doc ids of
             None \<Rightarrow> (drop_item r kind txt NoEvidence, None)
           | Some concatenated \<Rightarrow>
               (let normalized = normalize tabs concatenated
                in if \<not> contains normalized (normalize tabs quote)
                   then (drop_item r kind txt QuoteNotInCitedSegments, None)
                   else (r, Some \<lparr>cs_text = concatenated, cs_normalized = normalized,
                                  cs_min_confidence = min_confidence_of doc ids\<rparr>))))"

definition record_adjustment ::
  "validation_report \<Rightarrow> item_kind \<Rightarrow> string \<Rightarrow> adjustment \<Rightarrow> validation_report" where
  "record_adjustment r kind txt adj =
     r\<lparr>vr_adjusted := vr_adjusted r @ [\<lparr>ad_kind = kind, ad_text = txt, ad_adjustment = adj\<rparr>]\<rparr>"

definition unverifiable_owner ::
  "case_tables \<Rightarrow> string \<Rightarrow> cited_segments \<Rightarrow> string list \<Rightarrow> validator_config \<Rightarrow> adjustment option" where
  "unverifiable_owner tabs owner cited speakers cfg =
     (if f64_less (cs_min_confidence cited) (min_speaker_confidence cfg) then Some OwnerLowConfidence
      else let owner_normalized = normalize tabs owner
           in if owner_normalized = [] then Some OwnerUnverifiable
              else if list_ex (\<lambda>label. normalize tabs label = owner_normalized) speakers then None
              else if list_all (\<lambda>word. word \<in> proper_nouns tabs (cs_text cited)) (words_of owner_normalized) then None
              else Some OwnerUnverifiable)"

fun due_is_verifiable :: "case_tables \<Rightarrow> string option \<Rightarrow> cited_segments \<Rightarrow> bool" where
  "due_is_verifiable tabs None cited = False"
| "due_is_verifiable tabs (Some raw) cited =
     (let normalized = normalize tabs raw in normalized \<noteq> [] \<and> contains (cs_normalized cited) normalized)"

section \<open>The validator\<close>

definition settle_owner ::
  "case_tables \<Rightarrow> validator_config \<Rightarrow> string list \<Rightarrow> cited_segments \<Rightarrow> validation_report \<times> action_item
     \<Rightarrow> validation_report \<times> action_item" where
  "settle_owner tabs cfg speakers cited s =
     (case s of (r, item) \<Rightarrow>
        case ai_owner item of
          None \<Rightarrow> (r, item)
        | Some owner \<Rightarrow>
            (case unverifiable_owner tabs owner cited speakers cfg of
               None \<Rightarrow> (r, item)
             | Some adj \<Rightarrow>
                 (record_adjustment r ActionItem (ai_text item) adj,
                  item\<lparr>ai_owner := None, ai_confidence := Implied\<rparr>)))"

definition settle_due ::
  "case_tables \<Rightarrow> cited_segments \<Rightarrow> validation_report \<times> action_item \<Rightarrow> validation_report \<times> action_item" where
  "settle_due tabs cited s =
     (case s of (r, item) \<Rightarrow>
        if ai_due item \<noteq> None \<and> \<not> due_is_verifiable tabs (ai_due_raw item) cited
        then (record_adjustment r ActionItem (ai_text item) DueUnverifiable,
              item\<lparr>ai_due := None, ai_due_raw := None, ai_confidence := Implied\<rparr>)
        else (r, item))"

definition validate_action ::
  "case_tables \<Rightarrow> validator_config \<Rightarrow> document_segment list \<Rightarrow> string list
     \<Rightarrow> validation_report \<Rightarrow> action_item \<Rightarrow> validation_report" where
  "validate_action tabs cfg doc speakers r item =
     (case check_evidence tabs r ActionItem (ai_text item) (ai_ids item) (ai_quote item) doc of
        (r, None) \<Rightarrow> r
      | (r, Some cited) \<Rightarrow>
          (case settle_due tabs cited (settle_owner tabs cfg speakers cited (r, item)) of
             (r, item) \<Rightarrow>
               r\<lparr>vr_extraction := (vr_extraction r)\<lparr>action_items := action_items (vr_extraction r) @ [item]\<rparr>\<rparr>))"

definition validate_decision ::
  "case_tables \<Rightarrow> document_segment list \<Rightarrow> validation_report \<Rightarrow> decision \<Rightarrow> validation_report" where
  "validate_decision tabs doc r item =
     (case check_evidence tabs r Decision (de_text item) (de_ids item) (de_quote item) doc of
        (r, None) \<Rightarrow> r
      | (r, Some cited) \<Rightarrow>
          r\<lparr>vr_extraction := (vr_extraction r)\<lparr>decisions := decisions (vr_extraction r) @ [item]\<rparr>\<rparr>)"

definition settle_raised_by ::
  "case_tables \<Rightarrow> validator_config \<Rightarrow> string list \<Rightarrow> cited_segments \<Rightarrow> validation_report \<times> open_question
     \<Rightarrow> validation_report \<times> open_question" where
  "settle_raised_by tabs cfg speakers cited s =
     (case s of (r, item) \<Rightarrow>
        case oq_raised_by item of
          None \<Rightarrow> (r, item)
        | Some raised_by \<Rightarrow>
            (case unverifiable_owner tabs raised_by cited speakers cfg of
               None \<Rightarrow> (r, item)
             | Some adj \<Rightarrow>
                 (record_adjustment r OpenQuestion (oq_text item) adj,
                  item\<lparr>oq_raised_by := None, oq_confidence := Implied\<rparr>)))"

definition validate_question ::
  "case_tables \<Rightarrow> validator_config \<Rightarrow> document_segment list \<Rightarrow> string list
     \<Rightarrow> validation_report \<Rightarrow> open_question \<Rightarrow> validation_report" where
  "validate_question tabs cfg doc speakers r item =
     (case check_evidence tabs r OpenQuestion (oq_text item) (oq_ids item) (oq_quote item) doc of
        (r, None) \<Rightarrow> r
      | (r, Some cited) \<Rightarrow>
          (case settle_raised_by tabs cfg speakers cited (r, item) of
             (r, item) \<Rightarrow>
               r\<lparr>vr_extraction := (vr_extraction r)\<lparr>open_questions := open_questions (vr_extraction r) @ [item]\<rparr>\<rparr>))"

definition validate_follow_up ::
  "case_tables \<Rightarrow> document_segment list \<Rightarrow> validation_report \<Rightarrow> follow_up \<Rightarrow> validation_report" where
  "validate_follow_up tabs doc r item =
     (case check_evidence tabs r FollowUp (fu_text item) (fu_ids item) (fu_quote item) doc of
        (r, None) \<Rightarrow> r
      | (r, Some cited) \<Rightarrow>
          r\<lparr>vr_extraction := (vr_extraction r)\<lparr>follow_ups := follow_ups (vr_extraction r) @ [item]\<rparr>\<rparr>)"

definition validate_topic :: "document_segment list \<Rightarrow> validation_report \<Rightarrow> topic \<Rightarrow> validation_report" where
  "validate_topic doc r t =
     (if document_lookup doc (tp_start t) \<noteq> None
      then r\<lparr>vr_extraction := (vr_extraction r)\<lparr>topics := topics (vr_extraction r) @ [t]\<rparr>\<rparr>
      else drop_item r Topic (tp_label t) (UnknownSegmentId (tp_start t)))"

definition validate ::
  "case_tables \<Rightarrow> extraction \<Rightarrow> document_segment list \<Rightarrow> validator_config \<Rightarrow> validation_report" where
  "validate tabs ex doc cfg =
     (let r = \<lparr>vr_extraction = extraction_default, vr_dropped = [], vr_adjusted = []\<rparr>;
          speakers = speaker_labels doc;
          r = foldl (validate_action tabs cfg doc speakers) r (action_items ex);
          r = foldl (validate_decision tabs doc) r (decisions ex);
          r = foldl (validate_question tabs cfg doc speakers) r (open_questions ex);
          r = foldl (validate_follow_up tabs doc) r (follow_ups ex)
      in foldl (validate_topic doc) r (topics ex))"

section \<open>Grounding\<close>

text \<open>The words of the cited segments.\<close>

definition cited_text :: "document_segment list \<Rightarrow> nat list \<Rightarrow> string" where
  "cited_text doc ids = join_with '' '' (map (\<lambda>i. ds_text (doc ! i)) ids)"

text \<open>An item is grounded when it cites something, everything it cites exists, and its quote is there.\<close>

definition grounded :: "case_tables \<Rightarrow> document_segment list \<Rightarrow> nat list \<Rightarrow> string \<Rightarrow> bool" where
  "grounded tabs doc ids quote \<longleftrightarrow> ids \<noteq> [] \<and> (\<forall>i \<in> set ids. i < length doc)
     \<and> sublist (normalize tabs quote) (normalize tabs (cited_text doc ids))"

definition cited_of :: "case_tables \<Rightarrow> document_segment list \<Rightarrow> nat list \<Rightarrow> cited_segments" where
  "cited_of tabs doc ids = \<lparr>cs_text = cited_text doc ids, cs_normalized = normalize tabs (cited_text doc ids),
     cs_min_confidence = min_confidence_of doc ids\<rparr>"

lemma document_lookup_iff [simp]:
  "document_lookup doc i = None \<longleftrightarrow> length doc \<le> i"
  "document_lookup doc i = Some d \<longleftrightarrow> i < length doc \<and> d = doc ! i"
  by (auto simp: document_lookup_def)

lemma texts_of_known: "\<forall>i \<in> set ids. i < length doc \<Longrightarrow> texts_of doc ids = Some (map (\<lambda>i. ds_text (doc ! i)) ids)"
  by (induction ids) (auto simp: document_lookup_def)

lemma check_evidence_grounded:
  "grounded tabs doc ids quote \<Longrightarrow> check_evidence tabs r kind txt ids quote doc = (r, Some (cited_of tabs doc ids))"
proof -
  assume g: "grounded tabs doc ids quote"
  then have "find (\<lambda>i. document_lookup doc i = None) ids = None"
    by (auto simp: grounded_def find_None_iff not_le)
  with g show ?thesis
    by (simp add: check_evidence_def grounded_def concatenated_text_def texts_of_known cited_of_def cited_text_def contains_iff)
qed

lemma check_evidence_refused:
  assumes "\<not> grounded tabs doc ids quote"
  shows "\<exists>reason. check_evidence tabs r kind txt ids quote doc = (drop_item r kind txt reason, None)"
proof (cases "find (\<lambda>i. document_lookup doc i = None) ids")
  case None
  then have "\<forall>i \<in> set ids. i < length doc" by (auto simp: find_None_iff not_le)
  with None assms show ?thesis
    by (auto simp: check_evidence_def grounded_def concatenated_text_def texts_of_known cited_text_def contains_iff)
next
  case (Some i)
  then show ?thesis by (auto simp: check_evidence_def)
qed

text \<open>What one pass of the validator over a list promises: each item is appended, settled, or reported.\<close>

locale evidence_pass =
  fixes pass :: "validation_report \<Rightarrow> 'i \<Rightarrow> validation_report"
    and add :: "extraction \<Rightarrow> 'i list \<Rightarrow> extraction"
    and keep :: "'i \<Rightarrow> bool" and settle :: "'i \<Rightarrow> 'i"
  assumes add_Nil: "add ex [] = ex"
    and add_append: "add (add ex xs) ys = add ex (xs @ ys)"
    and kept: "keep x \<Longrightarrow> vr_extraction (pass r x) = add (vr_extraction r) [settle x] \<and> vr_dropped (pass r x) = vr_dropped r"
    and refused: "\<not> keep x \<Longrightarrow> vr_extraction (pass r x) = vr_extraction r
      \<and> length (vr_dropped (pass r x)) = Suc (length (vr_dropped r))"
begin

lemma pass_all:
  "vr_extraction (foldl pass r xs) = add (vr_extraction r) (map settle (filter keep xs))"
  "length (vr_dropped (foldl pass r xs)) = length (vr_dropped r) + length (filter (\<lambda>x. \<not> keep x) xs)"
proof (induction xs arbitrary: r)
  case (Cons x xs)
  { case 1 show ?case using Cons.IH(1) [of "pass r x"] kept [of x r] refused [of x r] by (cases "keep x") (simp_all add: add_append) }
  { case 2 show ?case using Cons.IH(2) [of "pass r x"] kept [of x r] refused [of x r] by (cases "keep x") simp_all }
qed (simp_all add: add_Nil)

end

definition settled_action ::
  "case_tables \<Rightarrow> validator_config \<Rightarrow> document_segment list \<Rightarrow> string list \<Rightarrow> action_item \<Rightarrow> action_item" where
  "settled_action tabs cfg doc speakers item =
     (let cited = cited_of tabs doc (ai_ids item);
          r = \<lparr>vr_extraction = extraction_default, vr_dropped = [], vr_adjusted = []\<rparr>
      in snd (settle_due tabs cited (settle_owner tabs cfg speakers cited (r, item))))"

definition settled_question ::
  "case_tables \<Rightarrow> validator_config \<Rightarrow> document_segment list \<Rightarrow> string list \<Rightarrow> open_question \<Rightarrow> open_question" where
  "settled_question tabs cfg doc speakers item =
     (let r = \<lparr>vr_extraction = extraction_default, vr_dropped = [], vr_adjusted = []\<rparr>
      in snd (settle_raised_by tabs cfg speakers (cited_of tabs doc (oq_ids item)) (r, item)))"

lemma drop_item_simps [simp]:
  "vr_extraction (drop_item r kind txt reason) = vr_extraction r"
  "length (vr_dropped (drop_item r kind txt reason)) = Suc (length (vr_dropped r))"
  by (simp_all add: drop_item_def)

lemma settle_simps:
  "vr_extraction (fst (settle_owner tabs cfg speakers cited s)) = vr_extraction (fst s)"
  "vr_dropped (fst (settle_owner tabs cfg speakers cited s)) = vr_dropped (fst s)"
  "vr_extraction (fst (settle_due tabs cited s)) = vr_extraction (fst s)"
  "vr_dropped (fst (settle_due tabs cited s)) = vr_dropped (fst s)"
  "vr_extraction (fst (settle_raised_by tabs cfg speakers cited q)) = vr_extraction (fst q)"
  "vr_dropped (fst (settle_raised_by tabs cfg speakers cited q)) = vr_dropped (fst q)"
  by (auto simp: settle_owner_def settle_due_def settle_raised_by_def record_adjustment_def split: prod.splits option.splits)

lemma settle_report:
  "snd (settle_due tabs cited (settle_owner tabs cfg speakers cited (r, item)))
     = snd (settle_due tabs cited (settle_owner tabs cfg speakers cited (r', item)))"
  "snd (settle_raised_by tabs cfg speakers cited (r, q)) = snd (settle_raised_by tabs cfg speakers cited (r', q))"
  by (auto simp: settle_owner_def settle_due_def settle_raised_by_def split: prod.splits option.splits)

interpretation action_pass: evidence_pass "validate_action tabs cfg doc speakers"
  "\<lambda>ex xs. ex\<lparr>action_items := action_items ex @ xs\<rparr>" "\<lambda>a. grounded tabs doc (ai_ids a) (ai_quote a)"
  "settled_action tabs cfg doc speakers" for tabs cfg doc speakers
proof unfold_locales
  fix r and a :: action_item
  assume "grounded tabs doc (ai_ids a) (ai_quote a)"
  note ce = check_evidence_grounded [OF this, of r ActionItem "ai_text a"]
  show "vr_extraction (validate_action tabs cfg doc speakers r a)
      = (vr_extraction r)\<lparr>action_items := action_items (vr_extraction r) @ [settled_action tabs cfg doc speakers a]\<rparr>
    \<and> vr_dropped (validate_action tabs cfg doc speakers r a) = vr_dropped r"
    unfolding settled_action_def Let_def
    by (simp add: validate_action_def ce case_prod_unfold settle_simps settle_report(1) [of tabs _ cfg speakers r])
next
  fix r and a :: action_item
  assume "\<not> grounded tabs doc (ai_ids a) (ai_quote a)"
  from check_evidence_refused [OF this, of r ActionItem "ai_text a"]
  show "vr_extraction (validate_action tabs cfg doc speakers r a) = vr_extraction r
    \<and> length (vr_dropped (validate_action tabs cfg doc speakers r a)) = Suc (length (vr_dropped r))"
    by (auto simp: validate_action_def)
qed simp_all

interpretation decision_pass: evidence_pass "validate_decision tabs doc"
  "\<lambda>ex xs. ex\<lparr>decisions := decisions ex @ xs\<rparr>" "\<lambda>a. grounded tabs doc (de_ids a) (de_quote a)" "\<lambda>a. a" for tabs doc
proof unfold_locales
  fix r and a :: decision
  assume "\<not> grounded tabs doc (de_ids a) (de_quote a)"
  from check_evidence_refused [OF this, of r Decision "de_text a"]
  show "vr_extraction (validate_decision tabs doc r a) = vr_extraction r
    \<and> length (vr_dropped (validate_decision tabs doc r a)) = Suc (length (vr_dropped r))"
    by (auto simp: validate_decision_def)
qed (simp_all add: validate_decision_def check_evidence_grounded)

interpretation follow_up_pass: evidence_pass "validate_follow_up tabs doc"
  "\<lambda>ex xs. ex\<lparr>follow_ups := follow_ups ex @ xs\<rparr>" "\<lambda>a. grounded tabs doc (fu_ids a) (fu_quote a)" "\<lambda>a. a" for tabs doc
proof unfold_locales
  fix r and a :: follow_up
  assume "\<not> grounded tabs doc (fu_ids a) (fu_quote a)"
  from check_evidence_refused [OF this, of r FollowUp "fu_text a"]
  show "vr_extraction (validate_follow_up tabs doc r a) = vr_extraction r
    \<and> length (vr_dropped (validate_follow_up tabs doc r a)) = Suc (length (vr_dropped r))"
    by (auto simp: validate_follow_up_def)
qed (simp_all add: validate_follow_up_def check_evidence_grounded)

interpretation question_pass: evidence_pass "validate_question tabs cfg doc speakers"
  "\<lambda>ex xs. ex\<lparr>open_questions := open_questions ex @ xs\<rparr>" "\<lambda>a. grounded tabs doc (oq_ids a) (oq_quote a)"
  "settled_question tabs cfg doc speakers" for tabs cfg doc speakers
proof unfold_locales
  fix r and a :: open_question
  assume "grounded tabs doc (oq_ids a) (oq_quote a)"
  note ce = check_evidence_grounded [OF this, of r OpenQuestion "oq_text a"]
  show "vr_extraction (validate_question tabs cfg doc speakers r a)
      = (vr_extraction r)\<lparr>open_questions := open_questions (vr_extraction r) @ [settled_question tabs cfg doc speakers a]\<rparr>
    \<and> vr_dropped (validate_question tabs cfg doc speakers r a) = vr_dropped r"
    unfolding settled_question_def Let_def
    by (simp add: validate_question_def ce case_prod_unfold settle_simps settle_report(2) [of tabs cfg speakers _ r])
next
  fix r and a :: open_question
  assume "\<not> grounded tabs doc (oq_ids a) (oq_quote a)"
  from check_evidence_refused [OF this, of r OpenQuestion "oq_text a"]
  show "vr_extraction (validate_question tabs cfg doc speakers r a) = vr_extraction r
    \<and> length (vr_dropped (validate_question tabs cfg doc speakers r a)) = Suc (length (vr_dropped r))"
    by (auto simp: validate_question_def)
qed simp_all

interpretation topic_pass: evidence_pass "validate_topic doc"
  "\<lambda>ex xs. ex\<lparr>topics := topics ex @ xs\<rparr>" "\<lambda>t. tp_start t < length doc" "\<lambda>t. t" for doc
  by unfold_locales (simp_all add: validate_topic_def)

lemma validate_extraction:
  "vr_extraction (validate tabs ex doc cfg) =
     \<lparr>action_items = map (settled_action tabs cfg doc (speaker_labels doc))
        (filter (\<lambda>a. grounded tabs doc (ai_ids a) (ai_quote a)) (action_items ex)),
      decisions = filter (\<lambda>a. grounded tabs doc (de_ids a) (de_quote a)) (decisions ex),
      open_questions = map (settled_question tabs cfg doc (speaker_labels doc))
        (filter (\<lambda>a. grounded tabs doc (oq_ids a) (oq_quote a)) (open_questions ex)),
      follow_ups = filter (\<lambda>a. grounded tabs doc (fu_ids a) (fu_quote a)) (follow_ups ex),
      topics = filter (\<lambda>t. tp_start t < length doc) (topics ex)\<rparr>"
  by (simp add: validate_def Let_def action_pass.pass_all decision_pass.pass_all question_pass.pass_all
      follow_up_pass.pass_all topic_pass.pass_all extraction_default_def)

lemma validate_accounts:
  "item_count (vr_extraction (validate tabs ex doc cfg)) + length (topics (vr_extraction (validate tabs ex doc cfg)))
     + drop_count (validate tabs ex doc cfg) = item_count ex + length (topics ex)"
proof -
  have "drop_count (validate tabs ex doc cfg) =
      length (filter (\<lambda>a. \<not> grounded tabs doc (ai_ids a) (ai_quote a)) (action_items ex))
    + length (filter (\<lambda>a. \<not> grounded tabs doc (de_ids a) (de_quote a)) (decisions ex))
    + length (filter (\<lambda>a. \<not> grounded tabs doc (oq_ids a) (oq_quote a)) (open_questions ex))
    + length (filter (\<lambda>a. \<not> grounded tabs doc (fu_ids a) (fu_quote a)) (follow_ups ex))
    + length (filter (\<lambda>t. \<not> tp_start t < length doc) (topics ex))"
    by (simp add: drop_count_def validate_def Let_def action_pass.pass_all decision_pass.pass_all
        question_pass.pass_all follow_up_pass.pass_all topic_pass.pass_all)
  then show ?thesis
    using sum_length_filter_compl [of "\<lambda>a. grounded tabs doc (ai_ids a) (ai_quote a)" "action_items ex"]
      sum_length_filter_compl [of "\<lambda>a. grounded tabs doc (de_ids a) (de_quote a)" "decisions ex"]
      sum_length_filter_compl [of "\<lambda>a. grounded tabs doc (oq_ids a) (oq_quote a)" "open_questions ex"]
      sum_length_filter_compl [of "\<lambda>a. grounded tabs doc (fu_ids a) (fu_quote a)" "follow_ups ex"]
      sum_length_filter_compl [of "\<lambda>t. tp_start t < length doc" "topics ex"]
    by (simp add: validate_extraction item_count_def)
qed

text \<open>
  Someone can be named for an item when no cited segment has a reported confidence below the
  threshold and the name is a speaker of the document or made of proper nouns of the cited text.
  A date stands when the phrase it was resolved from is in the cited text.
\<close>

definition attributable ::
  "case_tables \<Rightarrow> validator_config \<Rightarrow> document_segment list \<Rightarrow> nat list \<Rightarrow> string \<Rightarrow> bool" where
  "attributable tabs cfg doc ids who \<longleftrightarrow>
     (\<forall>i \<in> set ids. \<forall>c. ds_confidence (doc ! i) = Some c \<longrightarrow> \<not> f64_less c (min_speaker_confidence cfg))
     \<and> normalize tabs who \<noteq> []
     \<and> ((\<exists>d \<in> set doc. normalize tabs (speaker_label d) = normalize tabs who)
        \<or> set (words_of (normalize tabs who)) \<subseteq> proper_nouns tabs (cited_text doc ids))"

definition dated :: "case_tables \<Rightarrow> document_segment list \<Rightarrow> nat list \<Rightarrow> string option \<Rightarrow> bool" where
  "dated tabs doc ids due_raw \<longleftrightarrow>
     (\<exists>raw. due_raw = Some raw \<and> normalize tabs raw \<noteq> []
        \<and> sublist (normalize tabs raw) (normalize tabs (cited_text doc ids)))"

definition verified_action :: "case_tables \<Rightarrow> validator_config \<Rightarrow> document_segment list \<Rightarrow> action_item \<Rightarrow> action_item" where
  "verified_action tabs cfg doc a =
     (let owner_ok = (\<forall>w. ai_owner a = Some w \<longrightarrow> attributable tabs cfg doc (ai_ids a) w);
          due_ok = (ai_due a = None \<or> dated tabs doc (ai_ids a) (ai_due_raw a))
      in a\<lparr>ai_owner := (if owner_ok then ai_owner a else None),
           ai_due := (if due_ok then ai_due a else None),
           ai_due_raw := (if due_ok then ai_due_raw a else None),
           ai_confidence := (if owner_ok \<and> due_ok then ai_confidence a else Implied)\<rparr>)"

definition verified_question :: "case_tables \<Rightarrow> validator_config \<Rightarrow> document_segment list \<Rightarrow> open_question \<Rightarrow> open_question" where
  "verified_question tabs cfg doc q =
     (if \<forall>w. oq_raised_by q = Some w \<longrightarrow> attributable tabs cfg doc (oq_ids q) w then q
      else q\<lparr>oq_raised_by := None, oq_confidence := Implied\<rparr>)"

lemma f64_less_min: "f64_less (f64_min a b) t \<longleftrightarrow> f64_less a t \<or> f64_less b t"
  by (cases a; cases b; cases t) (auto simp: f64_min_def)

lemma f64_less_foldl: "f64_less (foldl f64_min a cs) t \<longleftrightarrow> f64_less a t \<or> (\<exists>c \<in> set cs. f64_less c t)"
  by (induction cs arbitrary: a) (auto simp: f64_less_min)

lemma min_confidence_low:
  assumes "\<forall>i \<in> set ids. i < length doc"
  shows "f64_less (min_confidence_of doc ids) t \<longleftrightarrow> (\<exists>i \<in> set ids. \<exists>c. ds_confidence (doc ! i) = Some c \<and> f64_less c t)"
proof -
  have "\<not> f64_less PosInf t" by (cases t) simp_all
  moreover have "set (List.map_filter (\<lambda>i. Option.bind (document_lookup doc i) ds_confidence) ids)
      = {c. \<exists>i \<in> set ids. ds_confidence (doc ! i) = Some c}"
    using assms
    by (induction ids) (auto simp: map_filter_simps document_lookup_def split: option.splits)
  ultimately show ?thesis unfolding min_confidence_of_def f64_less_foldl by auto
qed

lemma set_speaker_labels: "set (speaker_labels doc) = speaker_label ` set doc"
  by (simp add: speaker_labels_def)

lemma unverifiable_owner_None:
  assumes "\<forall>i \<in> set ids. i < length doc"
  shows "unverifiable_owner tabs w (cited_of tabs doc ids) (speaker_labels doc) cfg = None
    \<longleftrightarrow> attributable tabs cfg doc ids w"
  using min_confidence_low [OF assms]
  by (auto simp: unverifiable_owner_def cited_of_def attributable_def Let_def list_ex_iff list_all_iff set_speaker_labels)

lemma due_is_verifiable_iff: "due_is_verifiable tabs raw (cited_of tabs doc ids) \<longleftrightarrow> dated tabs doc ids raw"
  by (cases raw) (auto simp: dated_def cited_of_def contains_iff Let_def)

lemma settled_action_verified:
  assumes "grounded tabs doc (ai_ids a) (ai_quote a)"
  shows "settled_action tabs cfg doc (speaker_labels doc) a = verified_action tabs cfg doc a"
proof -
  have "\<forall>i \<in> set (ai_ids a). i < length doc" using assms by (simp add: grounded_def)
  note owner = unverifiable_owner_None [OF this, of tabs _ cfg]
  show ?thesis
  proof (cases "ai_owner a")
    case None
    then show ?thesis
      by (simp add: settled_action_def verified_action_def settle_owner_def settle_due_def due_is_verifiable_iff Let_def)
  next
    case (Some w)
    with owner [of w] show ?thesis
      by (cases "unverifiable_owner tabs w (cited_of tabs doc (ai_ids a)) (speaker_labels doc) cfg")
        (simp_all add: settled_action_def verified_action_def settle_owner_def settle_due_def due_is_verifiable_iff Let_def)
  qed
qed

lemma settled_question_verified:
  assumes "grounded tabs doc (oq_ids q) (oq_quote q)"
  shows "settled_question tabs cfg doc (speaker_labels doc) q = verified_question tabs cfg doc q"
proof -
  have "\<forall>i \<in> set (oq_ids q). i < length doc" using assms by (simp add: grounded_def)
  note owner = unverifiable_owner_None [OF this, of tabs _ cfg]
  show ?thesis
  proof (cases "oq_raised_by q")
    case (Some w)
    with owner [of w] show ?thesis
      by (cases "unverifiable_owner tabs w (cited_of tabs doc (oq_ids q)) (speaker_labels doc) cfg")
        (simp_all add: settled_question_def verified_question_def settle_raised_by_def Let_def)
  qed (simp add: settled_question_def verified_question_def settle_raised_by_def Let_def)
qed


end
