(* ===== verification/Sha256.thy ===== *)
theory Sha256
  imports Octets
begin

text \<open>
  The content hash of a prompt (\<^verbatim>\<open>crates/fotw-summarize/src/hash.rs\<close>): padding, the message
  schedule filled in place, the rounds and the digest, on 32-bit words. It is compared with the
  definition of FIPS 180-4, whose constants are given there by the roots of primes.
\<close>

unbundle bit_operations_syntax

section \<open>The code\<close>

text \<open>The literals of the tables are written in two halves, \<^verbatim>\<open>0x428a_2f98\<close>.\<close>

definition u32_literal :: "32 word \<Rightarrow> 32 word \<Rightarrow> 32 word" where
  "u32_literal high low = push_bit 16 high OR low"

definition K :: "32 word list" where
  "K = [u32_literal 0x428a 0x2f98, u32_literal 0x7137 0x4491, u32_literal 0xb5c0 0xfbcf, u32_literal 0xe9b5 0xdba5,
     u32_literal 0x3956 0xc25b, u32_literal 0x59f1 0x11f1, u32_literal 0x923f 0x82a4, u32_literal 0xab1c 0x5ed5,
     u32_literal 0xd807 0xaa98, u32_literal 0x1283 0x5b01, u32_literal 0x2431 0x85be, u32_literal 0x550c 0x7dc3,
     u32_literal 0x72be 0x5d74, u32_literal 0x80de 0xb1fe, u32_literal 0x9bdc 0x06a7, u32_literal 0xc19b 0xf174,
     u32_literal 0xe49b 0x69c1, u32_literal 0xefbe 0x4786, u32_literal 0x0fc1 0x9dc6, u32_literal 0x240c 0xa1cc,
     u32_literal 0x2de9 0x2c6f, u32_literal 0x4a74 0x84aa, u32_literal 0x5cb0 0xa9dc, u32_literal 0x76f9 0x88da,
     u32_literal 0x983e 0x5152, u32_literal 0xa831 0xc66d, u32_literal 0xb003 0x27c8, u32_literal 0xbf59 0x7fc7,
     u32_literal 0xc6e0 0x0bf3, u32_literal 0xd5a7 0x9147, u32_literal 0x06ca 0x6351, u32_literal 0x1429 0x2967,
     u32_literal 0x27b7 0x0a85, u32_literal 0x2e1b 0x2138, u32_literal 0x4d2c 0x6dfc, u32_literal 0x5338 0x0d13,
     u32_literal 0x650a 0x7354, u32_literal 0x766a 0x0abb, u32_literal 0x81c2 0xc92e, u32_literal 0x9272 0x2c85,
     u32_literal 0xa2bf 0xe8a1, u32_literal 0xa81a 0x664b, u32_literal 0xc24b 0x8b70, u32_literal 0xc76c 0x51a3,
     u32_literal 0xd192 0xe819, u32_literal 0xd699 0x0624, u32_literal 0xf40e 0x3585, u32_literal 0x106a 0xa070,
     u32_literal 0x19a4 0xc116, u32_literal 0x1e37 0x6c08, u32_literal 0x2748 0x774c, u32_literal 0x34b0 0xbcb5,
     u32_literal 0x391c 0x0cb3, u32_literal 0x4ed8 0xaa4a, u32_literal 0x5b9c 0xca4f, u32_literal 0x682e 0x6ff3,
     u32_literal 0x748f 0x82ee, u32_literal 0x78a5 0x636f, u32_literal 0x84c8 0x7814, u32_literal 0x8cc7 0x0208,
     u32_literal 0x90be 0xfffa, u32_literal 0xa450 0x6ceb, u32_literal 0xbef9 0xa3f7, u32_literal 0xc671 0x78f2]"

definition H0 :: "32 word list" where
  "H0 = [u32_literal 0x6a09 0xe667, u32_literal 0xbb67 0xae85, u32_literal 0x3c6e 0xf372, u32_literal 0xa54f 0xf53a,
     u32_literal 0x510e 0x527f, u32_literal 0x9b05 0x688c, u32_literal 0x1f83 0xd9ab, u32_literal 0x5be0 0xcd19]"

definition rotate_right :: "nat \<Rightarrow> 32 word \<Rightarrow> 32 word" where
  "rotate_right n x = drop_bit n x OR push_bit (32 - n) x"

function push_zeros :: "byte list \<Rightarrow> byte list" where
  "push_zeros message = (if length message mod 64 \<noteq> 56 then push_zeros (message @ [0]) else message)"
  by auto

definition zeros_missing :: "nat \<Rightarrow> nat" where
  "zeros_missing l = (let m = l mod 64 in if m \<le> 56 then 56 - m else 120 - m)"

lemma zeros_missing_Suc:
  assumes "l mod 64 \<noteq> 56"
  shows "zeros_missing l = Suc (zeros_missing (Suc l))"
proof -
  have step: "(if m \<le> 56 then 56 - m else 120 - m) = Suc (let n = (if Suc m = 64 then 0 else Suc m)
      in if n \<le> 56 then 56 - n else 120 - n)" if "m < 64" "m \<noteq> 56" for m :: nat
    using that by (auto simp: Let_def)
  have "l mod 64 < 64" by simp
  from step [OF this assms] show ?thesis unfolding zeros_missing_def mod_Suc [of l 64] by (simp only: Let_def)
qed

termination push_zeros
  by (relation "measure (\<lambda>message. zeros_missing (length message))") (auto simp: zeros_missing_Suc)

declare push_zeros.simps [simp del]

definition u64_to_be_bytes :: "64 word \<Rightarrow> byte list" where
  "u64_to_be_bytes n = map (\<lambda>k. ucast (drop_bit (8 * k) n)) (rev [0..<8])"

definition pad_message :: "byte list \<Rightarrow> byte list" where
  "pad_message bytes =
     (let bit_length = word_of_nat (length bytes) * (8 :: 64 word)
      in push_zeros (bytes @ [0x80]) @ u64_to_be_bytes bit_length)"

function chunks_exact :: "nat \<Rightarrow> 'a list \<Rightarrow> 'a list list" where
  "chunks_exact n xs = (if n = 0 \<or> length xs < n then [] else take n xs # chunks_exact n (drop n xs))"
  by auto

termination
  by (relation "measure (\<lambda>(n, xs). length xs)") auto

declare chunks_exact.simps [simp del]

definition load_words :: "byte list \<Rightarrow> 32 word list" where
  "load_words block =
     foldl (\<lambda>w (index, word). w[index := u32_from_be_bytes (word ! 0) (word ! 1) (word ! 2) (word ! 3)])
       (replicate 64 0) (enumerate 0 (chunks_exact 4 block))"

definition extend_step :: "32 word list \<Rightarrow> nat \<Rightarrow> 32 word list" where
  "extend_step w index =
     (let s0 = rotate_right 7 (w ! (index - 15)) XOR rotate_right 18 (w ! (index - 15)) XOR drop_bit 3 (w ! (index - 15));
          s1 = rotate_right 17 (w ! (index - 2)) XOR rotate_right 19 (w ! (index - 2)) XOR drop_bit 10 (w ! (index - 2))
      in w[index := w ! (index - 16) + s0 + w ! (index - 7) + s1])"

definition schedule :: "byte list \<Rightarrow> 32 word list" where
  "schedule block = foldl extend_step (load_words block) [16..<64]"

type_synonym working = "32 word \<times> 32 word \<times> 32 word \<times> 32 word \<times> 32 word \<times> 32 word \<times> 32 word \<times> 32 word"

fun round_step :: "32 word list \<Rightarrow> working \<Rightarrow> nat \<Rightarrow> working" where
  "round_step w (a, b, c, d, e, f, g, hh) index =
     (let s1 = rotate_right 6 e XOR rotate_right 11 e XOR rotate_right 25 e;
          ch = (e AND f) XOR ((NOT e) AND g);
          temp1 = hh + s1 + ch + K ! index + w ! index;
          s0 = rotate_right 2 a XOR rotate_right 13 a XOR rotate_right 22 a;
          maj = (a AND b) XOR (a AND c) XOR (b AND c);
          temp2 = s0 + maj
      in (temp1 + temp2, a, b, c, d + temp1, e, f, g))"

definition compress :: "32 word list \<Rightarrow> byte list \<Rightarrow> 32 word list" where
  "compress h block =
     (case foldl (round_step (schedule block)) (h ! 0, h ! 1, h ! 2, h ! 3, h ! 4, h ! 5, h ! 6, h ! 7) [0..<64] of
        (a, b, c, d, e, f, g, hh) \<Rightarrow> map2 (+) h [a, b, c, d, e, f, g, hh])"

definition sha256 :: "byte list \<Rightarrow> byte list" where
  "sha256 bytes = concat (map u32_to_be_bytes (foldl compress H0 (chunks_exact 64 (pad_message bytes))))"

text \<open>\<^verbatim>\<open>char::from_digit\<close> below sixteen.\<close>

definition hex_digit :: "byte \<Rightarrow> char" where
  "hex_digit d = (if d < 10 then char_of (48 + unat d) else char_of (87 + unat d))"

definition sha256_hex :: "byte list \<Rightarrow> string" where
  "sha256_hex bytes = concat (map (\<lambda>b. [hex_digit (drop_bit 4 b), hex_digit (b AND 0x0f)]) (sha256 bytes))"

section \<open>FIPS 180-4\<close>

text \<open>The constants: the first 32 bits of the fractional parts of the roots of the first primes.\<close>

definition is_prime :: "nat \<Rightarrow> bool" where
  "is_prime p \<longleftrightarrow> 1 < p \<and> (\<forall>d \<in> set [2..<p]. \<not> d dvd p)"

definition root_bits :: "nat \<Rightarrow> nat \<Rightarrow> nat" where
  "root_bits k p = nat \<lfloor>root k (real p) * 2 ^ 32\<rfloor> mod 2 ^ 32"

definition fips_K :: "nat \<Rightarrow> 32 word" where
  "fips_K t = word_of_nat (root_bits 3 (filter is_prime [2..<312] ! t))"

definition fips_H0 :: "32 word list" where
  "fips_H0 = map (\<lambda>p. word_of_nat (root_bits 2 p)) (filter is_prime [2..<20])"

definition big_sigma0 :: "32 word \<Rightarrow> 32 word" where
  "big_sigma0 x = word_rotr 2 x XOR word_rotr 13 x XOR word_rotr 22 x"

definition big_sigma1 :: "32 word \<Rightarrow> 32 word" where
  "big_sigma1 x = word_rotr 6 x XOR word_rotr 11 x XOR word_rotr 25 x"

definition sigma0 :: "32 word \<Rightarrow> 32 word" where
  "sigma0 x = word_rotr 7 x XOR word_rotr 18 x XOR drop_bit 3 x"

definition sigma1 :: "32 word \<Rightarrow> 32 word" where
  "sigma1 x = word_rotr 17 x XOR word_rotr 19 x XOR drop_bit 10 x"

definition ch_fun :: "32 word \<Rightarrow> 32 word \<Rightarrow> 32 word \<Rightarrow> 32 word" where
  "ch_fun x y z = (x AND y) XOR (NOT x AND z)"

definition maj_fun :: "32 word \<Rightarrow> 32 word \<Rightarrow> 32 word \<Rightarrow> 32 word" where
  "maj_fun x y z = (x AND y) XOR (x AND z) XOR (y AND z)"

text \<open>The message schedule of a block of 64 bytes, by its recursion.\<close>

fun fips_W :: "byte list \<Rightarrow> nat \<Rightarrow> 32 word" where
  "fips_W block t =
     (if t < 16
      then u32_from_be_bytes (block ! (4 * t)) (block ! (4 * t + 1)) (block ! (4 * t + 2)) (block ! (4 * t + 3))
      else sigma1 (fips_W block (t - 2)) + fips_W block (t - 7) + sigma0 (fips_W block (t - 15)) + fips_W block (t - 16))"

declare fips_W.simps [simp del]

primrec fips_rounds :: "byte list \<Rightarrow> working \<Rightarrow> nat \<Rightarrow> working" where
  "fips_rounds block s 0 = s"
| "fips_rounds block s (Suc t) =
     (case fips_rounds block s t of
        (a, b, c, d, e, f, g, h) \<Rightarrow>
          let T1 = h + big_sigma1 e + ch_fun e f g + fips_K t + fips_W block t;
              T2 = big_sigma0 a + maj_fun a b c
          in (T1 + T2, a, b, c, d + T1, e, f, g))"

definition fips_block :: "32 word list \<Rightarrow> byte list \<Rightarrow> 32 word list" where
  "fips_block H block =
     (case fips_rounds block (H ! 0, H ! 1, H ! 2, H ! 3, H ! 4, H ! 5, H ! 6, H ! 7) 64 of
        (a, b, c, d, e, f, g, h) \<Rightarrow>
          [a + H ! 0, b + H ! 1, c + H ! 2, d + H ! 3, e + H ! 4, f + H ! 5, g + H ! 6, h + H ! 7])"

text \<open>A one bit, then the fewest zero bits that leave room for the length in the last 64 bits of a block.\<close>

definition fips_pad :: "byte list \<Rightarrow> byte list" where
  "fips_pad bytes =
     bytes @ 0x80 # replicate ((119 - length bytes mod 64) mod 64) 0 @ u64_to_be_bytes (word_of_nat (8 * length bytes))"

primrec fips_hash :: "byte list \<Rightarrow> nat \<Rightarrow> 32 word list" where
  "fips_hash padded 0 = fips_H0"
| "fips_hash padded (Suc i) = fips_block (fips_hash padded i) (take 64 (drop (64 * i) padded))"

definition fips_sha256 :: "byte list \<Rightarrow> byte list" where
  "fips_sha256 bytes =
     (let padded = fips_pad bytes in concat (map u32_to_be_bytes (fips_hash padded (length padded div 64))))"

section \<open>The constants\<close>

lemma root_bits_eq:
  assumes "(c * 2 ^ 32 + v) ^ k \<le> p * 2 ^ (32 * k)" and "p * 2 ^ (32 * k) < (c * 2 ^ 32 + v + 1) ^ k"
    and "v < 2 ^ 32" and "0 < k"
  shows "root_bits k p = v"
proof -
  let ?x = "c * 2 ^ 32 + v"
  have "root k (real p) * 2 ^ 32 = root k (real (p * 2 ^ (32 * k)))"
    using assms(4) by (simp add: real_root_mult power_mult [of "2 :: real"] real_root_power_cancel)
  moreover have "real ?x \<le> root k (real (p * 2 ^ (32 * k)))"
    using assms(1,4) by (metis of_nat_0_le_iff of_nat_le_iff of_nat_power real_root_le_mono real_root_power_cancel)
  moreover have "root k (real (p * 2 ^ (32 * k))) < real ?x + 1"
  proof -
    have "root k (real (p * 2 ^ (32 * k))) < root k (real ((?x + 1) ^ k))"
      using assms(2,4) by (intro real_root_less_mono) (simp_all only: of_nat_less_iff)
    also have "\<dots> = real ?x + 1" using assms(4) by (simp add: real_root_power_cancel del: of_nat_add)
    finally show ?thesis .
  qed
  ultimately have "\<lfloor>root k (real p) * 2 ^ 32\<rfloor> = int ?x" by (intro floor_eq2) simp_all
  then have "root_bits k p = ?x mod 2 ^ 32" unfolding root_bits_def by (simp only: nat_int)
  then show ?thesis using assms(3) by simp
qed

definition small_primes :: "nat list" where
  "small_primes = [2, 3, 5, 7, 11, 13, 17]"

lemma small_prime_factor:
  assumes "2 \<le> f" and "f < 18"
  shows "\<exists>q \<in> set small_primes. q dvd f"
proof -
  have "\<forall>f \<in> set [2..<18]. \<exists>q \<in> set small_primes. q dvd f" by (simp add: small_primes_def)
  with assms show ?thesis unfolding set_upt by (simp only: atLeastLessThan_iff Ball_def)
qed

lemma is_prime_small:
  assumes "p < 324"
  shows "is_prime p \<longleftrightarrow> 1 < p \<and> list_all (\<lambda>d. d dvd p \<longrightarrow> d = p) small_primes"
  unfolding list_all_iff is_prime_def set_upt
proof (intro conj_cong refl iffI ballI impI notI)
  fix d assume "1 < p" and prime: "\<forall>d \<in> {2..<p}. \<not> d dvd p" and d: "d \<in> set small_primes" "d dvd p"
  then have "2 \<le> d" "d \<le> p" using dvd_imp_le [of d p] by (auto simp: small_primes_def)
  with prime d(2) show "d = p" by (metis atLeastLessThan_iff le_neq_implies_less)
next
  fix d assume small: "\<forall>d \<in> set small_primes. d dvd p \<longrightarrow> d = p" and d: "d \<in> {2..<p}" "d dvd p"
  then obtain e where e: "p = d * e" by blast
  have "e \<noteq> 0" "e \<noteq> 1" using e d(1) by auto
  then have e2: "2 \<le> e" by simp
  moreover have "e < p" using e d(1) e2 by (simp only: atLeastLessThan_iff) (metis One_nat_def Suc_1 Suc_le_eq n_less_m_mult_n less_le_trans zero_less_Suc)
  moreover have "d < 18 \<or> e < 18" using assms e mult_le_mono [of 18 d 18 e] by linarith
  ultimately obtain f where f: "2 \<le> f" "f < 18" "f < p" "f dvd p"
    using d e by (metis atLeastLessThan_iff dvd_triv_right)
  then obtain q where q: "q \<in> set small_primes" "q dvd f" using small_prime_factor by blast
  then have "q = p" "q \<le> f" using small f dvd_trans [OF q(2) f(4)] dvd_imp_le [OF q(2)] by auto
  with f(3) show False by simp
qed

lemma first_primes:
  "filter is_prime [2..<312] = [2, 3, 5, 7, 11, 13, 17, 19, 23, 29, 31, 37, 41, 43, 47, 53, 59, 61, 67, 71, 73, 79, 83, 89, 97, 101, 103, 107, 109, 113, 127, 131, 137, 139, 149, 151, 157, 163, 167, 173, 179, 181, 191, 193, 197, 199, 211, 223, 227, 229, 233, 239, 241, 251, 257, 263, 269, 271, 277, 281, 283, 293, 307, 311]" (is "_ = ?primes")
proof -
  have "filter is_prime [2..<312] = filter (\<lambda>p. 1 < p \<and> list_all (\<lambda>d. d dvd p \<longrightarrow> d = p) small_primes) [2..<312]"
  proof (rule filter_cong [OF refl])
    fix p :: nat assume "p \<in> set [2..<312]"
    then have "p < 312" unfolding set_upt by (rule atLeastLessThan_iff [THEN iffD1, THEN conjunct2])
    then have "p < 324" by linarith
    then show "is_prime p \<longleftrightarrow> 1 < p \<and> list_all (\<lambda>d. d dvd p \<longrightarrow> d = p) small_primes" by (rule is_prime_small)
  qed
  also have "\<dots> = ?primes" by (simp add: small_primes_def)
  finally show ?thesis .
qed

text \<open>A prime, the integer part of its root and the 32 bits after the point.\<close>

definition root_entry :: "nat \<Rightarrow> nat \<times> nat \<times> nat \<Rightarrow> bool" where
  "root_entry k e = (case e of (p, c, v) \<Rightarrow>
     (c * 2 ^ 32 + v) ^ k \<le> p * 2 ^ (32 * k) \<and> p * 2 ^ (32 * k) < (c * 2 ^ 32 + v + 1) ^ k \<and> v < 2 ^ 32)"

definition cube_roots :: "(nat \<times> nat \<times> nat) list" where
  "cube_roots = [(2, 1, 0x428a2f98), (3, 1, 0x71374491), (5, 1, 0xb5c0fbcf), (7, 1, 0xe9b5dba5),
   (11, 2, 0x3956c25b), (13, 2, 0x59f111f1), (17, 2, 0x923f82a4), (19, 2, 0xab1c5ed5),
   (23, 2, 0xd807aa98), (29, 3, 0x12835b01), (31, 3, 0x243185be), (37, 3, 0x550c7dc3),
   (41, 3, 0x72be5d74), (43, 3, 0x80deb1fe), (47, 3, 0x9bdc06a7), (53, 3, 0xc19bf174),
   (59, 3, 0xe49b69c1), (61, 3, 0xefbe4786), (67, 4, 0x0fc19dc6), (71, 4, 0x240ca1cc),
   (73, 4, 0x2de92c6f), (79, 4, 0x4a7484aa), (83, 4, 0x5cb0a9dc), (89, 4, 0x76f988da),
   (97, 4, 0x983e5152), (101, 4, 0xa831c66d), (103, 4, 0xb00327c8), (107, 4, 0xbf597fc7),
   (109, 4, 0xc6e00bf3), (113, 4, 0xd5a79147), (127, 5, 0x06ca6351), (131, 5, 0x14292967),
   (137, 5, 0x27b70a85), (139, 5, 0x2e1b2138), (149, 5, 0x4d2c6dfc), (151, 5, 0x53380d13),
   (157, 5, 0x650a7354), (163, 5, 0x766a0abb), (167, 5, 0x81c2c92e), (173, 5, 0x92722c85),
   (179, 5, 0xa2bfe8a1), (181, 5, 0xa81a664b), (191, 5, 0xc24b8b70), (193, 5, 0xc76c51a3),
   (197, 5, 0xd192e819), (199, 5, 0xd6990624), (211, 5, 0xf40e3585), (223, 6, 0x106aa070),
   (227, 6, 0x19a4c116), (229, 6, 0x1e376c08), (233, 6, 0x2748774c), (239, 6, 0x34b0bcb5),
   (241, 6, 0x391c0cb3), (251, 6, 0x4ed8aa4a), (257, 6, 0x5b9cca4f), (263, 6, 0x682e6ff3),
   (269, 6, 0x748f82ee), (271, 6, 0x78a5636f), (277, 6, 0x84c87814), (281, 6, 0x8cc70208),
   (283, 6, 0x90befffa), (293, 6, 0xa4506ceb), (307, 6, 0xbef9a3f7), (311, 6, 0xc67178f2)]"

definition square_roots :: "(nat \<times> nat \<times> nat) list" where
  "square_roots = [(2, 1, 0x6a09e667), (3, 1, 0xbb67ae85), (5, 2, 0x3c6ef372), (7, 2, 0xa54ff53a),
   (11, 3, 0x510e527f), (13, 3, 0x9b05688c), (17, 4, 0x1f83d9ab), (19, 4, 0x5be0cd19)]"

lemma root_entry_bits:
  assumes "root_entry k e" and "0 < k"
  shows "root_bits k (fst e) = snd (snd e)"
proof -
  obtain p c v where e: "e = (p, c, v)" by (rule prod_cases3)
  from assms(1) have "root_bits k p = v"
    unfolding root_entry_def e prod.case by (elim conjE) (rule root_bits_eq [OF _ _ _ assms(2)])
  then show ?thesis unfolding e fst_conv snd_conv .
qed

lemma root_entries:
  assumes "0 < k" and "list_all (root_entry k) es"
  shows "map (\<lambda>p. word_of_nat (root_bits k p)) (map fst es) = map (\<lambda>e. word_of_nat (snd (snd e))) es"
  using assms by (simp add: list_all_iff root_entry_bits)

lemma cube_roots_ok: "list_all (root_entry 3) cube_roots"
  by (simp add: cube_roots_def root_entry_def)

lemma square_roots_ok: "list_all (root_entry 2) square_roots"
  by (simp add: square_roots_def root_entry_def)

lemma K_words: "K = map (\<lambda>e. word_of_nat (snd (snd e))) cube_roots"
  by (simp add: K_def cube_roots_def u32_literal_def push_bit_eq_mult)

lemma K_fips:
  assumes "t < 64"
  shows "K ! t = fips_K t"
proof -
  have primes: "filter is_prime [2..<312] = map fst cube_roots"
    unfolding first_primes by (simp add: cube_roots_def)
  have table: "K = map (\<lambda>p. word_of_nat (root_bits 3 p)) (map fst cube_roots)"
    unfolding K_words by (rule root_entries [OF _ cube_roots_ok, symmetric]) simp
  have "length (map fst cube_roots) = 64" by (simp add: cube_roots_def)
  with assms have "t < length (map fst cube_roots)" by simp
  then show ?thesis unfolding fips_K_def primes table by (rule nth_map)
qed

lemma H0_fips: "H0 = fips_H0"
proof -
  have primes: "filter is_prime [2..<20] = map fst square_roots"
    by (simp add: is_prime_def square_roots_def)
  have "H0 = map (\<lambda>e. word_of_nat (snd (snd e))) square_roots"
    by (simp add: H0_def square_roots_def u32_literal_def)
  also have "\<dots> = map (\<lambda>p. word_of_nat (root_bits 2 p)) (map fst square_roots)"
    by (rule root_entries [OF _ square_roots_ok, symmetric]) simp
  finally show ?thesis unfolding fips_H0_def primes .
qed

section \<open>Equivalence\<close>

lemma rotate_right_rotr:
  assumes "0 < n" and "n < 32"
  shows "rotate_right n x = word_rotr n x"
proof (rule bit_word_eqI)
  fix k assume "k < LENGTH(32)"
  then have k: "k < 32" by simp
  show "bit (rotate_right n x) k = bit (word_rotr n x) k"
  proof (cases "k + n < 32")
    case True
    then have "(n + k) mod 32 = n + k" "\<not> 32 - n \<le> k" by simp_all
    with k show ?thesis by (simp add: rotate_right_def bit_word_rotr_iff bit_simps add.commute)
  next
    case False
    then have m: "(k + n) mod 32 = k - (32 - n)" "32 - n \<le> k" using k assms by (simp_all add: mod_if)
    have "\<not> bit x (n + k)" using False bit_imp_le_length [of x "n + k"] by auto
    with m k show ?thesis by (simp add: rotate_right_def bit_word_rotr_iff bit_simps)
  qed
qed

lemma push_zeros_eq: "push_zeros m = m @ replicate (zeros_missing (length m)) 0"
proof (induction m rule: push_zeros.induct)
  case (1 m)
  show ?case
  proof (cases "length m mod 64 = 56")
    case True
    then show ?thesis by (subst push_zeros.simps) (simp add: zeros_missing_def Let_def)
  next
    case False
    with 1 show ?thesis by (subst push_zeros.simps) (simp add: zeros_missing_Suc)
  qed
qed

lemma zeros_missing_fips: "zeros_missing (Suc l) = (119 - l mod 64) mod 64"
proof -
  have "(let n = (if Suc m = 64 then 0 else Suc m) in if n \<le> 56 then 56 - n else 120 - n) = (119 - m) mod 64"
    if "m < 64" for m :: nat
    using that by (cases "m \<le> 55") (auto simp: Let_def mod_if)
  from this [of "l mod 64"] show ?thesis unfolding zeros_missing_def mod_Suc [of l 64] by simp
qed

lemma pad_message_fips: "pad_message bytes = fips_pad bytes"
  by (simp add: pad_message_def fips_pad_def push_zeros_eq zeros_missing_fips mult.commute)

lemma length_fips_pad: "length (fips_pad bytes) mod 64 = 0"
proof -
  have "(l + 1 + (119 - l mod 64) mod 64 + 8) mod 64 = 0" for l :: nat
  proof -
    have "(m + 1 + (119 - m) mod 64 + 8) mod 64 = 0" if "m < 64" for m :: nat
      using that by (cases "m \<le> 55") (auto simp: mod_if)
    from this [of "l mod 64"] have "(l mod 64 + (1 + (119 - l mod 64) mod 64 + 8)) mod 64 = 0"
      by (simp only: add.assoc mod_less_divisor zero_less_numeral simp_thms)
    then show ?thesis unfolding mod_add_left_eq by (simp only: add.assoc)
  qed
  from this [of "length bytes"] show ?thesis by (simp add: fips_pad_def u64_to_be_bytes_def add.left_commute)
qed

lemma length_chunks_exact: "0 < n \<Longrightarrow> length (chunks_exact n xs) = length xs div n"
proof (induction n xs rule: chunks_exact.induct)
  case (1 n xs)
  then show ?case by (subst chunks_exact.simps) (auto simp: le_div_geq not_less)
qed

lemma chunks_exact_nth: "0 < n \<Longrightarrow> i < length xs div n \<Longrightarrow> chunks_exact n xs ! i = take n (drop (n * i) xs)"
proof (induction n xs arbitrary: i rule: chunks_exact.induct)
  case (1 n xs)
  have big: "\<not> (n = 0 \<or> length xs < n)" using 1(2,3) by (auto simp: div_less)
  show ?case
  proof (cases i)
    case 0
    then show ?thesis using big by (subst chunks_exact.simps) simp
  next
    case (Suc j)
    with 1(3) big have "j < length (drop n xs) div n" by (simp add: le_div_geq not_less)
    with 1(1) [OF big 1(2), of j] big Suc show ?thesis by (subst chunks_exact.simps) (simp add: add.commute)
  qed
qed

lemma foldl_fill:
  assumes "length xs \<le> length w"
  shows "foldl (\<lambda>w (i, x). w[i := f x]) w (enumerate 0 xs) = map f xs @ drop (length xs) w"
  using assms
proof (induction xs rule: rev_induct)
  case (snoc x xs)
  then have "drop (length xs) w = w ! length xs # drop (Suc (length xs)) w" by (simp add: Cons_nth_drop_Suc)
  with snoc show ?case by (simp add: enumerate_append_eq list_update_append)
qed simp

lemma load_words_fips:
  assumes "length block = 64"
  shows "length (load_words block) = 64" and "t < 16 \<Longrightarrow> load_words block ! t = fips_W block t"
proof -
  let ?ws = "chunks_exact 4 block" and ?f = "\<lambda>word. u32_from_be_bytes (word ! 0) (word ! 1) (word ! 2) (word ! 3)"
  have len: "length ?ws = 16" using assms by (simp add: length_chunks_exact)
  have eq: "load_words block = map ?f ?ws @ drop 16 (replicate 64 0)"
    unfolding load_words_def using foldl_fill [of ?ws "replicate 64 0" ?f] len by simp
  show "length (load_words block) = 64" using len by (simp add: eq)
  assume t: "t < 16"
  then have "?ws ! t = take 4 (drop (4 * t) block)" using assms by (simp add: chunks_exact_nth)
  then show "load_words block ! t = fips_W block t"
    using t len assms by (simp add: eq nth_append fips_W.simps [of block t])
qed

lemma extend_steps:
  assumes "length block = 64" and "16 \<le> n" and "n \<le> 64"
  shows "length (foldl extend_step (load_words block) [16..<n]) = 64
    \<and> (\<forall>t < n. foldl extend_step (load_words block) [16..<n] ! t = fips_W block t)"
  using assms(2,3)
proof (induction n rule: dec_induct)
  case base
  then show ?case using load_words_fips [OF assms(1)] by simp
next
  case (step n)
  let ?w = "foldl extend_step (load_words block) [16..<n]"
  have w: "length ?w = 64" "\<And>t. t < n \<Longrightarrow> ?w ! t = fips_W block t" using step by simp_all
  have "extend_step ?w n = ?w[n := fips_W block n]"
    using step(1) w(2)
    by (simp add: extend_step_def fips_W.simps [of block n] sigma0_def sigma1_def rotate_right_rotr ac_simps)
  with step w show ?case by (auto simp: less_Suc_eq nth_list_update)
qed

lemma schedule_fips: "length block = 64 \<Longrightarrow> t < 64 \<Longrightarrow> schedule block ! t = fips_W block t"
  using extend_steps [of block 64] by (simp add: schedule_def)

lemma rounds_fips:
  assumes "length block = 64" and "n \<le> 64"
  shows "foldl (round_step (schedule block)) s [0..<n] = fips_rounds block s n"
  using assms(2)
proof (induction n)
  case (Suc n)
  obtain a b c d e f g h where r: "fips_rounds block s n = (a, b, c, d, e, f, g, h)" by (metis prod.exhaust)
  have facts: "schedule block ! n = fips_W block n" "K ! n = fips_K n"
    using Suc assms(1) by (simp_all add: schedule_fips K_fips)
  have "foldl (round_step (schedule block)) s [0..<Suc n] = round_step (schedule block) (fips_rounds block s n) n"
    using Suc by simp
  also have "\<dots> = fips_rounds block s (Suc n)"
    by (simp add: r facts big_sigma0_def big_sigma1_def ch_fun_def maj_fun_def rotate_right_rotr Let_def)
  finally show ?case .
qed simp

lemma compress_fips:
  assumes "length block = 64" and "length h = 8"
  shows "compress h block = fips_block h block"
proof -
  from assms(2) obtain h0 h1 h2 h3 h4 h5 h6 h7 where h: "h = [h0, h1, h2, h3, h4, h5, h6, h7]"
    by (auto simp: length_Suc_conv eval_nat_numeral)
  show ?thesis
    unfolding compress_def fips_block_def rounds_fips [OF assms(1) order_refl]
    by (auto simp: h add.commute split: prod.splits)
qed

lemma length_fips_block: "length (fips_block h block) = 8"
  by (simp add: fips_block_def split: prod.splits)

lemma blocks_fips:
  assumes "n \<le> length padded div 64"
  shows "length (fips_hash padded n) = 8
    \<and> foldl compress H0 (take n (chunks_exact 64 padded)) = fips_hash padded n"
  using assms
proof (induction n)
  case 0
  have "length H0 = 8" by (simp add: H0_def)
  then show ?case by (simp add: H0_fips)
next
  case (Suc n)
  let ?block = "take 64 (drop (64 * n) padded)"
  have n: "n < length (chunks_exact 64 padded)" using Suc(2) by (simp add: length_chunks_exact)
  have "chunks_exact 64 padded ! n = ?block" using Suc(2) by (simp add: chunks_exact_nth)
  moreover have "length ?block = 64" using Suc(2) by (simp add: less_eq_div_iff_mult_less_eq)
  ultimately show ?case using Suc n
    by (simp add: take_Suc_conv_app_nth compress_fips length_fips_block)
qed

lemma length_concat_pairs: "length (concat (map (\<lambda>b. [f b, g b]) bs)) = 2 * length bs"
  by (induction bs) simp_all

lemma length_fips_sha256: "length (fips_sha256 bytes) = 32"
proof -
  have "length (concat (map u32_to_be_bytes ws)) = 4 * length ws" for ws
    by (induction ws) (simp_all add: u32_to_be_bytes_def)
  then show ?thesis using blocks_fips [OF order_refl, of "fips_pad bytes"] by (simp add: fips_sha256_def Let_def)
qed

text \<open>C37. The content hash of a prompt is SHA-256 as FIPS 180-4 defines it: the table of round
  constants and the initial value are the first 32 bits of the fractional parts of the cube roots of the
  first 64 primes and of the square roots of the first eight; the padding is the standard's; and the
  schedule filled in place and the rounds compute the standard's recursion, block by block, with no
  byte left over. The recorded form has 64 characters.\<close>

theorem sha256_is_fips:
  "sha256 bytes = fips_sha256 bytes \<and> length (pad_message bytes) mod 64 = 0 \<and> length (sha256_hex bytes) = 64"
proof -
  let ?p = "fips_pad bytes"
  have "foldl compress H0 (chunks_exact 64 ?p) = fips_hash ?p (length ?p div 64)"
    using blocks_fips [of "length ?p div 64" ?p] length_chunks_exact [of 64 ?p] by simp
  then have "sha256 bytes = fips_sha256 bytes" by (simp add: sha256_def fips_sha256_def pad_message_fips Let_def)
  then show ?thesis using length_fips_sha256 [of bytes]
    by (simp add: pad_message_fips length_fips_pad sha256_hex_def length_concat_pairs)
qed

end
