(* ===== verification/Summary_Response.thy ===== *)
theory Summary_Response
  imports Evidence Prompt
begin

text \<open>
  Requests to a model and its answers (\<^verbatim>\<open>crates/fotw-summarize/src/adapter.rs\<close>,
  \<^verbatim>\<open>error.rs\<close>), and what is made of an answer: citations in document coordinates, markers
  written and read back, the extraction found in it (\<^verbatim>\<open>pipeline.rs\<close>), and how much of it is
  cited (\<^verbatim>\<open>coverage.rs\<close>). The JSON parser is a parameter.
\<close>

section \<open>Requests\<close>

datatype effort = Low | Medium | High

fun effort_wire_value :: "effort \<Rightarrow> string" where
  "effort_wire_value Low = ''low''"
| "effort_wire_value Medium = ''medium''"
| "effort_wire_value High = ''high''"

fun ttl_wire_value :: "cache_ttl \<Rightarrow> string option" where
  "ttl_wire_value NoTtl = None"
| "ttl_wire_value FiveMinutes = Some ''5m''"
| "ttl_wire_value OneHour = Some ''1h''"

datatype preset = Quality | Balanced | Cheap | Local

definition MODEL_OPUS_5 :: string where "MODEL_OPUS_5 = ''claude-opus-5''"

definition MODEL_SONNET_5 :: string where "MODEL_SONNET_5 = ''claude-sonnet-5''"

definition MODEL_HAIKU_4_5 :: string where "MODEL_HAIKU_4_5 = ''claude-haiku-4-5''"

fun prose_model :: "preset \<Rightarrow> string option" where
  "prose_model Quality = Some MODEL_OPUS_5"
| "prose_model Balanced = Some MODEL_OPUS_5"
| "prose_model Cheap = Some MODEL_SONNET_5"
| "prose_model Local = None"

fun extraction_model :: "preset \<Rightarrow> string option" where
  "extraction_model Quality = Some MODEL_OPUS_5"
| "extraction_model Balanced = Some MODEL_OPUS_5"
| "extraction_model Cheap = Some MODEL_HAIKU_4_5"
| "extraction_model Local = None"

fun preset_effort :: "preset \<Rightarrow> effort option" where
  "preset_effort Quality = Some High"
| "preset_effort Balanced = Some Medium"
| "preset_effort Cheap = Some Low"
| "preset_effort Local = None"

definition anthropic_frontier :: capabilities where
  "anthropic_frontier =
     \<lparr>native_citations = True, strict_json_schema = True, cap_prompt_cache = OneHourCache,
      usable_context_tokens = 1000000, max_output_tokens = 128000, supports_effort = True,
      supports_thinking = True\<rparr>"

definition local_default :: capabilities where
  "local_default =
     \<lparr>native_citations = False, strict_json_schema = False, cap_prompt_cache = NoPromptCache,
      usable_context_tokens = 32768, max_output_tokens = 4096, supports_effort = False,
      supports_thinking = False\<rparr>"

fun preset_capabilities :: "preset \<Rightarrow> capabilities" where
  "preset_capabilities Local = local_default"
| "preset_capabilities _ = anthropic_frontier"

datatype summarize_error =
    CitationsWithStructuredOutput
  | UnsupportedCapability string
  | ContextOverflow nat nat
  | Transport string
  | Http nat string
  | Decode string
  | SchemaViolation string
  | Truncated string

fun is_retryable :: "summarize_error \<Rightarrow> bool" where
  "is_retryable (Transport _) = True"
| "is_retryable (SchemaViolation _) = True"
| "is_retryable (Http status _) = (status = 429 \<or> 500 \<le> status)"
| "is_retryable _ = False"

record document_payload =
  dp_document :: "document_segment list"
  dp_indices :: "nat list"
  dp_cache_ttl :: cache_ttl
  dp_title :: string

datatype output_schema = EXTRACTION_SCHEMA

record llm_request =
  rq_model :: string
  rq_system :: string
  rq_document :: "document_payload option"
  rq_user_notes :: "string option"
  rq_instruction :: string
  rq_citations :: bool
  rq_output_format :: "output_schema option"
  rq_effort :: "effort option"
  rq_max_output_tokens :: nat

definition validate_request :: "llm_request \<Rightarrow> capabilities \<Rightarrow> (summarize_error, unit) outcome" where
  "validate_request rq caps =
     (if rq_citations rq \<and> rq_output_format rq \<noteq> None then Err CitationsWithStructuredOutput
      else if rq_citations rq \<and> \<not> native_citations caps then Err (UnsupportedCapability ''native_citations'')
      else if rq_output_format rq \<noteq> None \<and> \<not> strict_json_schema caps
      then Err (UnsupportedCapability ''strict_json_schema'')
      else if rq_effort rq \<noteq> None \<and> \<not> supports_effort caps then Err (UnsupportedCapability ''supports_effort'')
      else Ok ())"

section \<open>Answers\<close>

record citation =
  start_block_index :: nat
  end_block_index :: nat
  ci_text :: string
  document_index :: nat

definition segment_indices :: "citation \<Rightarrow> nat list" where
  "segment_indices c = [start_block_index c ..< max (end_block_index c) (wrapping_add64 (start_block_index c) 1)]"

record annotated_block =
  ab_text :: string
  ab_citations :: "citation list"

record usage =
  input_tokens :: nat
  output_tokens :: nat
  cache_creation_input_tokens :: nat
  cache_read_input_tokens :: nat

record llm_response =
  rs_blocks :: "annotated_block list"
  stop_reason :: "string option"
  rs_usage :: usage

definition response_text :: "llm_response \<Rightarrow> string" where
  "response_text r = concat (map ab_text (rs_blocks r))"

definition ensure_complete :: "llm_response \<Rightarrow> (summarize_error, unit) outcome" where
  "ensure_complete r =
     (if stop_reason r = Some ''max_tokens''
      then Err (Truncated ''hit max_tokens; the document is incomplete'')
      else if stop_reason r = Some ''refusal'' then Err (Truncated ''the model declined to answer'')
      else Ok ())"

definition usage_default :: usage where
  "usage_default = \<lparr>input_tokens = 0, output_tokens = 0, cache_creation_input_tokens = 0, cache_read_input_tokens = 0\<rparr>"

definition add_usage :: "usage \<Rightarrow> usage \<Rightarrow> usage" where
  "add_usage a b =
     \<lparr>input_tokens = input_tokens a + input_tokens b, output_tokens = output_tokens a + output_tokens b,
      cache_creation_input_tokens = cache_creation_input_tokens a + cache_creation_input_tokens b,
      cache_read_input_tokens = cache_read_input_tokens a + cache_read_input_tokens b\<rparr>"

section \<open>Citations\<close>

definition remap_citation :: "chunk \<Rightarrow> citation \<Rightarrow> citation option" where
  "remap_citation c ci =
     (case to_global c (start_block_index ci) of
        None \<Rightarrow> None
      | Some start \<Rightarrow>
          (let stop = (case to_global c (end_block_index ci) of
                         Some e \<Rightarrow> e
                       | None \<Rightarrow> (if chunk_segments c = [] then start + 1 else last (chunk_segments c) + 1))
           in Some \<lparr>start_block_index = start, end_block_index = max stop (start + 1),
                    ci_text = ci_text ci, document_index = document_index ci\<rparr>))"

definition remap_citations :: "annotated_block list \<Rightarrow> chunk \<Rightarrow> annotated_block list" where
  "remap_citations blocks c =
     map (\<lambda>b. \<lparr>ab_text = ab_text b, ab_citations = List.map_filter (remap_citation c) (ab_citations b)\<rparr>) blocks"

definition marked_block :: "annotated_block \<Rightarrow> string" where
  "marked_block b =
     (if ab_citations b = [] then ab_text b
      else let ids = remdups_adj (sort (concat (map segment_indices (ab_citations b))))
           in trim_end (ab_text b) @ '' [[seg:'' @ join_with '','' (map show_nat ids) @ '']]'')"

definition with_markers :: "annotated_block list \<Rightarrow> string" where
  "with_markers blocks = join_with [CHR 10] (map marked_block blocks)"

text \<open>\<^verbatim>\<open>parse::<usize>\<close>: an optional plus sign and at least one digit, within 64 bits.\<close>

definition digit_value :: "char \<Rightarrow> nat option" where
  "digit_value c = (let b = of_char c :: nat in if 48 \<le> b \<and> b \<le> 57 then Some (b - 48) else None)"

fun parse_digits :: "nat \<Rightarrow> string \<Rightarrow> nat option" where
  "parse_digits n [] = (if n \<le> u64_max then Some n else None)"
| "parse_digits n (c # cs) =
     (case digit_value c of None \<Rightarrow> None | Some d \<Rightarrow> parse_digits (10 * n + d) cs)"

definition parse_usize :: "string \<Rightarrow> nat option" where
  "parse_usize cs =
     (let ds = (case cs of [] \<Rightarrow> [] | c # r \<Rightarrow> if c = CHR ''+'' then r else cs)
      in if ds = [] then None else parse_digits 0 ds)"

text \<open>Adding one to the largest index wraps in the release build.\<close>

definition marker_citation :: "nat \<Rightarrow> citation" where
  "marker_citation i =
     \<lparr>start_block_index = i, end_block_index = wrapping_add64 i 1, ci_text = [], document_index = 0\<rparr>"

definition marker_ids :: "string \<Rightarrow> citation list" where
  "marker_ids inside = map marker_citation (List.map_filter (\<lambda>part. parse_usize (trim part)) (split_on CHR '','' [] inside))"

function parse_marker_line :: "string \<Rightarrow> citation list \<Rightarrow> string \<Rightarrow> string \<times> citation list" where
  "parse_marker_line clean citations rest =
     (case find_str ''[[seg:'' rest of
        None \<Rightarrow> (clean @ rest, citations)
      | Some i \<Rightarrow>
          (let after = drop (i + 6) rest
           in case find_str '']]'' after of
                Some close \<Rightarrow>
                  parse_marker_line (clean @ take i rest) (citations @ marker_ids (take close after)) (drop (close + 2) after)
              | None \<Rightarrow> (clean @ take i rest @ drop i rest, citations)))"
  by auto

termination
proof (relation "measure (\<lambda>(clean, citations, rest). length rest)")
  fix clean :: string and citations :: "citation list" and rest after i close
  assume "find_str ''[[seg:'' rest = Some i" and "after = drop (i + 6) rest"
  with find_str_Some [of "''[[seg:''" rest i] show "((clean @ take i rest, citations @ marker_ids (take close after),
      drop (close + 2) after), clean, citations, rest) \<in> measure (\<lambda>(clean, citations, rest). length rest)"
    by auto
qed simp

declare parse_marker_line.simps [simp del]

definition parse_markers :: "string \<Rightarrow> annotated_block list" where
  "parse_markers cs =
     map (\<lambda>line. case parse_marker_line [] [] line of
       (clean, citations) \<Rightarrow> \<lparr>ab_text = trim_end clean, ab_citations = citations\<rparr>) (lines_of cs)"

section \<open>The extraction in an answer\<close>

text \<open>The scan for the end of an object: depth, inside a string, after a backslash, and the offset.\<close>

fun balanced_scan :: "nat \<Rightarrow> bool \<Rightarrow> bool \<Rightarrow> nat \<Rightarrow> string \<Rightarrow> nat option" where
  "balanced_scan depth in_string escaped offset [] = None"
| "balanced_scan depth in_string escaped offset (b # bs) =
     (if in_string
      then (if escaped then balanced_scan depth True False (offset + 1) bs
            else if b = CHR 0x5C then balanced_scan depth True True (offset + 1) bs
            else if b = CHR 0x22 then balanced_scan depth False escaped (offset + 1) bs
            else balanced_scan depth True escaped (offset + 1) bs)
      else if b = CHR 0x22 then balanced_scan depth True escaped (offset + 1) bs
      else if b = CHR 0x7B then balanced_scan (depth + 1) False escaped (offset + 1) bs
      else if b = CHR 0x7D
      then (if depth = 0 then None
            else if depth = 1 then Some (offset + 1)
            else balanced_scan (depth - 1) False escaped (offset + 1) bs)
      else balanced_scan depth False escaped (offset + 1) bs)"

definition balanced_end :: "string \<Rightarrow> nat \<Rightarrow> nat option" where
  "balanced_end bytes start = balanced_scan 0 False False start (drop start bytes)"

type_synonym json_parser = "string \<Rightarrow> string + extraction"

fun embedded_from :: "json_parser \<Rightarrow> string \<Rightarrow> nat list \<Rightarrow> extraction option" where
  "embedded_from from_str cs [] = None"
| "embedded_from from_str cs (start # starts) =
     (case balanced_end cs start of
        None \<Rightarrow> embedded_from from_str cs starts
      | Some stop \<Rightarrow>
          (case from_str (take (stop - start) (drop start cs)) of
             Inr ex \<Rightarrow> Some ex
           | Inl _ \<Rightarrow> embedded_from from_str cs starts))"

definition embedded_object :: "json_parser \<Rightarrow> string \<Rightarrow> extraction option" where
  "embedded_object from_str cs = embedded_from from_str cs (filter (\<lambda>i. cs ! i = CHR 0x7B) [0..<length cs])"

definition parse_extraction :: "json_parser \<Rightarrow> llm_response \<Rightarrow> (summarize_error, extraction) outcome" where
  "parse_extraction from_str r =
     (let trimmed = trim (response_text r)
      in if trimmed = [] then Ok extraction_default
         else case from_str trimmed of
           Inr ex \<Rightarrow> Ok ex
         | Inl strict \<Rightarrow>
             (case embedded_object from_str trimmed of
                Some ex \<Rightarrow> Ok ex
              | None \<Rightarrow> Err (SchemaViolation strict)))"

definition merge_extraction :: "extraction \<Rightarrow> extraction \<Rightarrow> extraction" where
  "merge_extraction into other =
     \<lparr>action_items = action_items into @ action_items other, decisions = decisions into @ decisions other,
      open_questions = open_questions into @ open_questions other, follow_ups = follow_ups into @ follow_ups other,
      topics = topics into @ topics other\<rparr>"

section \<open>How much is cited\<close>

definition MIN_CLAIM_WORDS :: nat where "MIN_CLAIM_WORDS = 12"

record coverage_config =
  min_words :: nat
  include_list_items :: bool

definition coverage_config_default :: coverage_config where
  "coverage_config_default = \<lparr>min_words = MIN_CLAIM_WORDS, include_list_items = True\<rparr>"

record claim =
  cl_block_index :: nat
  cl_text :: string
  cl_word_count :: nat
  cl_cited :: bool

record coverage_report =
  cr_claims :: "claim list"
  cited_claims :: nat
  total_claims :: nat

definition strip_prefix :: "string \<Rightarrow> string \<Rightarrow> string option" where
  "strip_prefix pre cs = (if take (length pre) cs = pre then Some (drop (length pre) cs) else None)"

definition is_ascii_digit :: "char \<Rightarrow> bool" where
  "is_ascii_digit c \<longleftrightarrow> digit_value c \<noteq> None"

fun strip_first :: "string list \<Rightarrow> string \<Rightarrow> string option" where
  "strip_first [] cs = None"
| "strip_first (m # ms) cs =
     (case strip_prefix m cs of Some rest \<Rightarrow> Some (trim_start rest) | None \<Rightarrow> strip_first ms cs)"

definition strip_list_marker :: "string \<Rightarrow> string option" where
  "strip_list_marker line =
     (case strip_first [''- '', ''* '', ''+ ''] line of
        Some rest \<Rightarrow> Some rest
      | None \<Rightarrow>
          (let digits = takeWhile is_ascii_digit line
           in if digits \<noteq> [] then strip_first [''. '', '') ''] (drop (length digits) line) else None))"

definition claim_text :: "coverage_config \<Rightarrow> string \<Rightarrow> string option" where
  "claim_text cfg line =
     (let trimmed = trim line
      in if trimmed = [] then None
         else if hd trimmed = CHR ''#'' then None
         else if list_all (\<lambda>c. c \<in> set ''-=*_| :'') trimmed then None
         else case strip_list_marker trimmed of
           Some rest \<Rightarrow> (if include_list_items cfg then Some rest else None)
         | None \<Rightarrow> Some trimmed)"

fun sentences_from :: "string \<Rightarrow> string \<Rightarrow> string list" where
  "sentences_from sentence [] = (let tail = trim sentence in if tail = [] then [] else [tail])"
| "sentences_from sentence (c # cs) =
     (if c \<in> set ''.!?''
      then (let s = trim (sentence @ [c]) in (if s = [] then [] else [s]) @ sentences_from [] cs)
      else sentences_from (sentence @ [c]) cs)"

definition split_sentences :: "string \<Rightarrow> string list" where
  "split_sentences cs = sentences_from [] cs"

definition line_claims :: "coverage_config \<Rightarrow> nat \<Rightarrow> bool \<Rightarrow> string \<Rightarrow> claim list" where
  "line_claims cfg block_index cited line =
     (case claim_text cfg line of
        None \<Rightarrow> []
      | Some content \<Rightarrow>
          map (\<lambda>s. \<lparr>cl_block_index = block_index, cl_text = s, cl_word_count = length (words_of s), cl_cited = cited\<rparr>)
            (filter (\<lambda>s. min_words cfg < length (words_of s)) (split_sentences content)))"

definition measure_coverage :: "annotated_block list \<Rightarrow> coverage_config \<Rightarrow> coverage_report" where
  "measure_coverage blocks cfg =
     (let claims = concat (map (\<lambda>(i, b). concat (map (line_claims cfg i (ab_citations b \<noteq> [])) (lines_of (ab_text b))))
            (enumerate 0 blocks))
      in \<lparr>cr_claims = claims, cited_claims = length (filter cl_cited claims), total_claims = length claims\<rparr>)"

definition uncited_claims :: "coverage_report \<Rightarrow> claim list" where
  "uncited_claims r = filter (\<lambda>c. \<not> cl_cited c) (cr_claims r)"

text \<open>The quotient of the counts and its comparison with the threshold are floating-point: a parameter.\<close>

definition is_low_grounding :: "(nat \<Rightarrow> nat \<Rightarrow> bool) \<Rightarrow> coverage_report \<Rightarrow> bool" where
  "is_low_grounding below_threshold r =
     (total_claims r \<noteq> 0 \<and> below_threshold (cited_claims r) (total_claims r))"

definition LOW_GROUNDING_BANNER :: string where
  "LOW_GROUNDING_BANNER = ''This summary has low transcript grounding '' @ em_dash @ '' review before sharing.''"

definition banner :: "(nat \<Rightarrow> nat \<Rightarrow> bool) \<Rightarrow> coverage_report \<Rightarrow> string option" where
  "banner below_threshold r = (if is_low_grounding below_threshold r then Some LOW_GROUNDING_BANNER else None)"

end
