(* ===== verification/Summary_Pipeline.thy ===== *)
theory Summary_Pipeline
  imports Summary_Response
begin

text \<open>
  The two-call pipeline (\<^verbatim>\<open>crates/fotw-summarize/src/pipeline.rs\<close>) with the note windows it sends
  (\<^verbatim>\<open>note_context.rs\<close>): the plan and the loop that shrinks it until every request fits, a call
  for cited prose per chunk, the merging call, a call for structured extraction per chunk, and the
  outcome. The adapters answer as a function of the requests sent before. JSON, the estimates and the
  compiled-in prompt are parameters; recording metadata is represented by its rendered text.
\<close>

section \<open>Note windows\<close>

definition WINDOW_MS :: nat where "WINDOW_MS = 90000"

record anchor =
  an_id :: string
  an_block_idx :: nat
  an_text :: string
  typed_at_ms :: nat

datatype note_window =
    OutsideRecording anchor
  | NoteWindow anchor nat nat "nat list"

record excerpt =
  xc_segment_id :: nat
  xc_start_ms :: nat
  xc_end_ms :: nat
  xc_speaker :: string
  xc_text :: string

record note_payload =
  raw_notes :: string
  windows :: "note_window list"
  excerpts :: "excerpt list"

definition window_of :: "document_segment list \<Rightarrow> nat list \<Rightarrow> nat \<Rightarrow> anchor \<Rightarrow> note_window" where
  "window_of doc indices duration_ms a =
     (if duration_ms < typed_at_ms a then OutsideRecording a
      else let start = typed_at_ms a - WINDOW_MS; stop = min (sat_add64 (typed_at_ms a) WINDOW_MS) duration_ms
           in NoteWindow a start stop
                (filter (\<lambda>i. is_some_and (document_lookup doc i) (\<lambda>s. ds_start_ms s \<le> stop \<and> start \<le> ds_end_ms s)) indices))"

fun window_segments :: "note_window \<Rightarrow> nat list" where
  "window_segments (OutsideRecording a) = []"
| "window_segments (NoteWindow a start stop matching) = matching"

definition excerpt_of :: "document_segment \<Rightarrow> excerpt" where
  "excerpt_of s = \<lparr>xc_segment_id = ds_index s, xc_start_ms = ds_start_ms s, xc_end_ms = ds_end_ms s,
     xc_speaker = speaker_label s, xc_text = ds_text s\<rparr>"

definition render_notes ::
  "(note_payload \<Rightarrow> string) \<Rightarrow> document_segment list \<Rightarrow> nat list \<Rightarrow> string \<Rightarrow> anchor list \<Rightarrow> nat \<Rightarrow> string option" where
  "render_notes json doc indices body anchors duration_ms =
     (if anchors = [] then (if trim body = [] then None else Some body)
      else let ws = map (window_of doc indices duration_ms) anchors;
               used = remdups_adj (sort (concat (map window_segments ws)))
           in Some (json \<lparr>raw_notes = body, windows = ws,
                          excerpts = map excerpt_of (List.map_filter (document_lookup doc) used)\<rparr>))"

section \<open>Configuration\<close>

definition DOCUMENT_TITLE :: string where "DOCUMENT_TITLE = ''Meeting transcript''"

definition cache_ttl_for :: "bool \<Rightarrow> cache_ttl" where
  "cache_ttl_for chat_session_open = (if chat_session_open then OneHour else FiveMinutes)"

datatype warning =
    LowGrounding nat nat
  | ItemsDropped nat
  | CachePrefixMissed
  | MapReduced nat
  | ExtractionFailed string

record pipeline_config =
  pc_preset :: preset
  template_body :: string
  meeting_date :: string
  chat_session_open :: bool
  pc_max_output_tokens :: nat
  speech_context :: "string option"
  pc_coverage :: coverage_config
  pc_validator :: validator_config

record summary_outcome =
  so_blocks :: "annotated_block list"
  so_coverage :: coverage_report
  so_validation :: validation_report
  so_warnings :: "warning list"
  prompt_hash :: string
  prompt_version :: string
  usage_a :: usage
  usage_b :: usage
  map_reduced :: bool

definition markdown :: "summary_outcome \<Rightarrow> string" where
  "markdown so = concat (map ab_text (so_blocks so))"

text \<open>An adapter sees the requests sent so far and answers the next.\<close>

record adapter =
  ad_capabilities :: capabilities
  ad_model_id :: string
  ad_complete :: "llm_request list \<Rightarrow> llm_request \<Rightarrow> (summarize_error, llm_response) outcome"

record pipeline =
  prose :: adapter
  extractor :: adapter
  config :: pipeline_config

record environment =
  estimates :: estimator
  tables :: case_tables
  augment_v1 :: string
  schema_text :: string
  note_json :: "note_payload \<Rightarrow> string"
  from_str :: json_parser
  below_threshold :: "nat \<Rightarrow> nat \<Rightarrow> bool"

definition pipeline_cache_ttl :: "pipeline \<Rightarrow> cache_ttl" where
  "pipeline_cache_ttl p = cache_ttl_for (chat_session_open (config p))"

definition expects_cache_hit :: "pipeline \<Rightarrow> bool" where
  "expects_cache_hit p \<longleftrightarrow>
     ad_model_id (prose p) = ad_model_id (extractor p)
     \<and> \<not> native_citations (ad_capabilities (prose p))
     \<and> cap_prompt_cache (ad_capabilities (prose p)) \<noteq> NoPromptCache
     \<and> pipeline_cache_ttl p \<noteq> NoTtl"

definition instruction_with_speech :: "pipeline \<Rightarrow> string \<Rightarrow> string" where
  "instruction_with_speech p instruction =
     (case speech_context (config p) of
        Some context \<Rightarrow> context @ line_feed @ line_feed @ instruction
      | None \<Rightarrow> instruction)"

definition effort_for :: "pipeline \<Rightarrow> capabilities \<Rightarrow> effort option" where
  "effort_for p caps = (if supports_effort caps then preset_effort (pc_preset (config p)) else None)"

section \<open>Calls\<close>

datatype callee = ProseCall | ExtractionCall

type_synonym call_log = "(callee \<times> llm_request) list"

type_synonym 'a calls = "call_log \<Rightarrow> (summarize_error, 'a) outcome \<times> call_log"

definition bind_calls :: "'a calls \<Rightarrow> ('a \<Rightarrow> 'b calls) \<Rightarrow> 'b calls" where
  "bind_calls m f = (\<lambda>sent. case m sent of
     (Ok x, sent) \<Rightarrow> f x sent
   | (Err e, sent) \<Rightarrow> (Err e, sent)
   | (Panic, sent) \<Rightarrow> (Panic, sent))"

definition result :: "(summarize_error, 'a) outcome \<Rightarrow> 'a calls" where
  "result r = (\<lambda>sent. (r, sent))"

fun adapter_of :: "pipeline \<Rightarrow> callee \<Rightarrow> adapter" where
  "adapter_of p ProseCall = prose p"
| "adapter_of p ExtractionCall = extractor p"

text \<open>Run one call and refuse a truncated answer.\<close>

definition complete :: "pipeline \<Rightarrow> callee \<Rightarrow> llm_request \<Rightarrow> llm_response calls" where
  "complete p who rq =
     bind_calls (\<lambda>sent. (ad_complete (adapter_of p who) (map snd sent) rq, sent @ [(who, rq)]))
       (\<lambda>response. bind_calls (result (ensure_complete response)) (\<lambda>_. result (Ok response)))"

definition prose_request ::
  "environment \<Rightarrow> pipeline \<Rightarrow> document_segment list \<Rightarrow> string \<Rightarrow> anchor list \<Rightarrow> nat \<Rightarrow> system_prompt \<Rightarrow> chunk \<Rightarrow> llm_request" where
  "prose_request env p doc user_notes anchors duration_ms system c =
     (let caps = ad_capabilities (prose p);
          notes = render_notes (note_json env) doc (chunk_segments c) user_notes anchors duration_ms
      in \<lparr>rq_model = ad_model_id (prose p), rq_system = sp_text system,
          rq_document = Some \<lparr>dp_document = doc, dp_indices = chunk_segments c,
            dp_cache_ttl = clamp_ttl caps (pipeline_cache_ttl p), dp_title = DOCUMENT_TITLE\<rparr>,
          rq_user_notes = notes,
          rq_instruction = instruction_with_speech p (augment_instruction (meeting_date (config p)) (notes \<noteq> None)),
          rq_citations = native_citations caps, rq_output_format = None, rq_effort = effort_for p caps,
          rq_max_output_tokens = pc_max_output_tokens (config p)\<rparr>)"

primrec prose_calls ::
  "environment \<Rightarrow> pipeline \<Rightarrow> document_segment list \<Rightarrow> string \<Rightarrow> anchor list \<Rightarrow> nat \<Rightarrow> system_prompt
     \<Rightarrow> chunk list \<Rightarrow> usage \<Rightarrow> annotated_block list list \<Rightarrow> (annotated_block list list \<times> usage) calls" where
  "prose_calls env p doc user_notes anchors duration_ms system [] usage mapped = result (Ok (mapped, usage))"
| "prose_calls env p doc user_notes anchors duration_ms system (c # cs) usage mapped =
     bind_calls (complete p ProseCall (prose_request env p doc user_notes anchors duration_ms system c))
       (\<lambda>response. prose_calls env p doc user_notes anchors duration_ms system cs
          (add_usage usage (rs_usage response)) (mapped @ [remap_citations (rs_blocks response) c]))"

definition reduce_request :: "pipeline \<Rightarrow> system_prompt \<Rightarrow> annotated_block list list \<Rightarrow> llm_request" where
  "reduce_request p system mapped =
     (let sections = map (\<lambda>(index, blocks). ''## Notes from part '' @ show_nat (index + 1) @ line_feed @ line_feed
            @ with_markers blocks) (enumerate 0 mapped)
      in \<lparr>rq_model = ad_model_id (prose p), rq_system = sp_text system, rq_document = None, rq_user_notes = None,
          rq_instruction = instruction_with_speech p
            (''Meeting date: '' @ meeting_date (config p) @ ''.'' @ line_feed @ line_feed @
             ''Below are notes written from consecutive parts of one '' @
             ''meeting. Merge them into a single document following the template, removing '' @
             ''the duplication produced by the overlap between parts.'' @ line_feed @ line_feed @
             ''Every `[[seg:N]]` marker is a transcript segment id. **Carry each marker through onto whichever '' @
             ''sentence it supports.** Do not renumber them, do not invent new ones, and do '' @
             ''not write a sentence that carries no marker unless it is your own explicit '' @
             ''inference across parts.'' @ line_feed @ line_feed @ join_with (line_feed @ line_feed) sections),
          rq_citations = False, rq_output_format = None, rq_effort = effort_for p (ad_capabilities (prose p)),
          rq_max_output_tokens = pc_max_output_tokens (config p)\<rparr>)"

definition reduce ::
  "environment \<Rightarrow> pipeline \<Rightarrow> system_prompt \<Rightarrow> annotated_block list list \<Rightarrow> (annotated_block list \<times> usage) calls" where
  "reduce env p system mapped =
     (let rq = reduce_request p system mapped; usable = usable_context_tokens (ad_capabilities (prose p))
      in bind_calls
           (result (case speech_context (config p) of
              None \<Rightarrow> Ok ()
            | Some context \<Rightarrow>
                (let needed = sat_add64 (sat_add64 (sat_add64 (estimate_tokens (estimates env) (sp_text system))
                       (estimate_tokens (estimates env) (rq_instruction rq))) (length context))
                       (pc_max_output_tokens (config p))
                 in if usable < needed then Err (ContextOverflow needed usable) else Ok ())))
           (\<lambda>_. bind_calls (complete p ProseCall rq)
             (\<lambda>response. result (Ok (parse_markers (response_text response), rs_usage response)))))"

definition run_call_a ::
  "environment \<Rightarrow> pipeline \<Rightarrow> document_segment list \<Rightarrow> string \<Rightarrow> anchor list \<Rightarrow> nat \<Rightarrow> system_prompt \<Rightarrow> chunk list
     \<Rightarrow> (annotated_block list \<times> usage) calls" where
  "run_call_a env p doc user_notes anchors duration_ms system chunks =
     bind_calls (prose_calls env p doc user_notes anchors duration_ms system chunks usage_default [])
       (\<lambda>(mapped, usage).
          if length mapped \<le> 1 then result (Ok (if mapped = [] then [] else hd mapped, usage))
          else bind_calls (reduce env p system mapped)
            (\<lambda>(reduced, reduce_usage). result (Ok (reduced, add_usage usage reduce_usage))))"

definition extraction_request ::
  "environment \<Rightarrow> pipeline \<Rightarrow> document_segment list \<Rightarrow> system_prompt \<Rightarrow> chunk \<Rightarrow> llm_request" where
  "extraction_request env p doc system c =
     (let caps = ad_capabilities (extractor p)
      in \<lparr>rq_model = ad_model_id (extractor p), rq_system = sp_text system,
          rq_document = Some \<lparr>dp_document = doc, dp_indices = chunk_segments c,
            dp_cache_ttl = clamp_ttl caps (pipeline_cache_ttl p), dp_title = DOCUMENT_TITLE\<rparr>,
          rq_user_notes = None,
          rq_instruction = instruction_with_speech p
            (extraction_instruction (schema_text env) (meeting_date (config p)) (strict_json_schema caps)),
          rq_citations = False,
          rq_output_format = (if strict_json_schema caps then Some EXTRACTION_SCHEMA else None),
          rq_effort = effort_for p caps, rq_max_output_tokens = pc_max_output_tokens (config p)\<rparr>)"

primrec run_call_b ::
  "environment \<Rightarrow> pipeline \<Rightarrow> document_segment list \<Rightarrow> system_prompt \<Rightarrow> chunk list
     \<Rightarrow> extraction \<Rightarrow> usage \<Rightarrow> string list \<Rightarrow> (extraction \<times> usage \<times> string list) calls" where
  "run_call_b env p doc system [] merged usage failures = result (Ok (merged, usage, failures))"
| "run_call_b env p doc system (c # cs) merged usage failures =
     bind_calls (complete p ExtractionCall (extraction_request env p doc system c))
       (\<lambda>response.
          let usage = add_usage usage (rs_usage response)
          in case parse_extraction (from_str env) response of
               Ok ex \<Rightarrow> run_call_b env p doc system cs (merge_extraction merged ex) usage failures
             | Err (SchemaViolation detail) \<Rightarrow> run_call_b env p doc system cs merged usage (failures @ [detail])
             | Err e \<Rightarrow> result (Err e)
             | Panic \<Rightarrow> result Panic)"

section \<open>The run\<close>

definition needed_tokens ::
  "environment \<Rightarrow> document_segment list \<Rightarrow> string \<Rightarrow> anchor list \<Rightarrow> nat \<Rightarrow> nat \<Rightarrow> chunk \<Rightarrow> nat" where
  "needed_tokens env doc user_notes anchors duration_ms overhead c =
     sat_add64 (sat_add64 overhead (chunk_tokens c))
       (case render_notes (note_json env) doc (chunk_segments c) user_notes anchors duration_ms of
          None \<Rightarrow> 0 | Some note \<Rightarrow> length note)"

text \<open>Halve the budget until every chunk fits. Packing that does not return would be \<^const>\<open>None\<close>.\<close>

function shrink ::
  "environment \<Rightarrow> document_segment list \<Rightarrow> string \<Rightarrow> anchor list \<Rightarrow> nat \<Rightarrow> nat \<Rightarrow> nat \<Rightarrow> speaker_turn list
     \<Rightarrow> nat \<Rightarrow> plan \<Rightarrow> chunk list \<Rightarrow> (summarize_error, plan \<times> chunk list) outcome option" where
  "shrink env doc user_notes anchors duration_ms overhead usable turns budget pl chunks =
     (case find (\<lambda>needed. usable < needed) (map (needed_tokens env doc user_notes anchors duration_ms overhead) chunks) of
        None \<Rightarrow> Some (Ok (pl, chunks))
      | Some needed \<Rightarrow>
          if budget = 1 then Some (Err (ContextOverflow needed usable))
          else (let budget = max (budget div 2) 1
                in case pack turns budget of
                     Some (Ok cs) \<Rightarrow> shrink env doc user_notes anchors duration_ms overhead usable turns budget (MapReduce cs) cs
                   | Some _ \<Rightarrow> Some Panic
                   | None \<Rightarrow> None))"
  by auto

termination
  by (relation "measure (\<lambda>(_, _, _, _, _, _, _, _, budget, _, _). if budget = 0 then 2 else budget)") auto

declare shrink.simps [simp del]

definition metadata_bytes :: "pipeline \<Rightarrow> nat" where
  "metadata_bytes p = (case speech_context (config p) of None \<Rightarrow> 0 | Some context \<Rightarrow> length context)"

definition planning_capabilities :: "pipeline \<Rightarrow> capabilities" where
  "planning_capabilities p =
     (let caps = ad_capabilities (prose p)
      in if 0 < metadata_bytes p
         then caps\<lparr>usable_context_tokens := min (usable_context_tokens caps) (usable_context_tokens (ad_capabilities (extractor p)))\<rparr>
         else caps)"

definition overhead_tokens :: "environment \<Rightarrow> pipeline \<Rightarrow> system_prompt \<Rightarrow> nat" where
  "overhead_tokens env p system =
     sat_add64 (sat_add64 (sat_add64 (estimate_tokens (estimates env) (sp_text system)) (pc_max_output_tokens (config p))) 1024)
       (metadata_bytes p)"

definition must_fit :: "pipeline \<Rightarrow> string \<Rightarrow> anchor list \<Rightarrow> bool" where
  "must_fit p user_notes anchors \<longleftrightarrow> anchors \<noteq> [] \<or> trim user_notes \<noteq> [] \<or> 0 < metadata_bytes p"

definition fit_plan ::
  "environment \<Rightarrow> pipeline \<Rightarrow> document_segment list \<Rightarrow> string \<Rightarrow> anchor list \<Rightarrow> nat \<Rightarrow> system_prompt
     \<Rightarrow> plan \<Rightarrow> (summarize_error, plan \<times> chunk list) outcome option" where
  "fit_plan env p doc user_notes anchors duration_ms system pl =
     (let chunks = plan_chunks (estimates env) doc pl; usable = usable_context_tokens (planning_capabilities p)
      in if must_fit p user_notes anchors
         then (let overhead = overhead_tokens env p system; minimum = sat_add64 overhead (length user_notes)
               in if usable < minimum then Some (Err (ContextOverflow minimum usable))
                  else shrink env doc user_notes anchors duration_ms overhead usable (speaker_turns (estimates env) doc)
                         (max (foldr max (map chunk_tokens chunks) 0) 1) pl chunks)
         else Some (Ok (pl, chunks)))"

definition warnings_for :: "environment \<Rightarrow> pipeline \<Rightarrow> plan \<Rightarrow> chunk list \<Rightarrow> coverage_report \<Rightarrow> validation_report
     \<Rightarrow> string list \<Rightarrow> usage \<Rightarrow> warning list" where
  "warnings_for env p pl chunks cov validation failures usage =
     (if is_low_grounding (below_threshold env) cov then [LowGrounding (cited_claims cov) (total_claims cov)] else [])
     @ (if 0 < drop_count validation then [ItemsDropped (drop_count validation)] else [])
     @ map ExtractionFailed failures
     @ (if expects_cache_hit p \<and> cache_read_input_tokens usage = 0 then [CachePrefixMissed] else [])
     @ (if is_map_reduce pl then [MapReduced (length chunks)] else [])"

definition both_calls ::
  "environment \<Rightarrow> pipeline \<Rightarrow> document_segment list \<Rightarrow> string \<Rightarrow> anchor list \<Rightarrow> nat \<Rightarrow> system_prompt
     \<Rightarrow> plan \<times> chunk list \<Rightarrow> summary_outcome calls" where
  "both_calls env p doc user_notes anchors duration_ms system plan_and_chunks =
     (case plan_and_chunks of (pl, chunks) \<Rightarrow>
        bind_calls (run_call_a env p doc user_notes anchors duration_ms system chunks)
          (\<lambda>(blocks, usage_a). bind_calls (run_call_b env p doc system chunks extraction_default usage_default [])
            (\<lambda>(ex, usage_b, failures).
               let cov = measure_coverage blocks (pc_coverage (config p));
                   validation = validate (tables env) ex doc (pc_validator (config p))
               in result (Ok \<lparr>so_blocks = blocks, so_coverage = cov, so_validation = validation,
                    so_warnings = warnings_for env p pl chunks cov validation failures usage_b,
                    prompt_hash = sp_hash system, prompt_version = sp_version system,
                    usage_a = usage_a, usage_b = usage_b, map_reduced = is_map_reduce pl\<rparr>))))"

definition run_with_anchors ::
  "environment \<Rightarrow> pipeline \<Rightarrow> document_segment list \<Rightarrow> string \<Rightarrow> anchor list \<Rightarrow> nat
     \<Rightarrow> ((summarize_error, summary_outcome) outcome \<times> call_log) option" where
  "run_with_anchors env p doc user_notes anchors duration_ms =
     (let system = assemble (augment_v1 env) (template_body (config p))
      in case plan_for (estimates env) doc (planning_capabilities p) of
           None \<Rightarrow> None
         | Some Panic \<Rightarrow> Some (Panic, [])
         | Some (Err _) \<Rightarrow> Some (Panic, [])
         | Some (Ok pl) \<Rightarrow>
             map_option (\<lambda>fitted. bind_calls (result fitted) (both_calls env p doc user_notes anchors duration_ms system) [])
               (fit_plan env p doc user_notes anchors duration_ms system pl))"

definition run_pipeline ::
  "environment \<Rightarrow> pipeline \<Rightarrow> document_segment list \<Rightarrow> string
     \<Rightarrow> ((summarize_error, summary_outcome) outcome \<times> call_log) option" where
  "run_pipeline env p doc user_notes = run_with_anchors env p doc user_notes [] 0"

section \<open>Planning\<close>

definition block_tokens :: "estimator \<Rightarrow> document_segment list \<Rightarrow> nat \<Rightarrow> nat" where
  "block_tokens est doc i = estimate_block_tokens est (block_text (doc ! i))"

definition indexed :: "document_segment list \<Rightarrow> bool" where
  "indexed doc \<longleftrightarrow> map ds_index doc = all_indices doc"

lemma indexed_nth: "indexed doc \<Longrightarrow> i < length doc \<Longrightarrow> ds_index (doc ! i) = i"
  unfolding indexed_def all_indices_def by (metis add_0 nth_map nth_upt)

lemma indexed_tokens: "indexed doc \<Longrightarrow> d \<in> set doc \<Longrightarrow> block_tokens est doc (ds_index d) = estimate_block_tokens est (block_text d)"
  by (auto simp: in_set_conv_nth indexed_nth block_tokens_def)

text \<open>Turns hold every segment of the document in order, and count its tokens.\<close>

definition counted :: "(nat \<Rightarrow> nat) \<Rightarrow> speaker_turn \<Rightarrow> bool" where
  "counted f t \<longleftrightarrow> turn_tokens t = sum_list (map f (turn_segments t))"

lemma add_to_turns_cases:
  obtains ts' t where "ts = ts' @ [t]" "turn_speaker t = speaker_label d"
      "add_to_turns est ts d = ts' @ [t\<lparr>turn_segments := turn_segments t @ [ds_index d],
         turn_tokens := turn_tokens t + estimate_block_tokens est (block_text d)\<rparr>]"
  | "add_to_turns est ts d = ts @ [\<lparr>turn_segments = [ds_index d], turn_speaker = speaker_label d,
      turn_tokens = estimate_block_tokens est (block_text d)\<rparr>]"
proof (cases "ts \<noteq> [] \<and> turn_speaker (last ts) = speaker_label d")
  case True
  then have "ts = butlast ts @ [last ts]" by simp
  with True that(1) [of "butlast ts" "last ts"] show ?thesis by (simp del: speaker_label.simps add: add_to_turns_def Let_def)
next
  case False
  with that(2) show ?thesis by (simp only: add_to_turns_def Let_def if_False)
qed

lemma add_to_turns_segments:
  "concat (map turn_segments (add_to_turns est ts d)) = concat (map turn_segments ts) @ [ds_index d]"
  by (rule add_to_turns_cases [of ts d est]) simp_all

lemma add_to_turns_counted:
  assumes "list_all (counted f) ts" and "f (ds_index d) = estimate_block_tokens est (block_text d)"
  shows "list_all (counted f) (add_to_turns est ts d)"
  by (rule add_to_turns_cases [of ts d est]) (use assms in \<open>simp_all add: counted_def\<close>)

lemma turns_segments: "concat (map turn_segments (foldl (add_to_turns est) [] ds)) = map ds_index ds"
  by (induction ds rule: rev_induct) (simp_all add: add_to_turns_segments)

lemma turns_counted:
  assumes "\<forall>d \<in> set ds. f (ds_index d) = estimate_block_tokens est (block_text d)"
  shows "list_all (counted f) (foldl (add_to_turns est) [] ds)"
  using assms by (induction ds rule: rev_induct) (simp_all add: add_to_turns_counted)

lemma speaker_turns_facts:
  assumes "indexed doc"
  shows "concat (map turn_segments (speaker_turns est doc)) = all_indices doc"
    and "list_all (counted (block_tokens est doc)) (speaker_turns est doc)"
proof -
  show "concat (map turn_segments (speaker_turns est doc)) = all_indices doc"
    using assms unfolding speaker_turns_def turns_segments indexed_def .
  show "list_all (counted (block_tokens est doc)) (speaker_turns est doc)"
    unfolding speaker_turns_def by (rule turns_counted) (use indexed_tokens [OF assms] in blast)
qed

text \<open>Chunks that cover a document once, each counted by the tokens of its blocks.\<close>

definition covering :: "estimator \<Rightarrow> document_segment list \<Rightarrow> chunk list \<Rightarrow> bool" where
  "covering est doc cs \<longleftrightarrow> concat (map fresh_segments cs) = all_indices doc
     \<and> (\<forall>c \<in> set cs. chunk_tokens c = sum_list (map (block_tokens est doc) (chunk_segments c)))"

lemma tokens_of_segments: "list_all (counted f) ts \<Longrightarrow> tokens_of ts = sum_list (map f (concat (map turn_segments ts)))"
  by (induction ts) (simp_all add: counted_def)

lemma chunk_spans_tokens:
  assumes "chunk_spans ts budget c r" and "list_all (counted f) ts"
  shows "chunk_tokens c = sum_list (map f (chunk_segments c))"
proof -
  have "set (turns_slice ts (fst r) (snd r)) \<subseteq> set ts"
    by (auto simp: turns_slice_def dest: in_set_takeD in_set_dropD)
  then have "list_all (counted f) (turns_slice ts (fst r) (snd r))"
    using assms(2) by (auto simp: list_all_iff)
  from tokens_of_segments [OF this] assms(1) show ?thesis by (simp add: chunk_spans_def slice_segments_def)
qed

lemma pack_covering:
  assumes "indexed doc"
  shows "\<exists>cs. pack (speaker_turns est doc) budget = Some (Ok cs) \<and> covering est doc cs"
proof -
  let ?ts = "speaker_turns est doc"
  obtain cs rs where cs: "pack ?ts budget = Some (Ok cs)" "list_all2 (chunk_spans ?ts budget) cs rs"
    "concat (map fresh_segments cs) = concat (map turn_segments ?ts)"
    using pack_total [of ?ts budget] by (elim exE conjE)
  have "chunk_tokens c = sum_list (map (block_tokens est doc) (chunk_segments c))" if c: "c \<in> set cs" for c
  proof -
    obtain i where "i < length cs" "cs ! i = c" using c by (auto simp: in_set_conv_nth)
    then have "chunk_spans ?ts budget c (rs ! i)" using list_all2_nthD [OF cs(2), of i] by simp
    then show ?thesis using speaker_turns_facts(2) [OF assms] by (rule chunk_spans_tokens)
  qed
  then have "covering est doc cs"
    using cs(3) speaker_turns_facts(1) [OF assms, of est] by (simp add: covering_def)
  with cs(1) show ?thesis by (intro exI conjI)
qed

lemma covering_single:
  assumes "indexed doc"
  shows "covering est doc (plan_chunks est doc SingleShot)"
proof -
  have "map (block_tokens est doc) [0..<length doc] = map (\<lambda>d. estimate_block_tokens est (block_text d)) doc"
    by (rule nth_equalityI) (simp_all add: block_tokens_def)
  then show ?thesis by (simp add: covering_def fresh_segments_def all_indices_def estimated_tokens_def)
qed

lemma plan_for_covering:
  assumes "indexed doc"
  shows "\<exists>pl. plan_for est doc caps = Some (Ok pl) \<and> covering est doc (plan_chunks est doc pl)"
  using pack_covering [OF assms, of est "chunk_budget_tokens est caps"] covering_single [OF assms, of est]
  by (auto simp: plan_for_def)

lemma shrink_covering:
  assumes "indexed doc" and "covering (estimates env) doc cs" and "0 < budget"
  shows "(\<exists>needed. shrink env doc body anchors dur overhead usable (speaker_turns (estimates env) doc) budget pl cs
        = Some (Err (ContextOverflow needed usable)))
    \<or> (\<exists>pl' cs'. shrink env doc body anchors dur overhead usable (speaker_turns (estimates env) doc) budget pl cs
        = Some (Ok (pl', cs')) \<and> covering (estimates env) doc cs'
        \<and> (\<forall>c \<in> set cs'. needed_tokens env doc body anchors dur overhead c \<le> usable))"
  using assms(2,3)
proof (induction budget arbitrary: pl cs rule: less_induct)
  case (less budget)
  let ?needed = "map (needed_tokens env doc body anchors dur overhead) cs"
  let ?shrink = "shrink env doc body anchors dur overhead usable (speaker_turns (estimates env) doc)"
  show ?case
  proof (cases "find (\<lambda>needed. usable < needed) ?needed")
    case None
    then have "\<forall>c \<in> set cs. needed_tokens env doc body anchors dur overhead c \<le> usable"
      by (auto simp: find_None_iff)
    moreover have "?shrink budget pl cs = Some (Ok (pl, cs))" using None by (subst shrink.simps) simp
    ultimately show ?thesis using less.prems by blast
  next
    case (Some n)
    show ?thesis
    proof (cases "budget = 1")
      case True
      with Some have "?shrink budget pl cs = Some (Err (ContextOverflow n usable))" by (subst shrink.simps) simp
      then show ?thesis by blast
    next
      case False
      let ?half = "max (budget div 2) 1"
      obtain cs' where cs': "pack (speaker_turns (estimates env) doc) ?half = Some (Ok cs')"
        "covering (estimates env) doc cs'"
        using pack_covering [OF assms(1)] by blast
      have eq: "?shrink budget pl cs = ?shrink ?half (MapReduce cs') cs'"
        using Some False cs' by (subst shrink.simps) (simp add: Let_def)
      have "?half < budget" "0 < ?half" using False less.prems(2) by auto
      from less.IH [OF this(1) cs'(2) this(2)] show ?thesis unfolding eq .
    qed
  qed
qed

lemma fit_plan_covering:
  assumes "indexed doc" and "covering (estimates env) doc (plan_chunks (estimates env) doc pl)"
  shows "(\<exists>e. fit_plan env p doc body anchors dur system pl = Some (Err e))
    \<or> (\<exists>pl' cs. fit_plan env p doc body anchors dur system pl = Some (Ok (pl', cs)) \<and> covering (estimates env) doc cs
        \<and> (must_fit p body anchors \<longrightarrow> (\<forall>c \<in> set cs.
             needed_tokens env doc body anchors dur (overhead_tokens env p system) c
               \<le> usable_context_tokens (planning_capabilities p))))"
proof (cases "must_fit p body anchors")
  case False
  then have "fit_plan env p doc body anchors dur system pl = Some (Ok (pl, plan_chunks (estimates env) doc pl))"
    by (simp add: fit_plan_def Let_def)
  with False assms(2) show ?thesis by blast
next
  case True
  let ?usable = "usable_context_tokens (planning_capabilities p)"
    and ?minimum = "sat_add64 (overhead_tokens env p system) (length body)"
    and ?budget = "max (foldr max (map chunk_tokens (plan_chunks (estimates env) doc pl)) 0) 1"
  show ?thesis
  proof (cases "?usable < ?minimum")
    case True
    with \<open>must_fit p body anchors\<close> have "fit_plan env p doc body anchors dur system pl = Some (Err (ContextOverflow ?minimum ?usable))"
      by (simp add: fit_plan_def Let_def)
    then show ?thesis by blast
  next
    case False
    with \<open>must_fit p body anchors\<close> have eq: "fit_plan env p doc body anchors dur system pl
        = shrink env doc body anchors dur (overhead_tokens env p system) ?usable (speaker_turns (estimates env) doc)
            ?budget pl (plan_chunks (estimates env) doc pl)"
      by (simp add: fit_plan_def Let_def)
    have "0 < ?budget" by simp
    from shrink_covering [OF assms this] show ?thesis unfolding eq by blast
  qed
qed

section \<open>Calls that behave\<close>

text \<open>A sequence of calls never panics and only sends requests of a kind.\<close>

definition behaves :: "(callee \<times> llm_request \<Rightarrow> bool) \<Rightarrow> 'a calls \<Rightarrow> bool" where
  "behaves P m \<longleftrightarrow> (\<forall>sent. fst (m sent) \<noteq> Panic \<and> (\<exists>new. snd (m sent) = sent @ new \<and> list_all P new))"

named_theorems behaving

lemma behaves_result [behaving]: "r \<noteq> Panic \<Longrightarrow> behaves P (result r)"
  by (simp add: behaves_def result_def)

lemma bind_calls_eq:
  "bind_calls m f sent = (case fst (m sent) of Ok x \<Rightarrow> f x (snd (m sent)) | Err e \<Rightarrow> (Err e, snd (m sent)) | Panic \<Rightarrow> (Panic, snd (m sent)))"
  by (cases "m sent") (simp add: bind_calls_def split: outcome.splits)

lemma behaves_bind [behaving]:
  assumes "behaves P m" and "\<And>x. behaves P (f x)"
  shows "behaves P (bind_calls m f)"
  unfolding behaves_def
proof
  fix sent
  obtain new where m: "fst (m sent) \<noteq> Panic" "snd (m sent) = sent @ new" "list_all P new"
    using assms(1) unfolding behaves_def by blast
  show "fst (bind_calls m f sent) \<noteq> Panic \<and> (\<exists>new. snd (bind_calls m f sent) = sent @ new \<and> list_all P new)"
  proof (cases "fst (m sent)")
    case (Ok x)
    obtain more where "fst (f x (sent @ new)) \<noteq> Panic" "snd (f x (sent @ new)) = (sent @ new) @ more" "list_all P more"
      using assms(2) [of x] unfolding behaves_def by blast
    with m Ok show ?thesis by (simp add: bind_calls_eq)
  qed (use m in \<open>auto simp: bind_calls_eq\<close>)
qed

definition never_panics :: "pipeline \<Rightarrow> bool" where
  "never_panics p \<longleftrightarrow> (\<forall>earlier rq. ad_complete (prose p) earlier rq \<noteq> Panic \<and> ad_complete (extractor p) earlier rq \<noteq> Panic)"

lemma ensure_complete_calm [simp]: "ensure_complete r \<noteq> Panic"
  by (simp add: ensure_complete_def)

lemma behaves_complete [behaving]:
  assumes "never_panics p" and "P (who, rq)"
  shows "behaves P (complete p who rq)"
proof -
  have "ad_complete (adapter_of p who) earlier rq \<noteq> Panic" for earlier
    using assms(1) by (cases who) (simp_all add: never_panics_def)
  with assms(2) have "behaves P (\<lambda>sent. (ad_complete (adapter_of p who) (map snd sent) rq, sent @ [(who, rq)]))"
    by (auto simp: behaves_def)
  then show ?thesis unfolding complete_def by (intro behaving) simp_all
qed

lemma behaves_prose_calls:
  assumes "never_panics p" and "\<forall>c \<in> set cs. P (ProseCall, prose_request env p doc body anchors dur system c)"
  shows "behaves P (prose_calls env p doc body anchors dur system cs usage mapped)"
  using assms(2) by (induction cs arbitrary: usage mapped) (auto intro!: behaving assms(1))

lemma behaves_reduce:
  assumes "never_panics p" and "P (ProseCall, reduce_request p system mapped)"
  shows "behaves P (reduce env p system mapped)"
  unfolding reduce_def Let_def
  by (intro behaving) (auto simp: assms split: option.splits)

lemma behaves_run_call_a:
  assumes "never_panics p" and "\<forall>c \<in> set cs. P (ProseCall, prose_request env p doc body anchors dur system c)"
    and "\<And>mapped. P (ProseCall, reduce_request p system mapped)"
  shows "behaves P (run_call_a env p doc body anchors dur system cs)"
  unfolding run_call_a_def
  by (intro behaving behaves_prose_calls) (auto intro!: behaving behaves_reduce assms split: prod.splits)

lemma parse_extraction_calm [simp]: "parse_extraction f r \<noteq> Panic"
  by (simp add: parse_extraction_def Let_def split: sum.splits option.splits)

lemma behaves_run_call_b:
  assumes "never_panics p" and "\<forall>c \<in> set cs. P (ExtractionCall, extraction_request env p doc system c)"
  shows "behaves P (run_call_b env p doc system cs merged usage failures)"
  using assms(2)
proof (induction cs arbitrary: merged usage failures)
  case (Cons c cs)
  have "behaves P (case parse_extraction (from_str env) r of
      Ok ex \<Rightarrow> run_call_b env p doc system cs (merge_extraction merged ex) u failures
    | Err (SchemaViolation detail) \<Rightarrow> run_call_b env p doc system cs merged u (failures @ [detail])
    | Err e \<Rightarrow> result (Err e) | Panic \<Rightarrow> result Panic)" for r u
    using Cons parse_extraction_calm [of "from_str env" r]
    by (auto intro: behaves_result split: outcome.splits summarize_error.splits)
  with Cons.prems assms(1) show ?case by (auto intro!: behaves_bind behaves_complete simp: Let_def)
qed (simp add: behaves_result)

section \<open>Every request is one the provider takes\<close>

text \<open>What a request costs, without saturation, for the segments its document names.\<close>

definition request_tokens :: "environment \<Rightarrow> pipeline \<Rightarrow> llm_request \<Rightarrow> document_payload \<Rightarrow> nat" where
  "request_tokens env p rq d =
     estimate_tokens (estimates env) (rq_system rq) + rq_max_output_tokens rq + 1024 + metadata_bytes p
     + sum_list (map (block_tokens (estimates env) (dp_document d)) (dp_indices d))
     + (case rq_user_notes rq of None \<Rightarrow> 0 | Some note \<Rightarrow> length note)"

definition acceptable :: "environment \<Rightarrow> pipeline \<Rightarrow> string \<Rightarrow> anchor list \<Rightarrow> callee \<times> llm_request \<Rightarrow> bool" where
  "acceptable env p body anchors sent \<longleftrightarrow>
     validate_request (snd sent) (ad_capabilities (adapter_of p (fst sent))) = Ok ()
     \<and> (must_fit p body anchors \<longrightarrow> (\<forall>d. rq_document (snd sent) = Some d \<longrightarrow> fst sent = ProseCall \<longrightarrow>
          request_tokens env p (snd sent) d \<le> usable_context_tokens (planning_capabilities p)))"

lemma effort_for_unsupported: "\<not> supports_effort caps \<Longrightarrow> effort_for p caps = None"
  by (simp add: effort_for_def)

lemma sat_add64_fits: "sat_add64 a b + k \<le> n \<Longrightarrow> n < u64_max \<Longrightarrow> a + (b + k) \<le> n"
  by (simp add: sat_add64_def min_def split: if_splits)

lemma needed_tokens_fits:
  assumes "needed_tokens env doc body anchors dur (overhead_tokens env p system) c \<le> n" and "n < u64_max"
    and "chunk_tokens c = sum_list (map (block_tokens (estimates env) doc) (chunk_segments c))"
  shows "request_tokens env p (prose_request env p doc body anchors dur system c)
    \<lparr>dp_document = doc, dp_indices = chunk_segments c, dp_cache_ttl = ttl, dp_title = title\<rparr> \<le> n"
proof -
  let ?note = "case render_notes (note_json env) doc (chunk_segments c) body anchors dur of None \<Rightarrow> 0 | Some note \<Rightarrow> length note"
  note fits = sat_add64_fits [OF _ assms(2)]
  have "sat_add64 (sat_add64 (overhead_tokens env p system) (chunk_tokens c)) ?note + 0 \<le> n"
    using assms(1) by (simp add: needed_tokens_def)
  then have "overhead_tokens env p system + (chunk_tokens c + (?note + 0)) \<le> n" by (rule fits [OF fits])
  then have "estimate_tokens (estimates env) (sp_text system) + (pc_max_output_tokens (config p)
      + (1024 + (metadata_bytes p + (chunk_tokens c + (?note + 0))))) \<le> n"
    unfolding overhead_tokens_def by (rule fits [OF fits [OF fits]])
  then show ?thesis by (simp add: request_tokens_def prose_request_def Let_def assms(3) add.assoc)
qed

lemma prose_request_accepted: "validate_request (prose_request env p doc body anchors dur system c) (ad_capabilities (prose p)) = Ok ()"
  by (auto simp: effort_for_unsupported validate_request_def prose_request_def Let_def)

lemma reduce_request_accepted: "validate_request (reduce_request p system mapped) (ad_capabilities (prose p)) = Ok ()"
  by (auto simp: effort_for_unsupported validate_request_def reduce_request_def Let_def)

lemma extraction_request_accepted: "validate_request (extraction_request env p doc system c) (ad_capabilities (extractor p)) = Ok ()"
  by (auto simp: effort_for_unsupported validate_request_def extraction_request_def Let_def)

lemma reduce_request_acceptable: "acceptable env p body anchors (ProseCall, reduce_request p system mapped)"
  by (simp add: acceptable_def reduce_request_accepted) (simp add: reduce_request_def Let_def)

lemma requests_acceptable:
  assumes "covering (estimates env) doc cs" and "usable_context_tokens (planning_capabilities p) < u64_max"
    and "must_fit p body anchors \<longrightarrow> (\<forall>c \<in> set cs.
      needed_tokens env doc body anchors dur (overhead_tokens env p system) c \<le> usable_context_tokens (planning_capabilities p))"
    and "c \<in> set cs"
  shows "acceptable env p body anchors (ProseCall, prose_request env p doc body anchors dur system c)"
    and "acceptable env p body anchors (ExtractionCall, extraction_request env p doc system c)"
proof -
  have "chunk_tokens c = sum_list (map (block_tokens (estimates env) doc) (chunk_segments c))"
    using assms(1,4) unfolding covering_def by blast
  note fits = needed_tokens_fits [OF _ assms(2) this]
  have doc: "rq_document (prose_request env p doc body anchors dur system c) = Some \<lparr>dp_document = doc, dp_indices = chunk_segments c,
      dp_cache_ttl = clamp_ttl (ad_capabilities (prose p)) (pipeline_cache_ttl p), dp_title = DOCUMENT_TITLE\<rparr>"
    by (simp add: prose_request_def Let_def)
  show "acceptable env p body anchors (ProseCall, prose_request env p doc body anchors dur system c)"
    using assms(3,4) fits prose_request_accepted unfolding acceptable_def fst_conv snd_conv doc adapter_of.simps by blast
  show "acceptable env p body anchors (ExtractionCall, extraction_request env p doc system c)"
    by (simp add: acceptable_def extraction_request_accepted)
qed

text \<open>Every request of a run is acceptable and nothing panics.\<close>

lemma behaves_both_calls:
  assumes "never_panics p" and "\<And>mapped. P (ProseCall, reduce_request p system mapped)"
    and "\<And>c. c \<in> set cs \<Longrightarrow> P (ProseCall, prose_request env p doc body anchors dur system c)
      \<and> P (ExtractionCall, extraction_request env p doc system c)"
  shows "behaves P (both_calls env p doc body anchors dur system (pl, cs))"
  unfolding both_calls_def Let_def using assms(2,3)
  by (auto intro!: behaves_bind behaves_result behaves_run_call_a behaves_run_call_b assms(1) split: prod.splits)

lemma bind_result: "bind_calls (result r) f sent = (case r of Ok x \<Rightarrow> f x sent | Err e \<Rightarrow> (Err e, sent) | Panic \<Rightarrow> (Panic, sent))"
  by (simp add: bind_calls_def result_def split: outcome.splits)

text \<open>A run either refuses before any call or makes both calls over chunks that cover the document.\<close>

lemma run_cases:
  assumes "indexed doc"
  obtains e where "run_with_anchors env p doc body anchors dur = Some (Err e, [])"
  | pl cs where "run_with_anchors env p doc body anchors dur
        = Some (both_calls env p doc body anchors dur (assemble (augment_v1 env) (template_body (config p))) (pl, cs) [])"
      "covering (estimates env) doc cs"
      "must_fit p body anchors \<longrightarrow> (\<forall>c \<in> set cs.
         needed_tokens env doc body anchors dur
           (overhead_tokens env p (assemble (augment_v1 env) (template_body (config p)))) c
         \<le> usable_context_tokens (planning_capabilities p))"
proof -
  let ?system = "assemble (augment_v1 env) (template_body (config p))"
  obtain pl where pl: "plan_for (estimates env) doc (planning_capabilities p) = Some (Ok pl)"
    "covering (estimates env) doc (plan_chunks (estimates env) doc pl)"
    using plan_for_covering [OF assms] by blast
  have run: "run_with_anchors env p doc body anchors dur = map_option (\<lambda>fitted. bind_calls (result fitted)
      (both_calls env p doc body anchors dur ?system) []) (fit_plan env p doc body anchors dur ?system pl)"
    by (simp add: run_with_anchors_def Let_def pl(1))
  from fit_plan_covering [OF assms pl(2), where p = p and body = body and anchors = anchors and dur = dur and system = ?system] show thesis
  proof (elim disjE exE conjE)
    fix e assume "fit_plan env p doc body anchors dur ?system pl = Some (Err e)"
    then show thesis by (intro that(1) [of e]) (simp add: run bind_result)
  next
    fix pl' cs assume "fit_plan env p doc body anchors dur ?system pl = Some (Ok (pl', cs))"
      "covering (estimates env) doc cs" and fits: "must_fit p body anchors \<longrightarrow> (\<forall>c \<in> set cs.
        needed_tokens env doc body anchors dur (overhead_tokens env p ?system) c \<le> usable_context_tokens (planning_capabilities p))"
    then show thesis by (intro that(2) [of pl' cs, OF _ _ fits]) (simp_all add: run bind_result)
  qed
qed

lemma run_acceptable:
  assumes "indexed doc" and "never_panics p" and "usable_context_tokens (planning_capabilities p) < u64_max"
  shows "\<exists>r sent. run_with_anchors env p doc body anchors dur = Some (r, sent) \<and> r \<noteq> Panic
    \<and> list_all (acceptable env p body anchors) sent"
proof (rule run_cases [OF assms(1), where env = env and p = p and body = body and anchors = anchors and dur = dur])
  fix pl cs
  let ?system = "assemble (augment_v1 env) (template_body (config p))"
  let ?both = "both_calls env p doc body anchors dur ?system (pl, cs)"
  assume run: "run_with_anchors env p doc body anchors dur = Some (?both [])" and cs: "covering (estimates env) doc cs"
    and fits: "must_fit p body anchors \<longrightarrow> (\<forall>c \<in> set cs. needed_tokens env doc body anchors dur (overhead_tokens env p ?system) c
         \<le> usable_context_tokens (planning_capabilities p))"
  have "behaves (acceptable env p body anchors) ?both"
    using requests_acceptable [OF cs assms(3) fits] reduce_request_acceptable by (intro behaves_both_calls assms(2)) blast+
  then obtain new where new: "fst (?both []) \<noteq> Panic" "snd (?both []) = [] @ new" "list_all (acceptable env p body anchors) new"
    unfolding behaves_def by blast
  show ?thesis
  proof (intro exI conjI)
    show "run_with_anchors env p doc body anchors dur = Some (fst (?both []), new)" using run new(2) by (simp add: prod_eq_iff)
  qed (use new in simp_all)
qed auto

text \<open>C34. A run of the pipeline sends only requests the provider takes. For the document of any segments,
  any notes and anchors, and adapters that do not panic, the run ends, never panics, and every request it
  has sent passes the check the provider applies: citations are never asked for together with a structured
  answer, and neither citations, nor a strict schema, nor an effort is asked of a model that lacks it. When
  the request carries notes or recording metadata, every request for prose over the transcript also fits
  the context: prompt, answer, metadata, notes and the blocks of its segments.\<close>

theorem run_sends_acceptable_requests:
  assumes "never_panics p" and "usable_context_tokens (planning_capabilities p) < u64_max"
  shows "\<exists>r sent. run_with_anchors env p (from_segments segs) body anchors dur = Some (r, sent) \<and> r \<noteq> Panic
    \<and> list_all (acceptable env p body anchors) sent"
  using document_indices by (intro run_acceptable assms) (simp add: indexed_def)

definition sample_response :: llm_response where
  "sample_response = \<lparr>rs_blocks = [\<lparr>ab_text = ''Shipped.'', ab_citations = []\<rparr>], stop_reason = Some ''end_turn'', rs_usage = usage_default\<rparr>"

definition sample_adapter :: "capabilities \<Rightarrow> adapter" where
  "sample_adapter caps = \<lparr>ad_capabilities = caps, ad_model_id = MODEL_OPUS_5, ad_complete = \<lambda>earlier rq. Ok sample_response\<rparr>"

definition sample_pipeline :: "string option \<Rightarrow> pipeline" where
  "sample_pipeline context = \<lparr>prose = sample_adapter anthropic_frontier, extractor = sample_adapter local_default,
     config = \<lparr>pc_preset = Balanced, template_body = [], meeting_date = ''2026-01-05'', chat_session_open = False,
       pc_max_output_tokens = 8192, speech_context = context, pc_coverage = coverage_config_default,
       pc_validator = \<lparr>min_speaker_confidence = Finite 0\<rparr>\<rparr>\<rparr>"

definition sample_environment :: environment where
  "sample_environment = \<lparr>estimates = \<lparr>scale = \<lambda>n. min (2 * n) 1000, fraction_of = \<lambda>n fr. n div 2\<rparr>,
     tables = \<lparr>alphanumeric = \<lambda>c. True, uppercase = \<lambda>c. False, to_lowercase = \<lambda>c. c\<rparr>, augment_v1 = ''Augment.'',
     schema_text = ''{}'', note_json = raw_notes, from_str = \<lambda>cs. Inr extraction_default, below_threshold = \<lambda>a b. a < b\<rparr>"

theorem run_sends_acceptable_requests_witness:
  "\<exists>r sent. run_with_anchors sample_environment (sample_pipeline (Some ''mic'')) (from_segments [sample_segment ''a'' 0 ''we ship''])
      ''ask about dates'' [] 5000 = Some (r, sent) \<and> r \<noteq> Panic
    \<and> list_all (acceptable sample_environment (sample_pipeline (Some ''mic'')) ''ask about dates'' []) sent"
  by (rule run_sends_acceptable_requests)
    (simp_all add: never_panics_def sample_pipeline_def sample_adapter_def planning_capabilities_def metadata_bytes_def
      local_default_def anthropic_frontier_def u64_max_def Let_def)

section \<open>Both calls read the whole transcript\<close>

text \<open>The segments of the documents sent to an adapter, request by request.\<close>

definition segments_sent :: "callee \<Rightarrow> call_log \<Rightarrow> nat list list" where
  "segments_sent who sent =
     map dp_indices (List.map_filter (\<lambda>(to, rq). if to = who then rq_document rq else None) sent)"

lemma bind_calls_Ok:
  assumes "bind_calls m f sent = (Ok y, sent')"
  obtains x mid where "m sent = (Ok x, mid)" "f x mid = (Ok y, sent')"
  using assms by (cases "m sent") (auto simp: bind_calls_def split: outcome.splits)

lemma result_Ok [simp]: "result r sent = (Ok y, sent') \<longleftrightarrow> r = Ok y \<and> sent' = sent"
  by (auto simp: result_def)

lemma complete_Ok: "complete p who rq sent = (Ok y, sent') \<Longrightarrow> sent' = sent @ [(who, rq)]"
  unfolding complete_def by (auto elim!: bind_calls_Ok)

lemma prose_calls_Ok:
  "prose_calls env p doc body anchors dur system cs usage mapped sent = (Ok y, sent') \<Longrightarrow>
     sent' = sent @ map (\<lambda>c. (ProseCall, prose_request env p doc body anchors dur system c)) cs"
proof (induction cs arbitrary: usage mapped sent)
  case (Cons c cs)
  from Cons.prems show ?case by (auto elim!: bind_calls_Ok dest!: complete_Ok Cons.IH)
qed simp

lemma run_call_b_Ok:
  "run_call_b env p doc system cs merged usage failures sent = (Ok y, sent') \<Longrightarrow>
     sent' = sent @ map (\<lambda>c. (ExtractionCall, extraction_request env p doc system c)) cs"
proof (induction cs arbitrary: merged usage failures sent)
  case (Cons c cs)
  from Cons.prems show ?case
    by (auto elim!: bind_calls_Ok dest!: complete_Ok Cons.IH simp: Let_def split: outcome.splits summarize_error.splits)
qed simp

lemma reduce_Ok: "reduce env p system mapped sent = (Ok y, sent') \<Longrightarrow> sent' = sent @ [(ProseCall, reduce_request p system mapped)]"
  unfolding reduce_def Let_def by (auto elim!: bind_calls_Ok dest!: complete_Ok)

lemma segments_sent_append [simp]: "segments_sent who (a @ b) = segments_sent who a @ segments_sent who b"
  by (simp add: segments_sent_def List.map_filter_def)

lemma segments_sent_reduce [simp]: "segments_sent who [(to, reduce_request p system mapped)] = []"
  by (simp add: segments_sent_def map_filter_simps reduce_request_def Let_def)

lemma segments_sent_prose [simp]:
  "segments_sent who (map (\<lambda>c. (ProseCall, prose_request env p doc body anchors dur system c)) cs)
     = (if who = ProseCall then map chunk_segments cs else [])"
  by (induction cs) (auto simp: segments_sent_def map_filter_simps prose_request_def Let_def)

lemma segments_sent_extraction [simp]:
  "segments_sent who (map (\<lambda>c. (ExtractionCall, extraction_request env p doc system c)) cs)
     = (if who = ExtractionCall then map chunk_segments cs else [])"
  by (induction cs) (auto simp: segments_sent_def map_filter_simps extraction_request_def Let_def)

lemma run_call_a_Ok:
  assumes "run_call_a env p doc body anchors dur system cs sent = (Ok y, sent')"
  shows "segments_sent who sent' = segments_sent who sent @ (if who = ProseCall then map chunk_segments cs else [])"
  using assms unfolding run_call_a_def
  by (elim bind_calls_Ok) (auto elim!: bind_calls_Ok dest!: prose_calls_Ok reduce_Ok split: prod.splits if_splits)

lemma both_calls_Ok:
  assumes "both_calls env p doc body anchors dur system (pl, cs) [] = (Ok so, sent)"
  shows "segments_sent who sent = map chunk_segments cs"
proof -
  obtain a mid b where a: "run_call_a env p doc body anchors dur system cs [] = (Ok a, mid)"
    and b: "run_call_b env p doc system cs extraction_default usage_default [] mid = (Ok b, sent)"
    using assms unfolding both_calls_def Let_def split by (auto elim!: bind_calls_Ok split: prod.splits)
  have "segments_sent who [] = []" by (simp add: segments_sent_def List.map_filter_def)
  with run_call_a_Ok [OF a, of who] run_call_b_Ok [OF b] show ?thesis by (cases who) simp_all
qed

text \<open>C35. A summary rests on the whole transcript. When a run returns, the segments of the documents sent
  for prose are those of the documents sent for extraction, request by request, and both are the segments
  of chunks that, without the part each repeats of the one before, are every segment of the document once
  and in order.\<close>

theorem summary_reads_whole_transcript:
  assumes "run_with_anchors env p (from_segments segs) body anchors dur = Some (Ok so, sent)"
  shows "\<exists>cs. concat (map fresh_segments cs) = [0..<length (from_segments segs)]
    \<and> segments_sent ProseCall sent = map chunk_segments cs \<and> segments_sent ExtractionCall sent = map chunk_segments cs"
proof -
  have "indexed (from_segments segs)" using document_indices by (simp add: indexed_def)
  then show ?thesis
  proof (rule run_cases [where env = env and p = p and body = body and anchors = anchors and dur = dur])
    fix pl cs
    assume run: "run_with_anchors env p (from_segments segs) body anchors dur = Some (both_calls env p (from_segments segs)
        body anchors dur (assemble (augment_v1 env) (template_body (config p))) (pl, cs) [])"
      and "covering (estimates env) (from_segments segs) cs"
    then have "concat (map fresh_segments cs) = [0..<length (from_segments segs)]"
      by (simp add: covering_def all_indices_def)
    moreover have "segments_sent who sent = map chunk_segments cs" for who
      using assms run by (intro both_calls_Ok) simp
    ultimately show ?thesis by blast
  qed (use assms in simp)
qed

lemma sample_complete: "complete (sample_pipeline context) who rq sent = (Ok sample_response, sent @ [(who, rq)])"
  by (cases who) (simp_all add: complete_def bind_calls_def result_def ensure_complete_def sample_pipeline_def
    sample_adapter_def sample_response_def)

lemma sample_extraction: "parse_extraction (from_str sample_environment) r = Ok extraction_default"
  by (simp add: parse_extraction_def sample_environment_def Let_def)

theorem summary_reads_whole_transcript_witness:
  "\<exists>so sent. run_with_anchors sample_environment (sample_pipeline None) (from_segments [sample_segment ''a'' 0 ''we ship'']) [] [] 5000
      = Some (Ok so, sent) \<and> segments_sent ExtractionCall sent = segments_sent ProseCall sent"
proof -
  let ?doc = "from_segments [sample_segment ''a'' 0 ''we ship'']"
  have "\<exists>so sent. run_with_anchors sample_environment (sample_pipeline None) ?doc [] [] 5000 = Some (Ok so, sent)"
  proof -
    have "length ?doc \<le> 1" by (simp add: from_segments_def newest_of_def)
    moreover have "estimate_block_tokens (estimates sample_environment) cs \<le> 1008" for cs
      by (simp add: estimate_block_tokens_def estimate_tokens_def sample_environment_def PER_BLOCK_OVERHEAD_TOKENS_def Let_def)
    ultimately have "estimated_tokens (estimates sample_environment) ?doc \<le> 1008"
      by (cases ?doc) (simp_all add: estimated_tokens_def)
    then have plan: "plan_for (estimates sample_environment) ?doc anthropic_frontier = Some (Ok SingleShot)"
      by (simp add: plan_for_def fits_single_shot_def single_shot_budget_tokens_def anthropic_frontier_def)
        (simp add: sample_environment_def)
    have "planning_capabilities (sample_pipeline None) = anthropic_frontier"
      by (simp add: planning_capabilities_def sample_pipeline_def sample_adapter_def metadata_bytes_def Let_def)
    moreover have "\<not> must_fit (sample_pipeline None) [] []"
      by (simp add: must_fit_def metadata_bytes_def sample_pipeline_def trim_def trim_matches_def)
    ultimately show ?thesis using plan
      by (simp add: run_with_anchors_def Let_def fit_plan_def bind_calls_def result_def both_calls_def run_call_a_def
        sample_complete sample_extraction)
  qed
  then obtain so sent where run: "run_with_anchors sample_environment (sample_pipeline None) ?doc [] [] 5000 = Some (Ok so, sent)"
    by blast
  from summary_reads_whole_transcript [OF this] have "segments_sent ExtractionCall sent = segments_sent ProseCall sent" by auto
  with run show ?thesis by blast
qed

end
