(* ===== verification/Capture_Watch.thy ===== *)
theory Capture_Watch
  imports Prelude "HOL-Library.Word"
begin

text \<open>
  What a recording is watched by: the mailbox of device changes and its debounce
  (\<^verbatim>\<open>crates/fotw-audio/src/device_change.rs\<close>) and the stall detector
  (\<^verbatim>\<open>watchdog.rs\<close>). Times are nanoseconds of the host clock, read by the caller. The atomic
  read-modify-writes of the mailbox and the counters are steps of their own. Verdicts are related to the
  history of what was observed.
\<close>

unbundle bit_operations_syntax

section \<open>Device changes\<close>

datatype device_change_kind = DefaultOutput | DefaultInput | DeviceList | StreamFormatChange | WillSleep | DidWake

definition ALL_KINDS :: "device_change_kind list" where
  "ALL_KINDS = [DefaultOutput, DefaultInput, DeviceList, StreamFormatChange, WillSleep, DidWake]"

fun kind_bit :: "device_change_kind \<Rightarrow> 32 word" where
  "kind_bit DefaultOutput = 1"
| "kind_bit DefaultInput = 2"
| "kind_bit DeviceList = 4"
| "kind_bit StreamFormatChange = 8"
| "kind_bit WillSleep = 16"
| "kind_bit DidWake = 32"

fun kind_as_str :: "device_change_kind \<Rightarrow> string" where
  "kind_as_str DefaultOutput = ''default-output''"
| "kind_as_str DefaultInput = ''default-input''"
| "kind_as_str DeviceList = ''device-list''"
| "kind_as_str StreamFormatChange = ''stream-format''"
| "kind_as_str WillSleep = ''will-sleep''"
| "kind_as_str DidWake = ''did-wake''"

type_synonym device_changes = "32 word"

definition no_changes :: device_changes where "no_changes = 0"

definition has_kind :: "device_changes \<Rightarrow> device_change_kind \<Rightarrow> bool" where
  "has_kind cs k \<longleftrightarrow> cs AND kind_bit k \<noteq> 0"

definition with_kind :: "device_changes \<Rightarrow> device_change_kind \<Rightarrow> device_changes" where
  "with_kind cs k = cs OR kind_bit k"

definition changes_of :: "device_change_kind list \<Rightarrow> device_changes" where
  "changes_of ks = foldl with_kind no_changes ks"

definition intersects :: "device_changes \<Rightarrow> device_changes \<Rightarrow> bool" where
  "intersects a b \<longleftrightarrow> a AND b \<noteq> 0"

definition change_kinds :: "device_changes \<Rightarrow> device_change_kind list" where
  "change_kinds cs = filter (has_kind cs) ALL_KINDS"

text \<open>The mailbox between a platform notification and the supervisor.\<close>

record change_signal =
  cs_pending :: device_changes
  cs_raises :: nat

definition change_signal_new :: change_signal where
  "change_signal_new = \<lparr>cs_pending = no_changes, cs_raises = 0\<rparr>"

definition raise_change :: "device_change_kind \<Rightarrow> change_signal \<Rightarrow> change_signal" where
  "raise_change k sg = sg\<lparr>cs_pending := cs_pending sg OR kind_bit k, cs_raises := wrapping_add64 (cs_raises sg) 1\<rparr>"

definition take_changes :: "change_signal \<Rightarrow> device_changes \<times> change_signal" where
  "take_changes sg = (cs_pending sg, sg\<lparr>cs_pending := no_changes\<rparr>)"

text \<open>A duration is a number of nanoseconds; \<^verbatim>\<open>as_nanos() as u64\<close> keeps its low 64 bits.\<close>

definition as_nanos :: "nat \<Rightarrow> nat" where
  "as_nanos d = d mod (u64_max + 1)"

record debounce =
  db_quiet :: nat
  db_ceiling :: nat
  first_ns :: "nat option"
  last_ns :: nat

definition debounce_new :: "nat \<Rightarrow> nat \<Rightarrow> debounce" where
  "debounce_new quiet limit = \<lparr>db_quiet = quiet, db_ceiling = limit, first_ns = None, last_ns = 0\<rparr>"

definition debounce_signal :: "nat \<Rightarrow> debounce \<Rightarrow> debounce" where
  "debounce_signal now d = d\<lparr>first_ns := get_or_insert (first_ns d) now, last_ns := now\<rparr>"

definition debounce_pending :: "debounce \<Rightarrow> bool" where
  "debounce_pending d \<longleftrightarrow> first_ns d \<noteq> None"

definition debounce_poll :: "nat \<Rightarrow> debounce \<Rightarrow> bool \<times> debounce" where
  "debounce_poll now d =
     (case first_ns d of
        None \<Rightarrow> (False, d)
      | Some first \<Rightarrow>
          if as_nanos (db_quiet d) \<le> now - last_ns d \<or> as_nanos (db_ceiling d) \<le> now - first
          then (True, d\<lparr>first_ns := None\<rparr>) else (False, d))"

definition debounce_clear :: "debounce \<Rightarrow> debounce" where
  "debounce_clear d = d\<lparr>first_ns := None\<rparr>"

section \<open>The watchdog\<close>

record tap_activity =
  ta_buffers :: nat
  ta_silent :: nat
  ta_frames :: nat

text \<open>One callback bumps the counters.\<close>

definition record_buffer :: "nat \<Rightarrow> bool \<Rightarrow> tap_activity \<Rightarrow> tap_activity" where
  "record_buffer frames silent a =
     \<lparr>ta_buffers = wrapping_add64 (ta_buffers a) 1,
      ta_silent = (if silent then wrapping_add64 (ta_silent a) 1 else ta_silent a),
      ta_frames = wrapping_add64 (ta_frames a) frames\<rparr>"

datatype output_activity = OutputActive | OutputIdle | OutputUnknown

datatype fault = NoBuffers nat nat | SilentWhileOutputRunning nat nat

fun fault_since_ns :: "fault \<Rightarrow> nat" where
  "fault_since_ns (NoBuffers since len) = since"
| "fault_since_ns (SilentWhileOutputRunning since len) = since"

fun fault_as_str :: "fault \<Rightarrow> string" where
  "fault_as_str (NoBuffers since len) = ''no-buffers''"
| "fault_as_str (SilentWhileOutputRunning since len) = ''silent-while-output-running''"

datatype verdict = Healthy | NoAudio nat | Faulted fault

record watchdog_config =
  no_buffer_timeout :: nat
  silence_timeout :: nat
  quiet_notice_after :: nat
  emits_silence_when_idle :: bool

definition watchdog_config_default :: watchdog_config where
  "watchdog_config_default = \<lparr>no_buffer_timeout = 5 * 10 ^ 9, silence_timeout = 30 * 10 ^ 9,
     quiet_notice_after = 30 * 10 ^ 9, emits_silence_when_idle = True\<rparr>"

record watchdog =
  wd_config :: watchdog_config
  baseline :: "tap_activity option"
  armed_at_ns :: nat
  last_poll_ns :: nat
  last_frames_ns :: nat
  quiet_since_ns :: "nat option"
  corroborated_since_ns :: "nat option"
  audible_since_arm :: bool

definition watchdog_new :: "watchdog_config \<Rightarrow> watchdog" where
  "watchdog_new cfg = \<lparr>wd_config = cfg, baseline = None, armed_at_ns = 0, last_poll_ns = 0, last_frames_ns = 0,
     quiet_since_ns = None, corroborated_since_ns = None, audible_since_arm = False\<rparr>"

definition arm :: "nat \<Rightarrow> watchdog \<Rightarrow> watchdog" where
  "arm now w = \<lparr>wd_config = wd_config w, baseline = None, armed_at_ns = now, last_poll_ns = now, last_frames_ns = now,
     quiet_since_ns = None, corroborated_since_ns = None, audible_since_arm = False\<rparr>"

definition starvation_verdict :: "watchdog \<Rightarrow> nat \<Rightarrow> output_activity \<Rightarrow> verdict" where
  "starvation_verdict w now probe =
     (let since = max (last_frames_ns w) (armed_at_ns w); len = now - since
      in if len < as_nanos (no_buffer_timeout (wd_config w)) then Healthy
         else if \<not> emits_silence_when_idle (wd_config w) \<and> probe \<noteq> OutputActive then NoAudio len
         else Faulted (NoBuffers since len))"

text \<open>What new callbacks say about the tap.\<close>

definition note_progress :: "nat \<Rightarrow> nat \<Rightarrow> tap_activity \<Rightarrow> tap_activity \<Rightarrow> watchdog \<Rightarrow> watchdog" where
  "note_progress prev_poll now before a w =
     (let new_frames = ta_frames a - ta_frames before;
          new_buffers = ta_buffers a - ta_buffers before;
          new_silent = ta_silent a - ta_silent before;
          w = (if 0 < new_frames then w\<lparr>last_frames_ns := now\<rparr> else w)
      in if 0 < new_buffers
         then (if new_silent = new_buffers then w\<lparr>quiet_since_ns := get_or_insert (quiet_since_ns w) prev_poll\<rparr>
               else w\<lparr>quiet_since_ns := None, corroborated_since_ns := None, audible_since_arm := True\<rparr>)
         else w)"

definition quiet_verdict :: "watchdog \<Rightarrow> nat \<Rightarrow> nat \<Rightarrow> verdict" where
  "quiet_verdict w now quiet_since =
     (let quiet_for = wrapping_sub64 now quiet_since
      in if as_nanos (quiet_notice_after (wd_config w)) \<le> quiet_for then NoAudio quiet_for else Healthy)"

definition silence_verdict :: "nat \<Rightarrow> nat \<Rightarrow> nat \<Rightarrow> output_activity \<Rightarrow> watchdog \<Rightarrow> watchdog \<times> verdict" where
  "silence_verdict prev_poll now quiet_since probe w =
     (case probe of
        OutputActive \<Rightarrow>
          (let since = (case corroborated_since_ns w of None \<Rightarrow> prev_poll | Some c \<Rightarrow> c);
               w = w\<lparr>corroborated_since_ns := Some since\<rparr>;
               len = wrapping_sub64 now since
           in if as_nanos (silence_timeout (wd_config w)) \<le> len
              then (w, Faulted (SilentWhileOutputRunning quiet_since len))
              else (w, quiet_verdict w now quiet_since))
      | _ \<Rightarrow> (let w = w\<lparr>corroborated_since_ns := None\<rparr> in (w, quiet_verdict w now quiet_since)))"

definition watchdog_poll :: "nat \<Rightarrow> tap_activity \<Rightarrow> output_activity \<Rightarrow> watchdog \<Rightarrow> watchdog \<times> verdict" where
  "watchdog_poll now a probe w =
     (let prev_poll = last_poll_ns w; seen = w\<lparr>baseline := Some a, last_poll_ns := now\<rparr>
      in case baseline w of
           None \<Rightarrow> (seen, starvation_verdict seen now probe)
         | Some before \<Rightarrow>
             if ta_frames before \<le> ta_frames a \<and> ta_buffers before \<le> ta_buffers a
             then (let w = note_progress prev_poll now before a seen
                   in case starvation_verdict w now probe of
                        Faulted f \<Rightarrow> (w, Faulted f)
                      | _ \<Rightarrow>
                          (case quiet_since_ns w of
                             None \<Rightarrow> (w\<lparr>corroborated_since_ns := None\<rparr>, Healthy)
                           | Some quiet_since \<Rightarrow> silence_verdict prev_poll now quiet_since probe w))
             else (seen\<lparr>last_frames_ns := now, quiet_since_ns := None, corroborated_since_ns := None\<rparr>, Healthy))"

section \<open>Changes are not lost\<close>

fun kind_index :: "device_change_kind \<Rightarrow> nat" where
  "kind_index DefaultOutput = 0"
| "kind_index DefaultInput = 1"
| "kind_index DeviceList = 2"
| "kind_index StreamFormatChange = 3"
| "kind_index WillSleep = 4"
| "kind_index DidWake = 5"

lemma kind_index_small [simp]: "kind_index k < 32"
  by (cases k) simp_all

lemma kind_index_inject [simp]: "kind_index k = kind_index k' \<longleftrightarrow> k = k'"
  by (cases k; cases k') simp_all

lemma kind_bit_push: "kind_bit k = push_bit (kind_index k) 1"
  by (cases k) simp_all

lemma has_kind_bit: "has_kind cs k \<longleftrightarrow> bit cs (kind_index k)"
  by (simp add: has_kind_def kind_bit_push bit_iff_and_push_bit_not_eq_0)

lemma has_kind_simps [simp]:
  "\<not> has_kind no_changes k"
  "has_kind (cs OR kind_bit k) k' \<longleftrightarrow> k' = k \<or> has_kind cs k'"
  "has_kind (with_kind cs k) k' \<longleftrightarrow> k' = k \<or> has_kind cs k'"
  by (auto simp: has_kind_bit no_changes_def with_kind_def kind_bit_push bit_or_iff bit_push_bit_iff bit_1_iff bit_exp_iff)

lemma has_kind_of [simp]: "has_kind (changes_of ks) k \<longleftrightarrow> k \<in> set ks"
proof -
  have "has_kind (foldl with_kind cs ks) k \<longleftrightarrow> k \<in> set ks \<or> has_kind cs k" for cs
    by (induction ks arbitrary: cs) auto
  then show ?thesis by (simp add: changes_of_def)
qed

lemma set_change_kinds [simp]: "set (change_kinds cs) = {k. has_kind cs k}"
proof -
  have "k \<in> set ALL_KINDS" for k by (cases k) (simp_all add: ALL_KINDS_def)
  then show ?thesis by (auto simp: change_kinds_def)
qed

text \<open>A use of the mailbox: a notification, or the supervisor taking what is pending.\<close>

datatype mailbox_use = Notify device_change_kind | TakeAll

fun mailbox_step :: "change_signal \<Rightarrow> mailbox_use \<Rightarrow> change_signal \<times> device_changes option" where
  "mailbox_step sg (Notify k) = (raise_change k sg, None)"
| "mailbox_step sg TakeAll = (case take_changes sg of (cs, sg) \<Rightarrow> (sg, Some cs))"

text \<open>The notifications since the last time the mailbox was emptied.\<close>

definition since_taken :: "mailbox_use list \<Rightarrow> device_change_kind list" where
  "since_taken uses = List.map_filter (\<lambda>u. case u of Notify k \<Rightarrow> Some k | TakeAll \<Rightarrow> None)
     (takeWhile (\<lambda>u. u \<noteq> TakeAll) (List.rev uses))"

lemma mailbox_pending:
  "has_kind (cs_pending (run_state mailbox_step change_signal_new uses)) k \<longleftrightarrow> k \<in> set (since_taken uses)"
proof (induction uses rule: rev_induct)
  case (snoc u uses)
  then show ?case
    by (cases u) (auto simp: raise_change_def take_changes_def since_taken_def List.map_filter_def)
qed (simp add: change_signal_new_def since_taken_def List.map_filter_def)

section \<open>Verdicts and what was observed\<close>

record watch_report =
  ob_now :: nat
  ob_activity :: tap_activity
  ob_probe :: output_activity

definition watch_step :: "watchdog \<Rightarrow> watch_report \<Rightarrow> watchdog \<times> verdict" where
  "watch_step w o1 = watchdog_poll (ob_now o1) (ob_activity o1) (ob_probe o1) w"

abbreviation frames_of :: "watch_report \<Rightarrow> nat" where "frames_of x \<equiv> ta_frames (ob_activity x)"

abbreviation buffers_of :: "watch_report \<Rightarrow> nat" where "buffers_of x \<equiv> ta_buffers (ob_activity x)"

abbreviation silent_of :: "watch_report \<Rightarrow> nat" where "silent_of x \<equiv> ta_silent (ob_activity x)"

text \<open>Observations of one tap: the clock and the counters do not run backwards.\<close>

definition orderly :: "nat \<Rightarrow> watch_report list \<Rightarrow> bool" where
  "orderly t0 obs \<longleftrightarrow> sorted (t0 # map ob_now obs) \<and> sorted (map frames_of obs) \<and> sorted (map buffers_of obs)
     \<and> (\<forall>x \<in> set obs. ob_now x \<le> u64_max)"

text \<open>When frames last arrived, as seen by the observer.\<close>

fun last_progress :: "nat \<Rightarrow> watch_report list \<Rightarrow> nat" where
  "last_progress t (x # y # obs) = last_progress (if frames_of x < frames_of y then ob_now y else t) (y # obs)"
| "last_progress t obs = t"

text \<open>All callbacks between two observations were silent.\<close>

definition no_sound :: "watch_report \<Rightarrow> watch_report \<Rightarrow> bool" where
  "no_sound x y \<longleftrightarrow> (buffers_of x < buffers_of y \<longrightarrow> silent_of y - silent_of x = buffers_of y - buffers_of x)"

text \<open>A stretch of observations from a time to the end without sound, all of a kind.\<close>

definition stretch :: "(watch_report \<Rightarrow> bool) \<Rightarrow> watch_report list \<Rightarrow> nat \<Rightarrow> bool" where
  "stretch P obs t \<longleftrightarrow> (\<exists>xs z ys. obs = xs @ z # ys \<and> ys \<noteq> [] \<and> ob_now z = t \<and> successively no_sound (z # ys)
     \<and> list_all P ys)"

text \<open>A stretch in which every observation has new callbacks, all of them silent, while output is running.\<close>

definition mute_stretch :: "watch_report list \<Rightarrow> nat \<Rightarrow> bool" where
  "mute_stretch obs t \<longleftrightarrow> (\<exists>xs z ys. obs = xs @ z # ys \<and> ys \<noteq> [] \<and> ob_now z = t
     \<and> successively (\<lambda>x y. buffers_of x < buffers_of y \<and> no_sound x y) (z # ys) \<and> list_all (\<lambda>y. ob_probe y = OutputActive) ys)"

lemma mute_stretch_snoc:
  assumes "mute_stretch (obs @ [x, y]) t"
  shows "buffers_of x < buffers_of y" "no_sound x y" "ob_probe y = OutputActive" "t = ob_now x \<or> mute_stretch (obs @ [x]) t"
proof -
  let ?P = "\<lambda>x y. buffers_of x < buffers_of y \<and> no_sound x y"
  obtain xs z ys where *: "obs @ [x, y] = xs @ z # ys" "ys \<noteq> []" "ob_now z = t" "successively ?P (z # ys)"
    "list_all (\<lambda>y. ob_probe y = OutputActive) ys"
    using assms unfolding mute_stretch_def by blast
  obtain zs y1 where ys1: "ys = zs @ [y1]" using *(2) by (cases ys rule: rev_cases) simp_all
  have "(obs @ [x]) @ [y] = (xs @ z # zs) @ [y1]" using *(1) ys1 by simp
  then have split: "obs @ [x] = xs @ z # zs" and ys: "ys = zs @ [y]" using ys1 unfolding append1_eq_conv by simp_all
  have "x = last (obs @ [x])" by simp
  also have "\<dots> = last (z # zs)" unfolding split by simp
  finally have x: "x = last (z # zs)" .
  have "successively ?P ((z # zs) @ [y])" using *(4) ys by simp
  then have "?P x y" "successively ?P (z # zs)" unfolding successively_append_iff x by simp_all
  then show "buffers_of x < buffers_of y" "no_sound x y" "ob_probe y = OutputActive" using *(5) ys by simp_all
  show "t = ob_now x \<or> mute_stretch (obs @ [x]) t"
  proof (cases "zs = []")
    case False
    with split *(3,5) ys \<open>successively ?P (z # zs)\<close> have "mute_stretch (obs @ [x]) t"
      unfolding mute_stretch_def by (intro exI [of _ xs] exI [of _ z] exI [of _ zs]) simp
    then show ?thesis ..
  qed (use x *(3) in simp)
qed

lemma last_progress_snoc:
  "last_progress t (obs @ [x, y]) = (if frames_of x < frames_of y then ob_now y else last_progress t (obs @ [x]))"
proof (induction t obs rule: last_progress.induct)
  case (1 t a b obs)
  then show ?case by simp
qed (auto simp: Cons_eq_append_conv)

lemma last_progress_ge: "sorted (t # map ob_now obs) \<Longrightarrow> t \<le> last_progress t obs"
  by (induction t obs rule: last_progress.induct) (auto split: if_splits intro: order_trans)

lemma stretch_extend:
  assumes "stretch P (obs @ [x]) t" and "no_sound x y" and "P y"
  shows "stretch P (obs @ [x, y]) t"
proof -
  obtain xs z ys where *: "obs @ [x] = xs @ z # ys" "ys \<noteq> []" "ob_now z = t" "successively no_sound (z # ys)" "list_all P ys"
    using assms(1) unfolding stretch_def by blast
  have "x = last (obs @ [x])" by simp
  also have "\<dots> = last (z # ys)" unfolding *(1) by simp
  finally have "last (z # ys) = x" by (rule sym)
  with * assms(2) have "successively no_sound ((z # ys) @ [y])" by (simp only: successively_append_iff) simp
  then have "successively no_sound (z # (ys @ [y]))" by simp
  moreover have "obs @ [x, y] = xs @ z # (ys @ [y])" using *(1) by simp
  moreover have "list_all P (ys @ [y])" using *(5) assms(3) by simp
  ultimately show ?thesis using *(3) unfolding stretch_def by blast
qed

lemma stretch_begin:
  assumes "no_sound x y" and "P y"
  shows "stretch P (obs @ [x, y]) (ob_now x)"
  unfolding stretch_def using assms
  by (intro exI [of _ obs] exI [of _ x] exI [of _ "[y]"]) simp

lemma stretch_le:
  assumes "stretch P obs t" and "sorted (map ob_now obs)"
  shows "t \<le> ob_now (last obs)"
  using assms unfolding stretch_def by (auto simp: sorted_append)

text \<open>What a watchdog that has not faulted knows.\<close>

definition tracks :: "watchdog_config \<Rightarrow> nat \<Rightarrow> watch_report list \<Rightarrow> watchdog \<Rightarrow> bool" where
  "tracks cfg t0 obs w \<longleftrightarrow> wd_config w = cfg \<and> armed_at_ns w = t0 \<and> last_frames_ns w = last_progress t0 obs
     \<and> last_poll_ns w = last (t0 # map ob_now obs) \<and> baseline w = (if obs = [] then None else Some (ob_activity (last obs)))
     \<and> (\<forall>q. quiet_since_ns w = Some q \<longrightarrow> stretch (\<lambda>_. True) obs q)
     \<and> (\<forall>c. corroborated_since_ns w = Some c \<longrightarrow> stretch (\<lambda>x. ob_probe x = OutputActive) obs c
          \<and> (\<exists>q. quiet_since_ns w = Some q \<and> q \<le> c))
     \<and> (\<forall>t. mute_stretch obs t \<longrightarrow> (\<exists>c. corroborated_since_ns w = Some c \<and> c \<le> t))"

lemma tracks_arm: "tracks (wd_config w) t0 [] (arm t0 w)"
  by (simp add: tracks_def arm_def mute_stretch_def)

lemma orderly_snoc:
  assumes "orderly t0 (obs @ [x, y])"
  shows "frames_of x \<le> frames_of y" "buffers_of x \<le> buffers_of y" "ob_now x \<le> ob_now y" "ob_now y \<le> u64_max"
    "t0 \<le> last_progress t0 (obs @ [x, y])" "sorted (map ob_now (obs @ [x, y]))"
  using assms last_progress_ge [of t0 "obs @ [x, y]"] unfolding orderly_def by (auto simp: sorted_append)

lemma note_progress_tracks:
  fixes obs x y w
  defines "w1 \<equiv> note_progress (ob_now x) (ob_now y) (ob_activity x) (ob_activity y)
    (w\<lparr>baseline := Some (ob_activity y), last_poll_ns := ob_now y\<rparr>)"
  assumes "tracks cfg t0 (obs @ [x]) w" and "orderly t0 (obs @ [x, y])"
  shows "wd_config w1 = cfg" "armed_at_ns w1 = t0" "last_frames_ns w1 = last_progress t0 (obs @ [x, y])"
    "last_poll_ns w1 = ob_now y" "baseline w1 = Some (ob_activity y)"
    "quiet_since_ns w1 = Some q \<Longrightarrow> stretch (\<lambda>_. True) (obs @ [x, y]) q \<and> no_sound x y \<and> q \<le> ob_now x"
    "corroborated_since_ns w1 = Some c \<Longrightarrow> corroborated_since_ns w = Some c \<and> (\<exists>q. quiet_since_ns w1 = Some q \<and> q \<le> c)"
    "buffers_of x < buffers_of y \<Longrightarrow> no_sound x y \<Longrightarrow> quiet_since_ns w1 \<noteq> None \<and> corroborated_since_ns w1 = corroborated_since_ns w"
proof -
  note facts = assms(2) [unfolded tracks_def]
  show "wd_config w1 = cfg" "armed_at_ns w1 = t0" "last_frames_ns w1 = last_progress t0 (obs @ [x, y])"
    "last_poll_ns w1 = ob_now y" "baseline w1 = Some (ob_activity y)"
    using facts by (auto simp: w1_def note_progress_def Let_def last_progress_snoc)
  have old: "stretch (\<lambda>_. True) (obs @ [x]) q \<and> q \<le> ob_now x" if "quiet_since_ns w = Some q" for q
    using facts that stretch_le [of _ "obs @ [x]" q] orderly_snoc(6) [OF assms(3)] by (auto simp: sorted_append)
  show "stretch (\<lambda>_. True) (obs @ [x, y]) q \<and> no_sound x y \<and> q \<le> ob_now x" if q: "quiet_since_ns w1 = Some q"
  proof (cases "quiet_since_ns w")
    case None
    with q have "no_sound x y" "q = ob_now x"
      by (auto simp: w1_def note_progress_def Let_def no_sound_def split: if_splits)
    with stretch_begin [of x y "\<lambda>_. True" obs] show ?thesis by simp
  next
    case (Some q')
    with q have "no_sound x y" "q = q'"
      by (auto simp: w1_def note_progress_def Let_def no_sound_def split: if_splits)
    with old [OF Some] stretch_extend [of "\<lambda>_. True" obs x q y] show ?thesis by simp
  qed
  show "corroborated_since_ns w = Some c \<and> (\<exists>q. quiet_since_ns w1 = Some q \<and> q \<le> c)" if "corroborated_since_ns w1 = Some c"
    using that facts by (fastforce simp: w1_def note_progress_def Let_def split: if_splits)
  show "quiet_since_ns w1 \<noteq> None \<and> corroborated_since_ns w1 = corroborated_since_ns w"
    if "buffers_of x < buffers_of y" "no_sound x y"
    using that by (simp add: w1_def note_progress_def Let_def no_sound_def)
qed

definition is_fault :: "verdict \<Rightarrow> bool" where
  "is_fault v \<longleftrightarrow> (\<exists>f. v = Faulted f)"

text \<open>A verdict that agrees with what was observed.\<close>

definition justified :: "watchdog_config \<Rightarrow> nat \<Rightarrow> watch_report list \<Rightarrow> verdict \<Rightarrow> bool" where
  "justified cfg t0 obs v \<longleftrightarrow>
     (\<forall>s n. v = Faulted (NoBuffers s n) \<longleftrightarrow> s = last_progress t0 obs \<and> n = ob_now (last obs) - s
        \<and> as_nanos (no_buffer_timeout cfg) \<le> n \<and> (emits_silence_when_idle cfg \<or> ob_probe (last obs) = OutputActive))
     \<and> (\<forall>q n. v = Faulted (SilentWhileOutputRunning q n) \<longrightarrow> as_nanos (silence_timeout cfg) \<le> n
        \<and> stretch (\<lambda>x. ob_probe x = OutputActive) obs (ob_now (last obs) - n) \<and> stretch (\<lambda>_. True) obs q
        \<and> q \<le> ob_now (last obs) - n)
     \<and> (\<forall>t. mute_stretch obs t \<and> as_nanos (silence_timeout cfg) \<le> ob_now (last obs) - t \<longrightarrow> is_fault v)"

lemma justified_calm:
  assumes "\<And>s n. \<not> (s = last_progress t0 obs \<and> n = ob_now (last obs) - s
      \<and> as_nanos (no_buffer_timeout cfg) \<le> n \<and> (emits_silence_when_idle cfg \<or> ob_probe (last obs) = OutputActive))"
    and "\<And>f. v = Faulted f \<Longrightarrow> \<exists>q n. f = SilentWhileOutputRunning q n \<and> as_nanos (silence_timeout cfg) \<le> n
        \<and> stretch (\<lambda>x. ob_probe x = OutputActive) obs (ob_now (last obs) - n) \<and> stretch (\<lambda>_. True) obs q
        \<and> q \<le> ob_now (last obs) - n"
    and "\<And>t. mute_stretch obs t \<Longrightarrow> as_nanos (silence_timeout cfg) \<le> ob_now (last obs) - t \<Longrightarrow> is_fault v"
  shows "justified cfg t0 obs v"
  unfolding justified_def
proof (intro conjI allI impI)
  fix s n
  show "v = Faulted (NoBuffers s n) \<longleftrightarrow> s = last_progress t0 obs \<and> n = ob_now (last obs) - s
      \<and> as_nanos (no_buffer_timeout cfg) \<le> n \<and> (emits_silence_when_idle cfg \<or> ob_probe (last obs) = OutputActive)"
    using assms(1) [of s n] assms(2) [of "NoBuffers s n"] by blast
qed (use assms(2,3) in blast)+

lemma starvation_justified:
  assumes "wd_config w = cfg" and "armed_at_ns w = t0" and "last_frames_ns w = last_progress t0 obs"
    and "t0 \<le> last_progress t0 obs"
  shows "starvation_verdict w (ob_now (last obs)) (ob_probe (last obs)) = Faulted (NoBuffers s n) \<longleftrightarrow>
      s = last_progress t0 obs \<and> n = ob_now (last obs) - s \<and> as_nanos (no_buffer_timeout cfg) \<le> n
      \<and> (emits_silence_when_idle cfg \<or> ob_probe (last obs) = OutputActive)"
    and "starvation_verdict w now probe \<noteq> Faulted (SilentWhileOutputRunning q m)"
  using assms by (auto simp: starvation_verdict_def Let_def max_def)

lemma silence_tracks:
  assumes w: "wd_config w = cfg" "armed_at_ns w = t0" "last_frames_ns w = last_progress t0 (obs @ [x, y])"
      "last_poll_ns w = ob_now y" "baseline w = Some (ob_activity y)" "quiet_since_ns w = Some q"
    and q: "stretch (\<lambda>_. True) (obs @ [x, y]) q" "no_sound x y" "q \<le> ob_now x"
    and c: "\<And>c. corroborated_since_ns w = Some c \<Longrightarrow> stretch (\<lambda>z. ob_probe z = OutputActive) (obs @ [x]) c \<and> q \<le> c"
    and m: "\<And>t. mute_stretch (obs @ [x, y]) t \<Longrightarrow> (case corroborated_since_ns w of None \<Rightarrow> ob_now x | Some c \<Rightarrow> c) \<le> t"
    and "orderly t0 (obs @ [x, y])"
  shows "tracks cfg t0 (obs @ [x, y]) (fst (silence_verdict (ob_now x) (ob_now y) q (ob_probe y) w))"
    and "snd (silence_verdict (ob_now x) (ob_now y) q (ob_probe y) w) = Faulted f \<Longrightarrow>
      \<exists>n. f = SilentWhileOutputRunning q n \<and> as_nanos (silence_timeout cfg) \<le> n
        \<and> stretch (\<lambda>z. ob_probe z = OutputActive) (obs @ [x, y]) (ob_now y - n) \<and> q \<le> ob_now y - n"
    and "mute_stretch (obs @ [x, y]) t \<Longrightarrow> as_nanos (silence_timeout cfg) \<le> ob_now y - t \<Longrightarrow>
      is_fault (snd (silence_verdict (ob_now x) (ob_now y) q (ob_probe y) w))"
proof -
  note order = orderly_snoc [OF assms(12)]
  let ?since = "case corroborated_since_ns w of None \<Rightarrow> ob_now x | Some c \<Rightarrow> c"
  have since: "stretch (\<lambda>z. ob_probe z = OutputActive) (obs @ [x, y]) ?since \<and> q \<le> ?since" if "ob_probe y = OutputActive"
  proof (cases "corroborated_since_ns w")
    case None
    with stretch_begin [of x y "\<lambda>z. ob_probe z = OutputActive" obs] q that show ?thesis by simp
  next
    case (Some c1)
    with c [OF Some] stretch_extend [of "\<lambda>z. ob_probe z = OutputActive" obs x c1 y] q(2) that show ?thesis by simp
  qed
  then have le: "?since \<le> ob_now y" if "ob_probe y = OutputActive"
    using that stretch_le [of _ "obs @ [x, y]" ?since] order(6) by (metis last_append last_ConsR last_ConsL list.discI)
  show "tracks cfg t0 (obs @ [x, y]) (fst (silence_verdict (ob_now x) (ob_now y) q (ob_probe y) w))"
    using w q(1) since m mute_stretch_snoc(3) [of obs x y] by (cases "ob_probe y") (auto simp: silence_verdict_def tracks_def Let_def)
  show "is_fault (snd (silence_verdict (ob_now x) (ob_now y) q (ob_probe y) w))"
    if t: "mute_stretch (obs @ [x, y]) t" "as_nanos (silence_timeout cfg) \<le> ob_now y - t"
  proof -
    note active = mute_stretch_snoc(3) [OF t(1)]
    have "wrapping_sub64 (ob_now y) ?since = ob_now y - ?since" using le [OF active] order(4) by (rule wrapping_sub64_le)
    moreover have "ob_now y - t \<le> ob_now y - ?since" using m [OF t(1)] by (rule diff_le_mono2)
    ultimately have "as_nanos (silence_timeout (wd_config w)) \<le> wrapping_sub64 (ob_now y) ?since"
      using t(2) unfolding w(1) by (metis order_trans)
    with active show ?thesis by (simp add: silence_verdict_def is_fault_def Let_def)
  qed
  assume "snd (silence_verdict (ob_now x) (ob_now y) q (ob_probe y) w) = Faulted f"
  then have active: "ob_probe y = OutputActive" and f: "f = SilentWhileOutputRunning q (wrapping_sub64 (ob_now y) ?since)"
    and n: "as_nanos (silence_timeout cfg) \<le> wrapping_sub64 (ob_now y) ?since"
    using w(1) by (auto simp: silence_verdict_def quiet_verdict_def Let_def split: output_activity.splits if_splits)
  have "wrapping_sub64 (ob_now y) ?since = ob_now y - ?since" using le [OF active] order(4) by (rule wrapping_sub64_le)
  with f n since [OF active] le [OF active]
  show "\<exists>n. f = SilentWhileOutputRunning q n \<and> as_nanos (silence_timeout cfg) \<le> n
      \<and> stretch (\<lambda>z. ob_probe z = OutputActive) (obs @ [x, y]) (ob_now y - n) \<and> q \<le> ob_now y - n"
    by simp
qed

lemma observe_first:
  assumes "tracks cfg t0 [] w" and "orderly t0 [y]"
  shows "tracks cfg t0 [y] (fst (watch_step w y))" and "justified cfg t0 [y] (snd (watch_step w y))"
proof -
  have none: "quiet_since_ns w = None" "corroborated_since_ns w = None"
    using assms(1) by (auto simp: tracks_def stretch_def intro: option.exhaust)
  have mute: "\<not> mute_stretch [y] t" for t by (auto simp: mute_stretch_def Cons_eq_append_conv)
  with none show "tracks cfg t0 [y] (fst (watch_step w y))"
    using assms(1) by (simp add: tracks_def watch_step_def watchdog_poll_def Let_def)
  let ?w = "w\<lparr>baseline := Some (ob_activity y), last_poll_ns := ob_now y\<rparr>"
  have "snd (watch_step w y) = starvation_verdict ?w (ob_now y) (ob_probe y)"
    using assms(1) by (simp add: tracks_def watch_step_def watchdog_poll_def Let_def)
  then show "justified cfg t0 [y] (snd (watch_step w y))"
    using assms mute starvation_justified [of ?w cfg t0 "[y]"] by (simp add: justified_def tracks_def)
qed

lemma observe_next:
  assumes w: "tracks cfg t0 (obs @ [x]) w" and order: "orderly t0 (obs @ [x, y])"
  shows "\<not> is_fault (snd (watch_step w y)) \<Longrightarrow> tracks cfg t0 (obs @ [x, y]) (fst (watch_step w y))"
    and "justified cfg t0 (obs @ [x, y]) (snd (watch_step w y))"
proof -
  let ?w = "note_progress (ob_now x) (ob_now y) (ob_activity x) (ob_activity y)
    (w\<lparr>baseline := Some (ob_activity y), last_poll_ns := ob_now y\<rparr>)"
  let ?v = "starvation_verdict ?w (ob_now y) (ob_probe y)"
  note np = note_progress_tracks [OF w order]
  have starving: "?v = Faulted (NoBuffers s n) \<longleftrightarrow> s = last_progress t0 (obs @ [x, y]) \<and> n = ob_now y - s
      \<and> as_nanos (no_buffer_timeout cfg) \<le> n \<and> (emits_silence_when_idle cfg \<or> ob_probe y = OutputActive)" for s n
    using starvation_justified(1) [OF np(1,2,3) orderly_snoc(5) [OF order]] by simp
  have eq: "watch_step w y = (case ?v of Faulted f \<Rightarrow> (?w, Faulted f)
      | _ \<Rightarrow> (case quiet_since_ns ?w of None \<Rightarrow> (?w\<lparr>corroborated_since_ns := None\<rparr>, Healthy)
          | Some q \<Rightarrow> silence_verdict (ob_now x) (ob_now y) q (ob_probe y) ?w))"
    using w orderly_snoc(1,2) [OF order] by (simp add: tracks_def watch_step_def watchdog_poll_def Let_def)
  have corr: "stretch (\<lambda>z. ob_probe z = OutputActive) (obs @ [x]) c \<and> q \<le> c"
    if "quiet_since_ns ?w = Some q" "corroborated_since_ns ?w = Some c" for q c
    using np(7) [OF that(2)] that(1) w by (auto simp: tracks_def)
  have mute: "quiet_since_ns ?w \<noteq> None" "(case corroborated_since_ns ?w of None \<Rightarrow> ob_now x | Some c \<Rightarrow> c) \<le> t"
    if t: "mute_stretch (obs @ [x, y]) t" for t
  proof -
    note snoc = mute_stretch_snoc [OF t]
    note keep = np(8) [OF snoc(1,2)]
    then show "quiet_since_ns ?w \<noteq> None" by blast
    have "c \<le> ob_now x" if "corroborated_since_ns w = Some c" for c
      using that w stretch_le [of _ "obs @ [x]" c] orderly_snoc(6) [OF order] by (auto simp: tracks_def sorted_append)
    moreover have "\<exists>c. corroborated_since_ns w = Some c \<and> c \<le> t" if "mute_stretch (obs @ [x]) t"
      using that w by (simp add: tracks_def)
    ultimately show "(case corroborated_since_ns ?w of None \<Rightarrow> ob_now x | Some c \<Rightarrow> c) \<le> t"
      using keep snoc(4) by (auto split: option.splits)
  qed
  have silence: "tracks cfg t0 (obs @ [x, y]) (fst (silence_verdict (ob_now x) (ob_now y) q (ob_probe y) ?w))"
      "snd (silence_verdict (ob_now x) (ob_now y) q (ob_probe y) ?w) = Faulted f \<Longrightarrow>
        \<exists>n. f = SilentWhileOutputRunning q n \<and> as_nanos (silence_timeout cfg) \<le> n
          \<and> stretch (\<lambda>z. ob_probe z = OutputActive) (obs @ [x, y]) (ob_now y - n) \<and> q \<le> ob_now y - n"
      "stretch (\<lambda>_. True) (obs @ [x, y]) q"
      "mute_stretch (obs @ [x, y]) t \<Longrightarrow> as_nanos (silence_timeout cfg) \<le> ob_now y - t \<Longrightarrow>
        is_fault (snd (silence_verdict (ob_now x) (ob_now y) q (ob_probe y) ?w))"
    if q: "quiet_since_ns ?w = Some q" for q f t
    using silence_tracks [OF np(1-5) q _ _ _ corr [OF q] mute(2) order] np(6) [OF q] by blast+
  show "tracks cfg t0 (obs @ [x, y]) (fst (watch_step w y))" if "\<not> is_fault (snd (watch_step w y))"
  proof (cases "quiet_since_ns ?w")
    case None
    with that np(1-5) mute(1) show ?thesis unfolding eq by (auto simp: is_fault_def tracks_def split: verdict.splits)
  next
    case (Some q)
    with that silence(1) [OF Some] show ?thesis unfolding eq by (auto simp: is_fault_def split: verdict.splits)
  qed
  show "justified cfg t0 (obs @ [x, y]) (snd (watch_step w y))"
  proof (cases "is_fault ?v")
    case True
    then obtain f where f: "?v = Faulted f" unfolding is_fault_def by blast
    then have "snd (watch_step w y) = ?v" unfolding eq by simp
    with True show ?thesis
      using starving starvation_justified(2) [OF np(1,2,3) orderly_snoc(5) [OF order]] by (simp add: justified_def)
  next
    case False
    then have v: "snd (watch_step w y) = (case quiet_since_ns ?w of None \<Rightarrow> Healthy
        | Some q \<Rightarrow> snd (silence_verdict (ob_now x) (ob_now y) q (ob_probe y) ?w))"
      unfolding eq is_fault_def by (cases ?v) (auto split: option.splits)
    have no: "\<not> (s = last_progress t0 (obs @ [x, y]) \<and> n = ob_now y - s
      \<and> as_nanos (no_buffer_timeout cfg) \<le> n \<and> (emits_silence_when_idle cfg \<or> ob_probe y = OutputActive))" for s n
      using False starving [of s n] by (auto simp: is_fault_def)
    show ?thesis
    proof (cases "quiet_since_ns ?w")
      case None
      with v mute(1) show ?thesis by (intro justified_calm) (use no in auto)
    next
      case (Some q)
      with v have v: "snd (watch_step w y) = snd (silence_verdict (ob_now x) (ob_now y) q (ob_probe y) ?w)" by simp
      show ?thesis unfolding v
        by (rule justified_calm) (use no silence(2-4) [OF Some] in auto)
    qed
  qed
qed

lemma orderly_prefix: "orderly t0 (obs @ [x]) \<Longrightarrow> orderly t0 obs"
  by (simp add: orderly_def sorted_append)

lemma tracks_run:
  assumes "orderly t0 obs" and "\<not> list_ex is_fault (run_log watch_step (arm t0 w) obs)"
  shows "tracks (wd_config w) t0 obs (run_state watch_step (arm t0 w) obs)"
  using assms
proof (induction obs rule: rev_induct)
  case (snoc y obs)
  then have IH: "tracks (wd_config w) t0 obs (run_state watch_step (arm t0 w) obs)"
    by (simp add: orderly_prefix)
  show ?case
  proof (cases obs rule: rev_cases)
    case Nil
    with IH snoc.prems(1) show ?thesis by (simp add: observe_first(1))
  next
    case (snoc obs' x)
    with IH snoc.prems observe_next(1) [of "wd_config w" t0 obs' x "run_state watch_step (arm t0 w) obs" y] show ?thesis by simp
  qed
qed (simp add: tracks_arm)

lemma observe_justified:
  assumes "orderly t0 (obs @ [y])" and "\<not> list_ex is_fault (run_log watch_step (arm t0 w) obs)"
  shows "justified (wd_config w) t0 (obs @ [y]) (snd (watch_step (run_state watch_step (arm t0 w) obs) y))"
proof -
  have tracked: "tracks (wd_config w) t0 obs (run_state watch_step (arm t0 w) obs)"
    using assms by (intro tracks_run orderly_prefix [of t0 obs y])
  show ?thesis
  proof (cases obs rule: rev_cases)
    case Nil
    with tracked assms(1) show ?thesis by (simp add: observe_first(2))
  next
    case (snoc obs' x)
    with tracked assms(1) observe_next(2) [of "wd_config w" t0 obs' x "run_state watch_step (arm t0 w) obs" y] show ?thesis by simp
  qed
qed


definition sample_observation :: "nat \<Rightarrow> nat \<Rightarrow> watch_report" where
  "sample_observation now n = \<lparr>ob_now = now, ob_activity = \<lparr>ta_buffers = n, ta_silent = n, ta_frames = 480 * n\<rparr>, ob_probe = OutputActive\<rparr>"

definition sample_watchdog :: watchdog where
  "sample_watchdog = watchdog_new \<lparr>no_buffer_timeout = 5, silence_timeout = 3, quiet_notice_after = 30, emits_silence_when_idle = True\<rparr>"


end
