(* ===== verification/Supervisor.thy ===== *)
theory Supervisor
  imports Capture_Watch
begin

text \<open>
  Keeping one tap alive for the length of a session (\<^verbatim>\<open>crates/fotw-audio/src/supervisor.rs\<close>, with the
  errors of \<^verbatim>\<open>error.rs\<close>): starting, watching, tearing down and rebuilding, giving up, the manual retry,
  and the gaps each rebuild reports. What the device answers and what the clock reads are arguments; every
  call that reaches the device is reported. Each start has its own callback mailbox, and all of them stay
  addressable, because a native callback may outlive the tap it was made for.
\<close>

section \<open>Errors\<close>

datatype cleanup_state = Released | StoppedUnreleased | Unconfirmed

fun capture_stopped :: "cleanup_state \<Rightarrow> bool" where
  "capture_stopped Unconfirmed = False"
| "capture_stopped _ = True"

fun resources_released :: "cleanup_state \<Rightarrow> bool" where
  "resources_released Released = True"
| "resources_released _ = False"

datatype tap_error =
    Unsupported string
  | PermissionDenied string
  | DeviceNotFound string
  | DeviceInvalidated string
  | StreamFormatChanged
  | FormatChangedAfterStop
  | FormatUnsupported string
  | AlreadyRunning
  | NotRunning
  | InvalidArgument string
  | Decode string
  | TapIo string
  | Cleanup cleanup_state string
  | Platform string

fun tap_cleanup_state :: "tap_error \<Rightarrow> cleanup_state option" where
  "tap_cleanup_state (Cleanup st msg) = Some st"
| "tap_cleanup_state FormatChangedAfterStop = Some Released"
| "tap_cleanup_state _ = None"

fun is_transient_device_fault :: "tap_error \<Rightarrow> bool" where
  "is_transient_device_fault (DeviceInvalidated tap) = True"
| "is_transient_device_fault (DeviceNotFound dev) = True"
| "is_transient_device_fault StreamFormatChanged = True"
| "is_transient_device_fault FormatChangedAfterStop = True"
| "is_transient_device_fault _ = False"

fun cleanup_text :: "cleanup_state \<Rightarrow> string" where
  "cleanup_text Released = ''Released''"
| "cleanup_text StoppedUnreleased = ''Stopped''"
| "cleanup_text Unconfirmed = ''Unconfirmed''"

fun tap_error_text :: "tap_error \<Rightarrow> string" where
  "tap_error_text (Unsupported s) = ''unsupported: '' @ s"
| "tap_error_text (PermissionDenied s) = ''permission denied: '' @ s"
| "tap_error_text (DeviceNotFound s) = ''no such device: '' @ s"
| "tap_error_text (DeviceInvalidated s) = ''device invalidated: '' @ s"
| "tap_error_text StreamFormatChanged = ''audio stream format changed; rebuild capture before accepting more samples''"
| "tap_error_text FormatChangedAfterStop =
     ''audio stream format changed; capture stopped and resources released; start a new dictation''"
| "tap_error_text (FormatUnsupported s) = ''format not negotiable: '' @ s"
| "tap_error_text AlreadyRunning = ''tap is already running''"
| "tap_error_text NotRunning = ''tap is not running''"
| "tap_error_text (InvalidArgument s) = ''invalid argument: '' @ s"
| "tap_error_text (Decode s) = ''decode error: '' @ s"
| "tap_error_text (TapIo s) = ''io error while '' @ s"
| "tap_error_text (Cleanup st s) = ''capture cleanup '' @ cleanup_text st @ '': '' @ s"
| "tap_error_text (Platform s) = ''platform error: '' @ s"

section \<open>Gaps and events\<close>

datatype gap_kind = Unwritten | Silent

datatype gap_reason = TapStalledNoBuffers | TapStalledSilent | DeviceChanged | RebuildWindow | CallbackFault | InitiallyUnavailable

fun gap_reason_as_str :: "gap_reason \<Rightarrow> string" where
  "gap_reason_as_str TapStalledNoBuffers = ''tap-stall-no-buffers''"
| "gap_reason_as_str TapStalledSilent = ''tap-stall-silent''"
| "gap_reason_as_str DeviceChanged = ''device-changed''"
| "gap_reason_as_str RebuildWindow = ''rebuild-window''"
| "gap_reason_as_str CallbackFault = ''callback-fault''"
| "gap_reason_as_str InitiallyUnavailable = ''initially-unavailable''"

datatype sample_format = I16 | I32 | F32

record stream_format =
  sample_rate_hz :: nat
  channels :: nat
  sample :: sample_format

record capture_gap =
  gap_start_ns :: nat
  gap_end_ns :: nat
  gap_kind :: gap_kind
  gap_reason :: gap_reason

definition duration_ns :: "capture_gap \<Rightarrow> nat" where
  "duration_ns g = gap_end_ns g - gap_start_ns g"

definition duration_ms :: "capture_gap \<Rightarrow> nat" where
  "duration_ms g = duration_ns g div 1000000"

definition frames_to_pad :: "capture_gap \<Rightarrow> nat \<Rightarrow> nat" where
  "frames_to_pad g rate =
     (if gap_kind g = Silent then 0 else min (duration_ns g * rate div 1000000000) u64_max)"

definition samples_to_pad :: "capture_gap \<Rightarrow> stream_format \<Rightarrow> nat" where
  "samples_to_pad g fmt = sat_mul64 (frames_to_pad g (sample_rate_hz fmt)) (channels fmt)"

datatype health_event =
    StallDetected string fault
  | DeviceMoved string device_changes bool
  | Recovered string nat stream_format "capture_gap list"
  | DeliveryConfirmed string
  | RecoveryFailed string nat string nat
  | GaveUp string nat string
  | RecoveryIneffective string nat fault
  | NoAudioDetected string nat

fun is_user_visible :: "health_event \<Rightarrow> bool" where
  "is_user_visible (Recovered tap n fmt gaps) = True"
| "is_user_visible (DeliveryConfirmed tap) = True"
| "is_user_visible (GaveUp tap n err) = True"
| "is_user_visible (RecoveryIneffective tap n f) = True"
| "is_user_visible (NoAudioDetected tap n) = True"
| "is_user_visible _ = False"

datatype poll_outcome = PollStopped | PollHealthy | PollNoAudio nat | PollWaiting | PollRebuilt | PollRetrying | PollAbandoned

datatype delivery_state = Confirming | DeliveryHealthy | Quiet | DeliveryRecovering | Exhausted | CleanupBlocked | DeliveryStopped

record recovery_status =
  rs_state :: delivery_state
  rs_attempts :: nat
  rs_max_attempts :: nat
  retry_in_ms :: "nat option"

section \<open>State\<close>

record supervisor_config =
  tap_id :: string
  sc_watchdog :: watchdog_config
  device_change_debounce :: nat
  device_change_debounce_ceiling :: nat
  retry_backoff :: nat
  max_retry_backoff :: nat
  max_attempts :: nat
  max_ineffective_recoveries :: nat
  rebuild_triggers :: device_changes
  min_rebuild_interval :: nat
  rebuild_on_device_change :: bool

definition supervisor_config_default :: supervisor_config where
  "supervisor_config_default =
     \<lparr>tap_id = ''system:default'', sc_watchdog = watchdog_config_default, device_change_debounce = 300 * 10 ^ 6,
      device_change_debounce_ceiling = 10 ^ 9, retry_backoff = 15 * 10 ^ 9, max_retry_backoff = 30 * 10 ^ 9,
      max_attempts = 3, max_ineffective_recoveries = 3,
      rebuild_triggers = changes_of [DefaultOutput, DefaultInput, StreamFormatChange, DidWake],
      min_rebuild_interval = 15 * 10 ^ 9, rebuild_on_device_change = True\<rparr>"

definition NO_CALLBACK_FAULT :: nat where "NO_CALLBACK_FAULT = u64_max"

text \<open>The mailbox of one start: whether its callbacks are admitted, and its first fault.\<close>

record callback_mailbox =
  cb_active :: bool
  cb_fault :: nat

record recovery =
  unwritten_start_ns :: nat
  silent_gap :: "capture_gap option"
  rc_reason :: gap_reason
  rc_attempt :: nat
  next_attempt_ns :: nat
  last_error :: string

datatype capture_state = Idle | Running | Recovering recovery | Abandoned recovery | Quarantined

text \<open>The tap is represented by the number of the mailbox it was started with.\<close>

record supervisor =
  sv_config :: supervisor_config
  mailboxes :: "callback_mailbox list"
  sv_tap :: "nat option"
  sv_format :: "stream_format option"
  sv_watchdog :: watchdog
  sv_signal :: change_signal
  sv_debounce :: debounce
  pending_changes :: device_changes
  sv_state :: capture_state
  events :: "health_event list"
  rebuilds :: nat
  last_rebuild_ns :: "nat option"
  last_attempt_ns :: "nat option"
  episode_attempts :: nat
  retry_requested :: bool
  cleanup_blocked :: "(cleanup_state \<times> string) option"
  ineffective_recoveries :: nat
  health_confirmed :: bool
  healthy_since_ns :: "nat option"
  previous_delivery :: "(nat \<times> tap_activity) option"
  no_audio_notified :: bool

definition supervisor_new :: "supervisor_config \<Rightarrow> supervisor" where
  "supervisor_new cfg =
     \<lparr>sv_config = cfg, mailboxes = [\<lparr>cb_active = False, cb_fault = NO_CALLBACK_FAULT\<rparr>], sv_tap = None, sv_format = None,
      sv_watchdog = watchdog_new (sc_watchdog cfg), sv_signal = change_signal_new,
      sv_debounce = debounce_new (device_change_debounce cfg) (device_change_debounce_ceiling cfg),
      pending_changes = no_changes, sv_state = Idle, events = [], rebuilds = 0, last_rebuild_ns = None,
      last_attempt_ns = None, episode_attempts = 0, retry_requested = False, cleanup_blocked = None,
      ineffective_recoveries = 0, health_confirmed = False, healthy_since_ns = None, previous_delivery = None,
      no_audio_notified = False\<rparr>"

section \<open>Operations\<close>

text \<open>What the device answers to the calls of one operation; each makes at most one of each.\<close>

record device_answers =
  an_open :: "tap_error + unit"
  an_start :: "tap_error + stream_format"
  an_stop :: "tap_error + unit"

datatype device_call = CallOpen | CallStart | CallStop

definition push_event :: "health_event \<Rightarrow> supervisor \<Rightarrow> supervisor" where
  "push_event e s = s\<lparr>events := events s @ [e]\<rparr>"

definition sat_add32 :: "nat \<Rightarrow> nat \<Rightarrow> nat" where
  "sat_add32 a b = min (a + b) (2 ^ 32 - 1)"

definition callback_fault :: "supervisor \<Rightarrow> nat" where
  "callback_fault s = cb_fault (last (mailboxes s))"

definition retire_callbacks :: "supervisor \<Rightarrow> supervisor" where
  "retire_callbacks s = s\<lparr>mailboxes := butlast (mailboxes s) @ [(last (mailboxes s))\<lparr>cb_active := False\<rparr>]\<rparr>"

definition observing_sink :: "supervisor \<Rightarrow> supervisor" where
  "observing_sink s = (let s = retire_callbacks s
     in s\<lparr>mailboxes := mailboxes s @ [\<lparr>cb_active = True, cb_fault = NO_CALLBACK_FAULT\<rparr>]\<rparr>)"

fun remember_cleanup :: "tap_error \<Rightarrow> supervisor \<Rightarrow> supervisor" where
  "remember_cleanup (Cleanup st msg) s =
     (if resources_released st then s else s\<lparr>cleanup_blocked := Some (st, msg)\<rparr>)"
| "remember_cleanup _ s = s"

definition cleanup_error :: "supervisor \<Rightarrow> tap_error option" where
  "cleanup_error s = map_option (\<lambda>(st, msg). Cleanup st msg) (cleanup_blocked s)"

definition start_observed :: "device_answers \<Rightarrow> supervisor \<Rightarrow> supervisor \<times> (tap_error + stream_format)" where
  "start_observed ans s =
     (let s = observing_sink s
      in case an_start ans of
           Inr fmt \<Rightarrow> (s, Inr fmt)
         | Inl e \<Rightarrow> (remember_cleanup e (retire_callbacks s), Inl e))"

definition stop_tap :: "device_answers \<Rightarrow> supervisor \<Rightarrow> supervisor \<times> (tap_error + unit) \<times> device_call list" where
  "stop_tap ans s =
     (case sv_tap s of
        None \<Rightarrow> (s, (case cleanup_error s of None \<Rightarrow> Inr () | Some e \<Rightarrow> Inl e), [])
      | Some tap \<Rightarrow>
          (let s = s\<lparr>sv_tap := None\<rparr>
           in case an_stop ans of
                Inr _ \<Rightarrow> (s, Inr (), [CallStop])
              | Inl e \<Rightarrow>
                  ((if tap_cleanup_state e = None then s\<lparr>cleanup_blocked := Some (Unconfirmed, tap_error_text e)\<rparr>
                    else remember_cleanup e s), Inl e, [CallStop])))"

definition DURATION_MAX :: nat where "DURATION_MAX = u64_max * 1000000000 + 999999999"

definition backoff :: "supervisor_config \<Rightarrow> nat \<Rightarrow> nat" where
  "backoff cfg attempt =
     (let shift = min (attempt - 1) 16
      in min (min (retry_backoff cfg * 2 ^ shift) DURATION_MAX) (max_retry_backoff cfg))"

definition next_attempt_at :: "nat \<Rightarrow> supervisor \<Rightarrow> nat" where
  "next_attempt_at now s =
     (case last_attempt_ns s of
        None \<Rightarrow> now
      | Some a \<Rightarrow> max now (sat_add64 a (as_nanos (min_rebuild_interval (sv_config s)))))"

text \<open>Forgetting what was known about delivery.\<close>

definition forget_health :: "supervisor \<Rightarrow> supervisor" where
  "forget_health s = s\<lparr>health_confirmed := False, healthy_since_ns := None, previous_delivery := None\<rparr>"

text \<open>Adopting a tap that has just been started.\<close>

definition adopt_tap :: "nat \<Rightarrow> stream_format \<Rightarrow> supervisor \<Rightarrow> supervisor" where
  "adopt_tap now fmt s = forget_health (s\<lparr>sv_tap := Some (length (mailboxes s) - 1), sv_format := Some fmt,
     sv_watchdog := arm now (sv_watchdog s), no_audio_notified := False, sv_state := Running\<rparr>)"

definition start :: "nat \<Rightarrow> device_answers \<Rightarrow> supervisor \<Rightarrow> supervisor \<times> (tap_error + stream_format) \<times> device_call list" where
  "start now ans s =
     (case cleanup_error s of
        Some e \<Rightarrow> (s, Inl e, [])
      | None \<Rightarrow>
          if sv_state s \<noteq> Idle then (s, Inl AlreadyRunning, [])
          else (case an_open ans of
                  Inl e \<Rightarrow> (remember_cleanup e s, Inl e, [CallOpen])
                | Inr _ \<Rightarrow>
                    (case start_observed ans s of
                       (s, Inl e) \<Rightarrow> (s, Inl e, [CallOpen, CallStart])
                     | (s, Inr fmt) \<Rightarrow>
                         ((adopt_tap now fmt s)\<lparr>episode_attempts := 0, ineffective_recoveries := 0, last_attempt_ns := None,
                            last_rebuild_ns := None, retry_requested := False\<rparr>,
                          Inr fmt, [CallOpen, CallStart]))))"

text \<open>An optional source whose first start failed: \<open>started_at\<close> is read before the attempt, \<open>now\<close> after it.\<close>

definition start_failed :: "nat \<Rightarrow> nat \<Rightarrow> tap_error \<Rightarrow> supervisor \<Rightarrow> supervisor" where
  "start_failed started_at now e s =
     (let s = forget_health (retire_callbacks s)\<lparr>sv_format := None, episode_attempts := 1, ineffective_recoveries := 0,
            last_attempt_ns := Some started_at, last_rebuild_ns := None, retry_requested := False, no_audio_notified := False\<rparr>;
          cfg = sv_config s;
          retry_in = max (backoff cfg 1) (min_rebuild_interval cfg);
          recovery = \<lparr>unwritten_start_ns = started_at, silent_gap = None, rc_reason = InitiallyUnavailable, rc_attempt = 1,
            next_attempt_ns = sat_add64 now (as_nanos retry_in), last_error = tap_error_text e\<rparr>
      in if cleanup_blocked s \<noteq> None \<or> max_attempts cfg \<le> episode_attempts s
         then (push_event (GaveUp (tap_id cfg) 1 (tap_error_text e)) s)\<lparr>sv_state := Abandoned recovery\<rparr>
         else (push_event (RecoveryFailed (tap_id cfg) 1 (tap_error_text e) retry_in) s)\<lparr>sv_state := Recovering recovery\<rparr>)"

definition start_recovering ::
  "nat \<Rightarrow> nat \<Rightarrow> device_answers \<Rightarrow> supervisor \<Rightarrow> supervisor \<times> (tap_error + stream_format) \<times> device_call list" where
  "start_recovering started_at now ans s =
     (if sv_state s \<noteq> Idle then (s, Inl AlreadyRunning, [])
      else (case start now ans s of
              (s, Inr fmt, calls) \<Rightarrow> (s, Inr fmt, calls)
            | (s, Inl e, calls) \<Rightarrow> (start_failed started_at now e s, Inl e, calls)))"

text \<open>Leaving a session: the mailbox of device changes is replaced.\<close>

definition go_idle :: "supervisor \<Rightarrow> supervisor" where
  "go_idle s = s\<lparr>sv_state := Idle, sv_debounce := debounce_clear (sv_debounce s), pending_changes := no_changes,
     retry_requested := False, sv_signal := change_signal_new\<rparr>"

definition stop :: "device_answers \<Rightarrow> supervisor \<Rightarrow> supervisor \<times> (tap_error + unit) \<times> device_call list" where
  "stop ans s = (case stop_tap ans (retire_callbacks s) of (s, r, calls) \<Rightarrow> (go_idle s, r, calls))"

definition take_running_tap :: "supervisor \<Rightarrow> supervisor \<times> nat option" where
  "take_running_tap s = (let s = retire_callbacks s in (go_idle (s\<lparr>sv_tap := None\<rparr>), sv_tap s))"

definition drain_events :: "supervisor \<Rightarrow> supervisor \<times> health_event list" where
  "drain_events s = (s\<lparr>events := []\<rparr>, events s)"

definition request_retry :: "supervisor \<Rightarrow> supervisor \<times> bool" where
  "request_retry s =
     (if cleanup_blocked s \<noteq> None \<or> \<not> (case sv_state s of Abandoned r \<Rightarrow> True | Quarantined \<Rightarrow> True | _ \<Rightarrow> False)
      then (s, False) else (s\<lparr>retry_requested := True\<rparr>, True))"

definition recovery_status_of :: "nat \<Rightarrow> supervisor \<Rightarrow> recovery_status" where
  "recovery_status_of now s =
     (let (st, retry) =
        (if cleanup_blocked s \<noteq> None then (CleanupBlocked, None)
         else (case sv_state s of
                 Idle \<Rightarrow> (DeliveryStopped, None)
               | Recovering r \<Rightarrow> (DeliveryRecovering, Some ((next_attempt_ns r - now) div 1000000))
               | Abandoned r \<Rightarrow> (Exhausted, None)
               | Quarantined \<Rightarrow> (Exhausted, None)
               | Running \<Rightarrow> (if no_audio_notified s then (Quiet, None)
                             else if health_confirmed s then (DeliveryHealthy, None) else (Confirming, None))))
      in \<lparr>rs_state = st, rs_attempts = episode_attempts s, rs_max_attempts = max_attempts (sv_config s), retry_in_ms = retry\<rparr>)"

definition pending_startup_gap :: "nat \<Rightarrow> supervisor \<Rightarrow> capture_gap option" where
  "pending_startup_gap now s =
     (case (case sv_state s of Recovering r \<Rightarrow> Some r | Abandoned r \<Rightarrow> Some r | _ \<Rightarrow> None) of
        None \<Rightarrow> None
      | Some r \<Rightarrow>
          if rc_reason r = InitiallyUnavailable
          then Some \<lparr>gap_start_ns = unwritten_start_ns r, gap_end_ns = now, gap_kind = Unwritten, gap_reason = rc_reason r\<rparr>
          else None)"

section \<open>Recovery\<close>

definition recovery_gaps :: "nat \<Rightarrow> recovery \<Rightarrow> capture_gap list" where
  "recovery_gaps now r =
     (case silent_gap r of None \<Rightarrow> [] | Some g \<Rightarrow> [g])
     @ [\<lparr>gap_start_ns = unwritten_start_ns r, gap_end_ns = now, gap_kind = Unwritten, gap_reason = rc_reason r\<rparr>]"

text \<open>Open and start a replacement.\<close>

definition open_replacement :: "device_answers \<Rightarrow> supervisor \<Rightarrow> supervisor \<times> (tap_error + stream_format) \<times> device_call list" where
  "open_replacement ans s =
     (case an_open ans of
        Inl e \<Rightarrow> (s, Inl e, [CallOpen])
      | Inr _ \<Rightarrow> (case start_observed ans s of (s, r) \<Rightarrow> (s, r, [CallOpen, CallStart])))"

definition rebuild_failed :: "nat \<Rightarrow> recovery \<Rightarrow> tap_error \<Rightarrow> supervisor \<Rightarrow> supervisor \<times> poll_outcome" where
  "rebuild_failed now r e s =
     (let s = remember_cleanup e s; r = r\<lparr>last_error := tap_error_text e\<rparr>; cfg = sv_config s
      in if cleanup_blocked s \<noteq> None \<or> max_attempts cfg \<le> rc_attempt r
         then ((push_event (GaveUp (tap_id cfg) (rc_attempt r) (last_error r)) s)\<lparr>sv_state := Abandoned r\<rparr>, PollAbandoned)
         else (let retry_in = max (backoff cfg (rc_attempt r)) (min_rebuild_interval cfg)
               in ((push_event (RecoveryFailed (tap_id cfg) (rc_attempt r) (last_error r) retry_in) s)
                     \<lparr>sv_state := Recovering (r\<lparr>next_attempt_ns := sat_add64 now (as_nanos retry_in)\<rparr>)\<rparr>, PollRetrying)))"

definition rebuilt :: "nat \<Rightarrow> recovery \<Rightarrow> stream_format \<Rightarrow> supervisor \<Rightarrow> supervisor" where
  "rebuilt now r fmt s =
     push_event (Recovered (tap_id (sv_config s)) (rc_attempt r) fmt (recovery_gaps now r))
       ((adopt_tap now fmt s)\<lparr>rebuilds := (rebuilds s + 1) mod 2 ^ 32, last_rebuild_ns := Some now,
          sv_debounce := debounce_clear (sv_debounce s), pending_changes := no_changes\<rparr>)"

definition attempt_rebuild ::
  "nat \<Rightarrow> device_answers \<Rightarrow> recovery \<Rightarrow> supervisor \<Rightarrow> supervisor \<times> poll_outcome \<times> device_call list" where
  "attempt_rebuild now ans r s =
     (let s = s\<lparr>episode_attempts := sat_add32 (episode_attempts s) 1, last_attempt_ns := Some now\<rparr>;
          r = r\<lparr>rc_attempt := episode_attempts s\<rparr>
      in case open_replacement ans s of
           (s, Inl e, calls) \<Rightarrow> (case rebuild_failed now r e s of (s, out) \<Rightarrow> (s, out, calls))
         | (s, Inr fmt, calls) \<Rightarrow> (rebuilt now r fmt s, PollRebuilt, calls))"

definition begin_recovery ::
  "nat \<Rightarrow> device_answers \<Rightarrow> capture_gap option \<Rightarrow> nat \<Rightarrow> gap_reason \<Rightarrow> supervisor
     \<Rightarrow> supervisor \<times> poll_outcome \<times> device_call list" where
  "begin_recovery now ans silent unwritten_start reason s =
     (if max_attempts (sv_config s) \<le> episode_attempts s
      then ((push_event (GaveUp (tap_id (sv_config s)) (episode_attempts s) ''capture did not sustain healthy delivery'') s)
              \<lparr>sv_state := Quarantined\<rparr>, PollAbandoned, [])
      else (case stop_tap ans (retire_callbacks s) of
              (s, cleanup, calls) \<Rightarrow>
                (let s = s\<lparr>sv_format := None\<rparr>;
                     r = \<lparr>unwritten_start_ns = unwritten_start, silent_gap = silent, rc_reason = reason, rc_attempt = 0,
                          next_attempt_ns = next_attempt_at now s,
                          last_error = (case cleanup of Inl e \<Rightarrow> tap_error_text e | Inr _ \<Rightarrow> [])\<rparr>
                 in if cleanup_blocked s \<noteq> None
                    then ((push_event (GaveUp (tap_id (sv_config s)) (episode_attempts s) (last_error r)) s)
                            \<lparr>sv_state := Abandoned r\<rparr>, PollAbandoned, calls)
                    else if now < next_attempt_ns r then (s\<lparr>sv_state := Recovering r\<rparr>, PollWaiting, calls)
                    else (case attempt_rebuild now ans r s of (s, out, more_calls) \<Rightarrow> (s, out, calls @ more_calls)))))"

section \<open>Polling\<close>

definition STABLE_NS :: nat where "STABLE_NS = 10000000000"

definition observe_delivery :: "nat \<Rightarrow> tap_activity \<Rightarrow> verdict \<Rightarrow> supervisor \<Rightarrow> supervisor \<times> bool" where
  "observe_delivery now a v s =
     (let previous = previous_delivery s;
          s = s\<lparr>previous_delivery := Some (now, a)\<rparr>;
          advancing = is_some_and previous (\<lambda>(before, b).
            before \<le> now \<and> now - before < as_nanos (no_buffer_timeout (sc_watchdog (sv_config s)))
            \<and> ta_frames b < ta_frames a \<and> ta_buffers b < ta_buffers a \<and> ta_silent b \<le> ta_silent a)
      in if \<not> advancing \<or> v \<noteq> Healthy \<or> \<not> audible_since_arm (sv_watchdog s)
         then (s\<lparr>healthy_since_ns := None\<rparr>, False)
         else (let since = (case healthy_since_ns s of None \<Rightarrow> now | Some t \<Rightarrow> t)
               in (s\<lparr>healthy_since_ns := Some since\<rparr>, STABLE_NS \<le> now - since)))"

text \<open>Sustained delivery earns a fresh budget.\<close>

definition confirm_delivery :: "bool \<Rightarrow> supervisor \<Rightarrow> supervisor" where
  "confirm_delivery quarantined s =
     (let s = (if \<not> health_confirmed s \<and> (0 < episode_attempts s \<or> quarantined)
               then push_event (DeliveryConfirmed (tap_id (sv_config s))) s else s);
          s = s\<lparr>health_confirmed := True, episode_attempts := 0, ineffective_recoveries := 0\<rparr>
      in if quarantined then s\<lparr>sv_state := Running\<rparr> else s)"

definition on_fault ::
  "nat \<Rightarrow> device_answers \<Rightarrow> bool \<Rightarrow> fault \<Rightarrow> supervisor \<Rightarrow> supervisor \<times> poll_outcome \<times> device_call list" where
  "on_fault now ans quarantined f s =
     (let s = s\<lparr>health_confirmed := False\<rparr>
      in if quarantined then (s, PollAbandoned, [])
         else (let s = push_event (StallDetected (tap_id (sv_config s)) f) s;
                   s = s\<lparr>ineffective_recoveries := sat_add32 (ineffective_recoveries s) 1\<rparr>
               in if max_ineffective_recoveries (sv_config s) < ineffective_recoveries s
                  then ((forget_health (push_event (RecoveryIneffective (tap_id (sv_config s)) (ineffective_recoveries s - 1) f) s))
                          \<lparr>sv_watchdog := arm now (sv_watchdog s), sv_state := Quarantined\<rparr>, PollAbandoned, [])
                  else (case f of
                          NoBuffers since len \<Rightarrow> begin_recovery now ans None since TapStalledNoBuffers s
                        | SilentWhileOutputRunning since len \<Rightarrow>
                            begin_recovery now ans (Some \<lparr>gap_start_ns = since, gap_end_ns = now, gap_kind = Silent,
                              gap_reason = TapStalledSilent\<rparr>) now RebuildWindow s)))"

definition on_device_change ::
  "nat \<Rightarrow> device_answers \<Rightarrow> bool \<Rightarrow> supervisor \<Rightarrow> supervisor \<times> poll_outcome \<times> device_call list" where
  "on_device_change now ans keep_quarantine s =
     (let changes = pending_changes s; s = s\<lparr>pending_changes := no_changes\<rparr>;
          moved = (\<lambda>rebuilding. push_event (DeviceMoved (tap_id (sv_config s)) changes rebuilding));
          survive = (\<lambda>s. ((forget_health (moved False s))\<lparr>sv_watchdog := arm now (sv_watchdog s)\<rparr>, PollHealthy, []));
          too_soon = is_some_and (last_rebuild_ns s) (\<lambda>a. now - a < as_nanos (min_rebuild_interval (sv_config s)))
      in if keep_quarantine then (moved False s, PollAbandoned, [])
         else if too_soon then survive s
         else if rebuild_on_device_change (sv_config s) then begin_recovery now ans None now DeviceChanged (moved True s)
         else survive s)"

definition settle :: "verdict \<Rightarrow> supervisor \<Rightarrow> supervisor \<times> poll_outcome \<times> device_call list" where
  "settle v s =
     (if debounce_pending (sv_debounce s) then (s, PollWaiting, [])
      else (case v of
              NoAudio len \<Rightarrow>
                (let s = s\<lparr>health_confirmed := False\<rparr>;
                     s = (if no_audio_notified s then s
                          else push_event (NoAudioDetected (tap_id (sv_config s)) len) (s\<lparr>no_audio_notified := True\<rparr>))
                 in (s, PollNoAudio len, []))
            | _ \<Rightarrow> (s\<lparr>no_audio_notified := False\<rparr>, PollHealthy, [])))"

definition poll_watching ::
  "nat \<Rightarrow> tap_activity \<Rightarrow> output_activity \<Rightarrow> device_answers \<Rightarrow> bool \<Rightarrow> supervisor
     \<Rightarrow> supervisor \<times> poll_outcome \<times> device_call list" where
  "poll_watching now a probe ans quarantined s =
     (let fault_at = callback_fault s
      in if fault_at \<noteq> NO_CALLBACK_FAULT
         then (let s = forget_health s
               in if quarantined then (s, PollAbandoned, []) else begin_recovery now ans None fault_at CallbackFault s)
         else (case watchdog_poll now a probe (sv_watchdog s) of
                 (w, v) \<Rightarrow>
                   (case observe_delivery now a v (s\<lparr>sv_watchdog := w\<rparr>) of
                      (s, sustained) \<Rightarrow>
                        (let s = (if sustained then confirm_delivery quarantined s else s)
                         in case v of
                              Faulted f \<Rightarrow> on_fault now ans quarantined f s
                            | _ \<Rightarrow>
                                (case debounce_poll now (sv_debounce s) of
                                   (fire, d) \<Rightarrow>
                                     (let s = s\<lparr>sv_debounce := d\<rparr>
                                      in if fire then on_device_change now ans (quarantined \<and> \<not> sustained) s
                                         else settle v s))))))"

text \<open>A manual retry resumes the outage, or replaces a tap that is still running.\<close>

definition resume_retry :: "supervisor \<Rightarrow> supervisor" where
  "resume_retry s = s\<lparr>retry_requested := False, episode_attempts := 0, ineffective_recoveries := 0,
     sv_debounce := debounce_clear (sv_debounce s), pending_changes := no_changes, sv_signal := snd (take_changes (sv_signal s))\<rparr>"

definition absorb_changes :: "nat \<Rightarrow> supervisor \<Rightarrow> supervisor" where
  "absorb_changes now s =
     (case take_changes (sv_signal s) of
        (changes, sg) \<Rightarrow>
          (let s = s\<lparr>sv_signal := sg\<rparr>
           in if changes = no_changes then s
              else (let s = s\<lparr>pending_changes := foldl with_kind (pending_changes s) (change_kinds changes)\<rparr>
                    in if intersects changes (rebuild_triggers (sv_config s))
                       then s\<lparr>sv_debounce := debounce_signal now (sv_debounce s)\<rparr> else s)))"

definition poll_state ::
  "nat \<Rightarrow> tap_activity \<Rightarrow> output_activity \<Rightarrow> device_answers \<Rightarrow> supervisor \<Rightarrow> supervisor \<times> poll_outcome \<times> device_call list" where
  "poll_state now a probe ans s =
     (let s = absorb_changes now s
      in case sv_state s of
           Idle \<Rightarrow> (s, PollStopped, [])
         | Recovering r \<Rightarrow> if next_attempt_ns r \<le> now then attempt_rebuild now ans r s else (s, PollWaiting, [])
         | Abandoned r \<Rightarrow> (s\<lparr>sv_debounce := debounce_clear (sv_debounce s), pending_changes := no_changes\<rparr>, PollAbandoned, [])
         | Running \<Rightarrow> poll_watching now a probe ans False s
         | Quarantined \<Rightarrow> poll_watching now a probe ans True s)"

definition poll ::
  "nat \<Rightarrow> tap_activity \<Rightarrow> output_activity \<Rightarrow> device_answers \<Rightarrow> supervisor \<Rightarrow> supervisor \<times> poll_outcome \<times> device_call list" where
  "poll now a probe ans s =
     (if sv_state s = Idle then (s, PollStopped, [])
      else if cleanup_blocked s \<noteq> None then (s, PollAbandoned, [])
      else if retry_requested s
      then (let s = resume_retry s
            in case sv_state s of
                 Abandoned r \<Rightarrow> poll_state now a probe ans (s\<lparr>sv_state := Recovering (r\<lparr>next_attempt_ns := next_attempt_at now s\<rparr>)\<rparr>)
               | Quarantined \<Rightarrow>
                   (let fault_at = callback_fault s
                    in if fault_at = NO_CALLBACK_FAULT then begin_recovery now ans None now RebuildWindow s
                       else begin_recovery now ans None fault_at CallbackFault s)
               | _ \<Rightarrow> poll_state now a probe ans s)
      else poll_state now a probe ans s)"

section \<open>Callbacks and runs\<close>

text \<open>
  A callback of the sink of start \<open>gen\<close>. Admission and the write are separate: a callback admitted before
  its mailbox was retired may still record its fault.
\<close>

definition callback_admits :: "nat \<Rightarrow> supervisor \<Rightarrow> bool" where
  "callback_admits gen s \<longleftrightarrow> gen < length (mailboxes s) \<and> cb_active (mailboxes s ! gen)"

definition record_fault :: "nat \<Rightarrow> nat \<Rightarrow> supervisor \<Rightarrow> supervisor" where
  "record_fault gen now s =
     (if gen < length (mailboxes s) \<and> cb_fault (mailboxes s ! gen) = NO_CALLBACK_FAULT
      then s\<lparr>mailboxes := (mailboxes s)[gen := (mailboxes s ! gen)\<lparr>cb_fault := min now (NO_CALLBACK_FAULT - 1)\<rparr>]\<rparr> else s)"

definition on_error :: "nat \<Rightarrow> nat \<Rightarrow> tap_error \<Rightarrow> supervisor \<Rightarrow> supervisor" where
  "on_error gen now e s =
     (if callback_admits gen s \<and> is_transient_device_fault e then record_fault gen now s else s)"

text \<open>Whether frames of a callback reach the recorder.\<close>

definition on_frames :: "nat \<Rightarrow> supervisor \<Rightarrow> bool" where
  "on_frames gen s \<longleftrightarrow> callback_admits gen s \<and> cb_fault (mailboxes s ! gen) = NO_CALLBACK_FAULT"

datatype supervisor_op =
    Start nat device_answers
  | StartRecovering nat nat device_answers
  | Stop nat device_answers
  | TakeTap nat
  | RequestRetry nat
  | Drain nat
  | Poll nat tap_activity output_activity device_answers
  | RaiseChange nat device_change_kind
  | CallbackError nat nat tap_error
  | LateFault nat nat

fun supervise :: "supervisor \<Rightarrow> supervisor_op \<Rightarrow> supervisor \<times> device_call list" where
  "supervise s (Start now ans) = (case start now ans s of (s, r, calls) \<Rightarrow> (s, calls))"
| "supervise s (StartRecovering started_at now ans) = (case start_recovering started_at now ans s of (s, r, calls) \<Rightarrow> (s, calls))"
| "supervise s (Stop now ans) = (case stop ans s of (s, r, calls) \<Rightarrow> (s, calls))"
| "supervise s (TakeTap now) = (fst (take_running_tap s), [])"
| "supervise s (RequestRetry now) = (fst (request_retry s), [])"
| "supervise s (Drain now) = (fst (drain_events s), [])"
| "supervise s (Poll now a probe ans) = (case poll now a probe ans s of (s, out, calls) \<Rightarrow> (s, calls))"
| "supervise s (RaiseChange now k) = (s\<lparr>sv_signal := raise_change k (sv_signal s)\<rparr>, [])"
| "supervise s (CallbackError now gen e) = (on_error gen now e s, [])"
| "supervise s (LateFault now gen) = (record_fault gen now s, [])"

text \<open>What the device answers in a step; the other operations do not call it.\<close>

fun answers_of :: "supervisor_op \<Rightarrow> device_answers" where
  "answers_of (Start now ans) = ans"
| "answers_of (StartRecovering started_at now ans) = ans"
| "answers_of (Stop now ans) = ans"
| "answers_of (Poll now a probe ans) = ans"
| "answers_of _ = \<lparr>an_open = Inr (), an_start = Inl NotRunning, an_stop = Inr ()\<rparr>"

section \<open>One tap at a time\<close>

text \<open>
  How the device may be used: a tap is opened only when none is held and every earlier one was released,
  started only after it was opened, and stopped only while held.
\<close>

datatype device = Free | Opened | Held | Blocked

fun after_error :: "tap_error \<Rightarrow> device" where
  "after_error (Cleanup st msg) = (if resources_released st then Free else Blocked)"
| "after_error _ = Free"

definition after_stop_error :: "tap_error \<Rightarrow> device" where
  "after_stop_error e = (case tap_cleanup_state e of None \<Rightarrow> Blocked | Some st \<Rightarrow> if resources_released st then Free else Blocked)"

fun device_use :: "device_answers \<Rightarrow> device \<Rightarrow> device_call list \<Rightarrow> device option" where
  "device_use ans d [] = Some d"
| "device_use ans Free (CallOpen # calls) =
     (case an_open ans of Inl e \<Rightarrow> device_use ans (after_error e) calls | Inr _ \<Rightarrow> device_use ans Opened calls)"
| "device_use ans Opened (CallStart # calls) =
     (case an_start ans of Inl e \<Rightarrow> device_use ans (after_error e) calls | Inr _ \<Rightarrow> device_use ans Held calls)"
| "device_use ans Held (CallStop # calls) =
     (case an_stop ans of Inl e \<Rightarrow> device_use ans (after_stop_error e) calls | Inr _ \<Rightarrow> device_use ans Free calls)"
| "device_use ans _ _ = None"

definition device_of :: "supervisor \<Rightarrow> device" where
  "device_of s = (if cleanup_blocked s \<noteq> None then Blocked else if sv_tap s \<noteq> None then Held else Free)"

fun holds_tap :: "capture_state \<Rightarrow> bool" where
  "holds_tap Running = True"
| "holds_tap Quarantined = True"
| "holds_tap _ = False"

text \<open>No callback is admitted and no tap is held; or the last start holds the tap and only its callbacks are admitted.\<close>

definition fenced :: "supervisor \<Rightarrow> bool" where
  "fenced s \<longleftrightarrow> mailboxes s \<noteq> [] \<and> list_all (\<lambda>m. \<not> cb_active m) (mailboxes s) \<and> sv_tap s = None"

definition watching :: "supervisor \<Rightarrow> bool" where
  "watching s \<longleftrightarrow> mailboxes s \<noteq> [] \<and> list_all (\<lambda>m. \<not> cb_active m) (butlast (mailboxes s))
     \<and> sv_tap s = Some (length (mailboxes s) - 1) \<and> cleanup_blocked s = None"

definition supervisor_inv :: "supervisor \<Rightarrow> bool" where
  "supervisor_inv s \<longleftrightarrow>
     (if holds_tap (sv_state s) then watching s
      else fenced s \<and> (\<forall>r. sv_state s = Recovering r \<longrightarrow> cleanup_blocked s = None))"

lemma holds_tap_iff: "holds_tap st \<longleftrightarrow> st = Running \<or> st = Quarantined"
  by (cases st) simp_all

lemma device_use_append:
  "device_use ans d (xs @ ys) = (case device_use ans d xs of None \<Rightarrow> None | Some e \<Rightarrow> device_use ans e ys)"
  by (induction ans d xs rule: device_use.induct) (auto split: sum.splits option.splits)

lemma remember_cleanup_simps [simp]:
  "mailboxes (remember_cleanup e s) = mailboxes s" "sv_tap (remember_cleanup e s) = sv_tap s"
  "sv_state (remember_cleanup e s) = sv_state s" "sv_config (remember_cleanup e s) = sv_config s"
  "events (remember_cleanup e s) = events s" "episode_attempts (remember_cleanup e s) = episode_attempts s"
  "last_attempt_ns (remember_cleanup e s) = last_attempt_ns s" "sv_watchdog (remember_cleanup e s) = sv_watchdog s"
  by (cases e; simp)+

lemma remember_cleanup_blocked:
  "cleanup_blocked s = None \<Longrightarrow> (cleanup_blocked (remember_cleanup e s) = None) = (after_error e = Free)"
  "cleanup_blocked s \<noteq> None \<Longrightarrow> cleanup_blocked (remember_cleanup e s) \<noteq> None"
  by (cases e; simp)+

lemma after_stop_error: "tap_cleanup_state e \<noteq> None \<Longrightarrow> after_stop_error e = after_error e"
  by (cases e) (simp_all add: after_stop_error_def)

lemma after_error_cases: "after_error e = Free \<or> after_error e = Blocked"
  by (cases e) simp_all

lemma list_all_last: "xs \<noteq> [] \<Longrightarrow> list_all P xs \<longleftrightarrow> list_all P (butlast xs) \<and> P (last xs)"
  by (cases xs rule: rev_cases) simp_all

lemma retire_fences:
  assumes "mailboxes s \<noteq> []" and "list_all (\<lambda>m. \<not> cb_active m) (butlast (mailboxes s))"
  shows "list_all (\<lambda>m. \<not> cb_active m) (mailboxes (retire_callbacks s))" "mailboxes (retire_callbacks s) \<noteq> []"
    "length (mailboxes (retire_callbacks s)) = length (mailboxes s)"
  using assms by (simp_all add: retire_callbacks_def)

lemma retire_simps [simp]:
  "sv_tap (retire_callbacks s) = sv_tap s" "cleanup_blocked (retire_callbacks s) = cleanup_blocked s"
  "sv_state (retire_callbacks s) = sv_state s" "sv_config (retire_callbacks s) = sv_config s"
  "events (retire_callbacks s) = events s" "episode_attempts (retire_callbacks s) = episode_attempts s"
  "last_attempt_ns (retire_callbacks s) = last_attempt_ns s" "sv_watchdog (retire_callbacks s) = sv_watchdog s"
  by (simp_all add: retire_callbacks_def)

lemma inv_mailboxes:
  assumes "supervisor_inv s"
  shows "mailboxes s \<noteq> []" "list_all (\<lambda>m. \<not> cb_active m) (butlast (mailboxes s))"
  using assms by (auto simp: supervisor_inv_def fenced_def watching_def list_all_last split: if_splits)

lemma stop_tap_fences:
  assumes "stop_tap ans (retire_callbacks s) = (s', r, calls)" and "watching s \<or> fenced s"
  shows "fenced s'" "device_use ans (device_of s) calls = Some (device_of s')"
proof -
  have mb: "list_all (\<lambda>m. \<not> cb_active m) (mailboxes (retire_callbacks s))" "mailboxes (retire_callbacks s) \<noteq> []"
    using assms(2) retire_fences [of s] by (auto simp: watching_def fenced_def list_all_last)
  then show "fenced s'"
    using assms(1) by (auto simp: stop_tap_def fenced_def Let_def split: option.splits sum.splits if_splits)
  show "device_use ans (device_of s) calls = Some (device_of s')"
  proof (cases "sv_tap s")
    case None
    then show ?thesis using assms(1) by (auto simp: stop_tap_def device_of_def split: option.splits)
  next
    case (Some g)
    with assms(2) have "cleanup_blocked s = None" by (auto simp: watching_def fenced_def)
    note facts = Some this assms(1)
    show ?thesis
    proof (cases "an_stop ans")
      case (Inl e)
      with facts have calls: "calls = [CallStop]" and s': "s' = (if tap_cleanup_state e = None
          then (retire_callbacks s)\<lparr>sv_tap := None, cleanup_blocked := Some (Unconfirmed, tap_error_text e)\<rparr>
          else remember_cleanup e ((retire_callbacks s)\<lparr>sv_tap := None\<rparr>))"
        by (simp_all add: stop_tap_def Let_def)
      have "device_of s' = after_stop_error e"
      proof (cases "tap_cleanup_state e")
        case None
        then show ?thesis by (simp add: s' device_of_def after_stop_error_def)
      next
        case (Some st)
        then show ?thesis using facts(2) after_error_cases [of e] remember_cleanup_blocked(1) [of "(retire_callbacks s)\<lparr>sv_tap := None\<rparr>" e]
          by (auto simp: s' device_of_def after_stop_error)
      qed
      with facts(1,2) Inl show ?thesis by (simp add: calls) (simp add: device_of_def)
    next
      case (Inr u)
      with facts have "calls = [CallStop]" "s' = (retire_callbacks s)\<lparr>sv_tap := None\<rparr>" by (simp_all add: stop_tap_def Let_def)
      with facts(1,2) Inr show ?thesis by (simp add: device_of_def)
    qed
  qed
qed

lemma observing_sink_watches:
  assumes "fenced s"
  shows "list_all (\<lambda>m. \<not> cb_active m) (butlast (mailboxes (observing_sink s)))" "mailboxes (observing_sink s) \<noteq> []"
    "sv_tap (observing_sink s) = None" "cleanup_blocked (observing_sink s) = cleanup_blocked s" "sv_state (observing_sink s) = sv_state s"
  using assms retire_fences [of s] by (auto simp: observing_sink_def fenced_def Let_def list_all_last)

lemma start_observed_ok:
  assumes "fenced s" and "cleanup_blocked s = None" and "start_observed ans s = (s', r)"
  shows "an_start ans = r" "sv_state s' = sv_state s"
    "r = Inl e \<Longrightarrow> fenced s' \<and> device_of s' = after_error e"
    "r = Inr fmt \<Longrightarrow> mailboxes s' \<noteq> [] \<and> list_all (\<lambda>m. \<not> cb_active m) (butlast (mailboxes s')) \<and> cleanup_blocked s' = None"
proof -
  note sink = observing_sink_watches [OF assms(1)]
  show "an_start ans = r" "sv_state s' = sv_state s"
    using assms(3) sink(5) by (auto simp: start_observed_def Let_def split: sum.splits)
  show "mailboxes s' \<noteq> [] \<and> list_all (\<lambda>m. \<not> cb_active m) (butlast (mailboxes s')) \<and> cleanup_blocked s' = None" if "r = Inr fmt"
    using assms(2,3) that sink by (auto simp: start_observed_def Let_def split: sum.splits)
  assume "r = Inl e"
  with assms(3) have s': "s' = remember_cleanup e (retire_callbacks (observing_sink s))"
    by (auto simp: start_observed_def Let_def split: sum.splits)
  have "fenced s'" using sink retire_fences [of "observing_sink s"] by (simp add: s' fenced_def)
  moreover have "device_of s' = after_error e"
    using remember_cleanup_blocked(1) [of "retire_callbacks (observing_sink s)" e] after_error_cases [of e] sink assms(2)
    by (auto simp: s' device_of_def)
  ultimately show "fenced s' \<and> device_of s' = after_error e" ..
qed

lemma rebuild_failed_ok:
  assumes "fenced s" and "rebuild_failed now r e s = (s', out)"
  shows "supervisor_inv s'" "device_of s' = device_of (remember_cleanup e s)"
  using assms
  by (auto simp: rebuild_failed_def Let_def supervisor_inv_def fenced_def device_of_def push_event_def simp del: not_None_eq split: if_splits)

lemma device_of_remember:
  assumes "fenced s"
  shows "device_of (remember_cleanup e s) = (if device_of s = Blocked then Blocked else after_error e)"
  using assms remember_cleanup_blocked [of s e] after_error_cases [of e]
  by (cases "cleanup_blocked s = None") (auto simp: device_of_def fenced_def simp del: not_None_eq)

lemma attempt_rebuild_ok:
  assumes s: "fenced s" "cleanup_blocked s = None" and "attempt_rebuild now ans r s = (s', out, calls)"
  shows "supervisor_inv s'" "device_use ans Free calls = Some (device_of s')"
proof -
  let ?s = "s\<lparr>episode_attempts := sat_add32 (episode_attempts s) 1, last_attempt_ns := Some now\<rparr>"
  let ?r = "r\<lparr>rc_attempt := episode_attempts ?s\<rparr>"
  have s1: "fenced ?s" "cleanup_blocked ?s = None" "device_of ?s = Free"
    using s by (simp_all add: fenced_def device_of_def)
  have "supervisor_inv s' \<and> device_use ans Free calls = Some (device_of s')"
  proof (cases "an_open ans")
    case (Inl e)
    with assms(3) have "rebuild_failed now ?r e ?s = (s', out)" "calls = [CallOpen]"
      by (auto simp: attempt_rebuild_def open_replacement_def Let_def split: prod.splits)
    with rebuild_failed_ok [OF s1(1)] device_of_remember [OF s1(1)] s1(3) Inl show ?thesis by auto
  next
    case (Inr u)
    obtain s2 x where st: "start_observed ans ?s = (s2, x)" by fastforce
    note so = start_observed_ok [OF s1(1,2) st]
    show ?thesis
    proof (cases x)
      case (Inl e)
      with st Inr assms(3) have fail: "rebuild_failed now ?r e s2 = (s', out)" "calls = [CallOpen, CallStart]"
        by (auto simp: attempt_rebuild_def open_replacement_def Let_def split: prod.splits)
      with rebuild_failed_ok so(1,3) Inl device_of_remember [of s2 e] after_error_cases [of e] Inr show ?thesis by auto
    next
      case (Inr fmt)
      with st \<open>an_open ans = Inr u\<close> assms(3) have "s' = rebuilt now ?r fmt s2" "calls = [CallOpen, CallStart]"
        by (auto simp: attempt_rebuild_def open_replacement_def Let_def split: prod.splits)
      with so(1,4) Inr \<open>an_open ans = Inr u\<close> show ?thesis
        by (auto simp: supervisor_inv_def watching_def rebuilt_def adopt_tap_def forget_health_def push_event_def device_of_def)
    qed
  qed
  then show "supervisor_inv s'" "device_use ans Free calls = Some (device_of s')" by blast+
qed

text \<open>Everything else leaves the tap and its callbacks alone.\<close>

definition fence :: "supervisor \<Rightarrow> callback_mailbox list \<times> nat option \<times> (cleanup_state \<times> string) option" where
  "fence s = (mailboxes s, sv_tap s, cleanup_blocked s)"

lemma fence_cong:
  assumes "fence s = fence t"
  shows "watching s = watching t" "fenced s = fenced t" "device_of s = device_of t"
  using assms by (auto simp: fence_def watching_def fenced_def device_of_def)

lemma core_update [simp]:
  "fence (push_event e s) = fence s" "fence (forget_health s) = fence s" "fence (confirm_delivery q s) = fence s"
  "fence (s\<lparr>sv_state := st\<rparr>) = fence s" "fence (s\<lparr>sv_watchdog := w\<rparr>) = fence s" "fence (s\<lparr>health_confirmed := h\<rparr>) = fence s"
  "fence (s\<lparr>ineffective_recoveries := n\<rparr>) = fence s" "fence (s\<lparr>pending_changes := c\<rparr>) = fence s"
  "fence (s\<lparr>sv_debounce := d\<rparr>) = fence s" "fence (s\<lparr>no_audio_notified := b\<rparr>) = fence s" "fence (s\<lparr>sv_format := f\<rparr>) = fence s"
  "fence (fst (observe_delivery now a v s)) = fence s" "fence (absorb_changes now s) = fence s" "fence (resume_retry s) = fence s"
  by (simp_all add: fence_def push_event_def forget_health_def confirm_delivery_def observe_delivery_def absorb_changes_def
    resume_retry_def take_changes_def Let_def)

lemma state_update [simp]:
  "sv_state (push_event e s) = sv_state s" "sv_state (forget_health s) = sv_state s"
  "sv_state (fst (observe_delivery now a v s)) = sv_state s" "sv_state (absorb_changes now s) = sv_state s"
  "sv_state (resume_retry s) = sv_state s" "holds_tap (sv_state (confirm_delivery q s)) = (q \<or> holds_tap (sv_state s))"
  by (simp_all add: push_event_def forget_health_def confirm_delivery_def observe_delivery_def absorb_changes_def
    resume_retry_def take_changes_def Let_def)

text \<open>A step that uses the device as it may and keeps the invariant.\<close>

definition uses_well :: "device_answers \<Rightarrow> supervisor \<Rightarrow> supervisor \<times> 'o \<times> device_call list \<Rightarrow> bool" where
  "uses_well ans s result = (case result of (s', out, calls) \<Rightarrow>
     supervisor_inv s' \<and> device_use ans (device_of s) calls = Some (device_of s'))"

lemma uses_well_still:
  assumes "watching s" and "fence s' = fence s" and "holds_tap (sv_state s')"
  shows "uses_well ans s (s', out, [])"
  using assms fence_cong [OF assms(2)] by (simp add: uses_well_def supervisor_inv_def)

lemma uses_well_fenced:
  assumes "fenced s" and "fence s' = fence s" and "\<not> holds_tap (sv_state s')" and "\<And>r. sv_state s' \<noteq> Recovering r"
  shows "uses_well ans s (s', out, [])"
  using assms fence_cong [OF assms(2)] by (simp add: uses_well_def supervisor_inv_def)

lemma uses_well_core: "fence t = fence s \<Longrightarrow> uses_well ans t result \<Longrightarrow> uses_well ans s result"
  using fence_cong(3) [of t s] by (simp add: uses_well_def)

lemma begin_recovery_ok:
  assumes "watching s"
  shows "uses_well ans s (begin_recovery now ans silent since reason s)"
proof (cases "max_attempts (sv_config s) \<le> episode_attempts s")
  case True
  then show ?thesis
    unfolding begin_recovery_def by (simp only: if_True) (rule uses_well_still [OF assms], simp_all)
next
  case False
  obtain s1 cleanup calls where st: "stop_tap ans (retire_callbacks s) = (s1, cleanup, calls)" by (rule prod_cases3)
  have s1: "fenced s1" "device_use ans (device_of s) calls = Some (device_of s1)"
    using stop_tap_fences [OF st] assms by blast+
  let ?s = "s1\<lparr>sv_format := None\<rparr>"
  have fence: "fenced ?s" "device_of ?s = device_of s1" using s1(1) fence_cong [of ?s s1] by simp_all
  show ?thesis
  proof (cases "cleanup_blocked s1 = None")
    case False
    with \<open>\<not> max_attempts (sv_config s) \<le> episode_attempts s\<close> st s1 fence show ?thesis
      by (auto simp: begin_recovery_def uses_well_def supervisor_inv_def Let_def fenced_def device_of_def push_event_def
        simp del: not_None_eq)
  next
    case True
    then have free: "cleanup_blocked ?s = None" "device_of s1 = Free"
      using s1(1) by (simp_all add: device_of_def fenced_def)
    show ?thesis
    proof (cases "now < next_attempt_at now ?s")
      case late: True
      with \<open>\<not> max_attempts (sv_config s) \<le> episode_attempts s\<close> st s1 free show ?thesis
        by (auto simp: begin_recovery_def uses_well_def supervisor_inv_def Let_def fenced_def device_of_def)
    next
      case now: False
      obtain r where r: "begin_recovery now ans silent since reason s
          = (case attempt_rebuild now ans r ?s of (s2, out, more_calls) \<Rightarrow> (s2, out, calls @ more_calls))"
        using now False st free(1) by (simp add: begin_recovery_def Let_def)
      obtain s2 out more_calls where at: "attempt_rebuild now ans r ?s = (s2, out, more_calls)" by (rule prod_cases3)
      from attempt_rebuild_ok [OF fence(1) free(1) at] s1(2) free(2) show ?thesis
        by (simp add: r at uses_well_def device_use_append)
    qed
  qed
qed

lemma begin_recovery_from:
  assumes "watching s" and "fence t = fence s"
  shows "uses_well ans s (begin_recovery now ans silent since reason t)"
  using begin_recovery_ok [of t] assms fence_cong(1) [OF assms(2)] by (intro uses_well_core [OF assms(2)]) simp

lemma on_fault_ok:
  assumes "watching s" and "holds_tap (sv_state s)"
  shows "uses_well ans s (on_fault now ans quarantined f s)"
  unfolding on_fault_def Let_def
  by (auto intro!: uses_well_still [OF assms(1)] begin_recovery_from [OF assms(1)] simp: assms(2) split: fault.split)

lemma on_device_change_ok:
  assumes "watching s" and "holds_tap (sv_state s)"
  shows "uses_well ans s (on_device_change now ans keep s)"
  unfolding on_device_change_def Let_def
  by (auto intro!: uses_well_still [OF assms(1)] begin_recovery_from [OF assms(1)] simp: assms(2))

lemma settle_ok:
  assumes "watching s" and "holds_tap (sv_state s)"
  shows "uses_well ans s (settle v s)"
  unfolding settle_def Let_def
  by (auto intro!: uses_well_still [OF assms(1)] simp: assms(2) split: verdict.split)

lemma poll_watching_ok:
  assumes "watching s" and "holds_tap (sv_state s)"
  shows "uses_well ans s (poll_watching now a probe ans quarantined s)"
proof -
  obtain w v where w: "watchdog_poll now a probe (sv_watchdog s) = (w, v)" by fastforce
  obtain s1 sustained where s1: "observe_delivery now a v (s\<lparr>sv_watchdog := w\<rparr>) = (s1, sustained)" by fastforce
  obtain fire d where d: "debounce_poll now (sv_debounce (if sustained then confirm_delivery quarantined s1 else s1)) = (fire, d)"
    by fastforce
  let ?s = "if sustained then confirm_delivery quarantined s1 else s1"
  have "fence s1 = fence s" "holds_tap (sv_state s1)"
    using core_update(12) [of now a v "s\<lparr>sv_watchdog := w\<rparr>"] state_update(3) [of now a v "s\<lparr>sv_watchdog := w\<rparr>"] s1 assms(2)
    by simp_all
  then have c: "fence ?s = fence s" "holds_tap (sv_state ?s)" by simp_all
  then have t: "watching ?s" using assms(1) fence_cong(1) by blast
  let ?t = "?s\<lparr>sv_debounce := d\<rparr>"
  have u: "fence ?t = fence s" "holds_tap (sv_state ?t)" "watching ?t"
    using c t fence_cong(1) [of ?t ?s] by simp_all
  show ?thesis
    unfolding poll_watching_def w s1 prod.case Let_def d
    using on_fault_ok [OF t c(2), THEN uses_well_core [OF c(1)]] on_device_change_ok [OF u(3,2), THEN uses_well_core [OF u(1)]]
      settle_ok [OF u(3,2), THEN uses_well_core [OF u(1)]]
    by (auto intro!: uses_well_still [OF assms(1)] begin_recovery_from [OF assms(1)] simp: assms(2) split: verdict.split)
qed

lemma poll_state_ok:
  assumes "supervisor_inv s" and "cleanup_blocked s = None"
  shows "uses_well ans s (poll_state now a probe ans s)"
proof -
  let ?s = "absorb_changes now s"
  have c: "fence ?s = fence s" "sv_state ?s = sv_state s" by simp_all
  then have inv: "supervisor_inv ?s" using assms(1) fence_cong [OF c(1)] by (simp add: supervisor_inv_def fence_def)
  have blocked: "cleanup_blocked ?s = None" using c(1) assms(2) by (simp add: fence_def)
  show ?thesis
  proof (cases "sv_state s")
    case (Recovering r)
    then have "fenced ?s" using inv by (simp add: supervisor_inv_def)
    moreover from this have "device_of s = Free" using blocked fence_cong(3) [OF c(1)] by (simp add: device_of_def fenced_def)
    moreover obtain s' out calls where at: "attempt_rebuild now ans r ?s = (s', out, calls)" by (rule prod_cases3)
    ultimately show ?thesis
      using attempt_rebuild_ok [OF _ blocked at] Recovering inv fence_cong(3) [OF c(1)]
      by (simp add: poll_state_def Let_def uses_well_def)
  next
    case (Abandoned r)
    moreover from this have "fenced s" using assms(1) by (simp add: supervisor_inv_def)
    ultimately show ?thesis by (simp add: poll_state_def Let_def uses_well_fenced)
  next
    case Idle
    then show ?thesis using inv fence_cong(3) [OF c(1)] by (simp add: poll_state_def Let_def uses_well_def)
  next
    case Running
    then have "watching ?s" using inv by (simp add: supervisor_inv_def)
    from poll_watching_ok [OF this] Running show ?thesis
      unfolding poll_state_def Let_def by (intro uses_well_core [OF c(1)]) simp
  next
    case Quarantined
    then have "watching ?s" using inv by (simp add: supervisor_inv_def)
    from poll_watching_ok [OF this] Quarantined show ?thesis
      unfolding poll_state_def Let_def by (intro uses_well_core [OF c(1)]) simp
  qed
qed

lemma poll_ok:
  assumes "supervisor_inv s"
  shows "uses_well ans s (poll now a probe ans s)"
proof (cases "sv_state s = Idle \<or> cleanup_blocked s \<noteq> None")
  case True
  then show ?thesis using assms by (auto simp: poll_def uses_well_def)
next
  case False
  then have blocked: "cleanup_blocked s = None" "sv_state s \<noteq> Idle" by blast+
  show ?thesis
  proof (cases "retry_requested s")
    case False
    with blocked poll_state_ok [OF assms blocked(1)] show ?thesis by (simp add: poll_def)
  next
    case True
    let ?s = "resume_retry s"
    have c: "fence ?s = fence s" "sv_state ?s = sv_state s" by simp_all
    have none: "cleanup_blocked ?s = None" using c(1) blocked(1) by (simp add: fence_def)
    have inv: "supervisor_inv ?s" using assms fence_cong [OF c(1)] none by (simp add: supervisor_inv_def)
    show ?thesis
    proof (cases "sv_state s")
      case (Abandoned r)
      let ?t = "?s\<lparr>sv_state := Recovering (r\<lparr>next_attempt_ns := next_attempt_at now ?s\<rparr>)\<rparr>"
      have t: "fence ?t = fence s" "cleanup_blocked ?t = None" using none by simp_all
      moreover have "fenced ?t" using Abandoned inv fence_cong(2) [of ?t ?s] by (simp add: supervisor_inv_def)
      then have "supervisor_inv ?t" using none by (simp add: supervisor_inv_def)
      ultimately show ?thesis
        using True blocked Abandoned poll_state_ok [of ?t, THEN uses_well_core [OF t(1)]] by (simp add: poll_def Let_def)
    next
      case Quarantined
      then have "watching s" using assms by (simp add: supervisor_inv_def)
      with True blocked Quarantined show ?thesis
        by (simp add: poll_def Let_def begin_recovery_from c)
    qed (use True blocked poll_state_ok [OF inv none, THEN uses_well_core [OF c(1)]] in \<open>simp_all add: poll_def Let_def\<close>)
  qed
qed

lemma start_ok:
  assumes "supervisor_inv s"
  shows "uses_well ans s (start now ans s)"
proof (cases "cleanup_blocked s = None \<and> sv_state s = Idle")
  case False
  then show ?thesis using assms by (auto simp: start_def uses_well_def cleanup_error_def split: option.splits)
next
  case True
  then have s: "fenced s" "cleanup_blocked s = None" "sv_state s = Idle" "device_of s = Free"
    using assms by (simp_all add: supervisor_inv_def fenced_def device_of_def)
  show ?thesis
  proof (cases "an_open ans")
    case (Inl e)
    have "fenced (remember_cleanup e s)" using s(1) by (simp add: fenced_def)
    with Inl s device_of_remember [OF s(1), of e] show ?thesis
      by (simp add: start_def cleanup_error_def uses_well_def supervisor_inv_def)
  next
    case (Inr u)
    obtain s1 x where st: "start_observed ans s = (s1, x)" by fastforce
    note so = start_observed_ok [OF s(1,2) st]
    show ?thesis
    proof (cases x)
      case (Inl e)
      with so Inr st s show ?thesis by (simp add: start_def cleanup_error_def uses_well_def supervisor_inv_def)
    next
      case (Inr fmt)
      with so \<open>an_open ans = Inr u\<close> st s show ?thesis
        by (simp add: start_def cleanup_error_def uses_well_def supervisor_inv_def watching_def adopt_tap_def forget_health_def device_of_def)
    qed
  qed
qed

lemma start_failed_core: "fence (start_failed started_at now e s) = fence (retire_callbacks s)"
  by (simp add: start_failed_def fence_def forget_health_def push_event_def Let_def)

lemma start_failed_state:
  obtains r where "sv_state (start_failed started_at now e s) = Abandoned r"
  | r where "sv_state (start_failed started_at now e s) = Recovering r" "cleanup_blocked s = None"
proof (cases "cleanup_blocked s \<noteq> None \<or> max_attempts (sv_config s) \<le> 1")
  case True
  with that(1) show ?thesis by (simp add: start_failed_def forget_health_def Let_def)
next
  case False
  with that(2) show ?thesis by (simp add: start_failed_def forget_health_def Let_def del: not_None_eq)
qed

lemma start_failed_ok:
  assumes "fenced s"
  shows "supervisor_inv (start_failed started_at now e s)" "device_of (start_failed started_at now e s) = device_of s"
proof -
  have "fenced (retire_callbacks s)"
    using assms retire_fences [of s] by (auto simp: fenced_def list_all_last [of "mailboxes s"])
  moreover note fence_cong [OF start_failed_core, of started_at now e s]
  ultimately have fenced: "fenced (start_failed started_at now e s)"
    and dev: "device_of (start_failed started_at now e s) = device_of s" by (simp_all add: device_of_def)
  show "device_of (start_failed started_at now e s) = device_of s" by (rule dev)
  have blocked: "cleanup_blocked (start_failed started_at now e s) = cleanup_blocked s"
    using start_failed_core [of started_at now e s] by (simp add: fence_def)
  show "supervisor_inv (start_failed started_at now e s)"
    by (rule start_failed_state [of started_at now e s]) (simp_all add: supervisor_inv_def fenced blocked)
qed

lemma start_recovering_ok:
  assumes "supervisor_inv s"
  shows "uses_well ans s (start_recovering started_at now ans s)"
proof (cases "sv_state s = Idle")
  case False
  then show ?thesis using assms by (simp add: start_recovering_def uses_well_def)
next
  case True
  obtain s1 r calls where st: "start now ans s = (s1, r, calls)" by (rule prod_cases3)
  have ok: "supervisor_inv s1" "device_use ans (device_of s) calls = Some (device_of s1)"
    using start_ok [OF assms, of ans now] by (simp_all add: st uses_well_def)
  show ?thesis
  proof (cases r)
    case (Inl e)
    have "sv_state s1 = Idle"
      using st Inl True by (auto simp: start_def start_observed_def observing_sink_def Let_def split: option.splits sum.splits prod.splits if_splits)
    moreover from this have "fenced s1" using ok(1) by (simp add: supervisor_inv_def)
    ultimately show ?thesis using True st Inl ok start_failed_ok by (simp add: start_recovering_def uses_well_def)
  next
    case (Inr fmt)
    with True st ok show ?thesis by (simp add: start_recovering_def uses_well_def)
  qed
qed

lemma go_idle_ok:
  assumes "fenced s"
  shows "supervisor_inv (go_idle s)" "device_of (go_idle s) = device_of s"
  using assms by (simp_all add: go_idle_def supervisor_inv_def fenced_def device_of_def)

lemma inv_watching_or_fenced: "supervisor_inv s \<Longrightarrow> watching s \<or> fenced s"
  by (auto simp: supervisor_inv_def split: if_splits)

lemma stop_ok:
  assumes "supervisor_inv s"
  shows "uses_well ans s (stop ans s)"
proof -
  obtain s1 r calls where st: "stop_tap ans (retire_callbacks s) = (s1, r, calls)" by (rule prod_cases3)
  from stop_tap_fences [OF st inv_watching_or_fenced [OF assms]] go_idle_ok show ?thesis
    by (simp add: stop_def st uses_well_def)
qed

lemma take_running_tap_ok:
  assumes "supervisor_inv s"
  shows "supervisor_inv (fst (take_running_tap s))"
proof -
  have "fenced ((retire_callbacks s)\<lparr>sv_tap := None\<rparr>)"
    using inv_mailboxes [OF assms] retire_fences [of s] by (simp add: fenced_def)
  then show ?thesis by (simp add: take_running_tap_def Let_def go_idle_ok)
qed

lemma record_fault_active: "map cb_active (mailboxes (record_fault gen now s)) = map cb_active (mailboxes s)"
  by (auto simp: record_fault_def nth_list_update intro!: nth_equalityI split: if_splits)

lemma list_all_active: "list_all (\<lambda>m. \<not> cb_active m) ms \<longleftrightarrow> list_all Not (map cb_active ms)"
  by (simp add: list_all_iff)

lemma record_fault_core:
  "watching (record_fault gen now s) = watching s" "fenced (record_fault gen now s) = fenced s"
  "device_of (record_fault gen now s) = device_of s" "sv_state (record_fault gen now s) = sv_state s"
  "cleanup_blocked (record_fault gen now s) = cleanup_blocked s"
proof -
  have same: "sv_tap (record_fault gen now s) = sv_tap s" "cleanup_blocked (record_fault gen now s) = cleanup_blocked s"
      "sv_state (record_fault gen now s) = sv_state s" "length (mailboxes (record_fault gen now s)) = length (mailboxes s)"
    by (simp_all add: record_fault_def)
  have active: "list_all (\<lambda>m. \<not> cb_active m) (mailboxes (record_fault gen now s)) = list_all (\<lambda>m. \<not> cb_active m) (mailboxes s)"
      "list_all (\<lambda>m. \<not> cb_active m) (butlast (mailboxes (record_fault gen now s))) = list_all (\<lambda>m. \<not> cb_active m) (butlast (mailboxes s))"
    by (simp_all only: list_all_active map_butlast record_fault_active)
  have "(mailboxes (record_fault gen now s) = []) = (mailboxes s = [])" using same(4) by (metis length_0_conv)
  with active show "watching (record_fault gen now s) = watching s" "fenced (record_fault gen now s) = fenced s"
      "device_of (record_fault gen now s) = device_of s" "sv_state (record_fault gen now s) = sv_state s"
      "cleanup_blocked (record_fault gen now s) = cleanup_blocked s"
    using same by (simp_all add: watching_def fenced_def device_of_def)
qed

lemma uses_wellD:
  assumes "uses_well ans s p"
  shows "supervisor_inv (fst p)" "device_use ans (device_of s) (snd (snd p)) = Some (device_of (fst p))"
  using assms by (auto simp: uses_well_def split: prod.splits)

lemma still_ok:
  assumes "supervisor_inv s" and "fence t = fence s" and "sv_state t = sv_state s"
  shows "supervisor_inv t" "device_of t = device_of s"
proof -
  have "cleanup_blocked t = cleanup_blocked s" using assms(2) by (simp add: fence_def)
  with assms(1,3) fence_cong [OF assms(2)] show "supervisor_inv t" "device_of t = device_of s"
    by (simp_all add: supervisor_inv_def)
qed

lemma quiet_ops:
  "fence (fst (request_retry s)) = fence s" "sv_state (fst (request_retry s)) = sv_state s"
  "fence (fst (drain_events s)) = fence s" "sv_state (fst (drain_events s)) = sv_state s"
  "fence (s\<lparr>sv_signal := sg\<rparr>) = fence s" "sv_state (s\<lparr>sv_signal := sg\<rparr>) = sv_state s"
  by (simp_all add: request_retry_def drain_events_def fence_def)

lemma callback_ok:
  assumes "supervisor_inv s"
  shows "supervisor_inv (record_fault gen now s)" "supervisor_inv (on_error gen now e s)"
    "device_of (on_error gen now e s) = device_of s"
  using assms by (auto simp: supervisor_inv_def on_error_def record_fault_core split: if_splits)

lemma supervise_inv: "supervisor_inv s \<Longrightarrow> supervisor_inv (fst (supervise s x))"
  using uses_wellD(1) [OF start_ok] uses_wellD(1) [OF start_recovering_ok] uses_wellD(1) [OF stop_ok] uses_wellD(1) [OF poll_ok]
  by (cases x) (simp_all add: split_def take_running_tap_ok callback_ok still_ok(1) [OF _ quiet_ops(1,2)]
    still_ok(1) [OF _ quiet_ops(3,4)] still_ok(1) [OF _ quiet_ops(5,6)])

lemma supervise_device:
  "supervisor_inv s \<Longrightarrow> (case x of TakeTap now \<Rightarrow> True
     | _ \<Rightarrow> device_use (answers_of x) (device_of s) (snd (supervise s x)) = Some (device_of (fst (supervise s x))))"
  using uses_wellD(2) [OF start_ok] uses_wellD(2) [OF start_recovering_ok] uses_wellD(2) [OF stop_ok] uses_wellD(2) [OF poll_ok]
  by (cases x) (simp_all add: split_def record_fault_core callback_ok still_ok(2) [OF _ quiet_ops(1,2)]
    still_ok(2) [OF _ quiet_ops(3,4)] still_ok(2) [OF _ quiet_ops(5,6)])

lemma supervisor_new_inv: "supervisor_inv (supervisor_new cfg)"
  by (simp add: supervisor_inv_def supervisor_new_def fenced_def)

interpretation capture: machine supervise "supervisor_new cfg" supervisor_inv for cfg
  by unfold_locales (simp_all add: supervise_inv supervisor_new_inv)

lemma frames_from_held_tap:
  assumes "supervisor_inv s" and "on_frames gen s"
  shows "sv_tap s = Some gen"
proof -
  have gen: "gen < length (mailboxes s)" "cb_active (mailboxes s ! gen)"
    using assms(2) by (simp_all add: on_frames_def callback_admits_def)
  then have "\<not> fenced s" by (auto simp: fenced_def list_all_length)
  with assms(1) have w: "watching s" by (auto simp: supervisor_inv_def split: if_splits)
  have "gen = length (mailboxes s) - 1"
  proof (rule ccontr)
    assume "gen \<noteq> length (mailboxes s) - 1"
    with gen(1) have "gen < length (butlast (mailboxes s))" by simp
    with w gen(2) show False by (auto simp: watching_def list_all_length nth_butlast)
  qed
  with w show ?thesis by (simp add: watching_def)
qed


definition sample_answers :: "tap_error + unit \<Rightarrow> device_answers" where
  "sample_answers stopping = \<lparr>an_open = Inr (), an_start = Inr \<lparr>sample_rate_hz = 48000, channels = 2, sample = F32\<rparr>, an_stop = stopping\<rparr>"

definition sample_config :: supervisor_config where
  "sample_config = supervisor_config_default\<lparr>sc_watchdog := \<lparr>no_buffer_timeout = 5, silence_timeout = 30, quiet_notice_after = 30,
     emits_silence_when_idle = True\<rparr>, min_rebuild_interval := 15, retry_backoff := 15, max_retry_backoff := 30\<rparr>"

lemmas supervise_eval = start_def start_observed_def observing_sink_def retire_callbacks_def cleanup_error_def adopt_tap_def
  forget_health_def supervisor_new_def push_event_def Let_def


section \<open>Attempts are spaced and bounded\<close>

abbreviation interval_ns :: "supervisor \<Rightarrow> nat" where
  "interval_ns s \<equiv> as_nanos (min_rebuild_interval (sv_config s))"

text \<open>Numbers as their types bound them, and waits below the 584 years that 64 bits of nanoseconds hold.\<close>

definition sized :: "supervisor_config \<Rightarrow> bool" where
  "sized cfg \<longleftrightarrow> 0 < max_attempts cfg \<and> max_attempts cfg < 2 ^ 32 \<and> min_rebuild_interval cfg \<le> u64_max
     \<and> max_retry_backoff cfg \<le> u64_max"

definition due :: "nat \<Rightarrow> supervisor \<Rightarrow> bool" where
  "due now s \<longleftrightarrow> (\<forall>a. last_attempt_ns s = Some a \<longrightarrow> sat_add64 a (interval_ns s) \<le> now)"

definition spaced :: "supervisor \<Rightarrow> bool" where
  "spaced s \<longleftrightarrow> episode_attempts s \<le> max_attempts (sv_config s)
     \<and> (\<forall>r. sv_state s = Recovering r \<longrightarrow> due (next_attempt_ns r) s \<and> episode_attempts s < max_attempts (sv_config s))"

text \<open>The part of the state that paces recovery.\<close>

definition pace :: "supervisor \<Rightarrow> supervisor_config \<times> nat option \<times> nat" where
  "pace s = (sv_config s, last_attempt_ns s, episode_attempts s)"

definition paced :: "nat \<Rightarrow> supervisor \<Rightarrow> supervisor \<times> 'o \<times> device_call list \<Rightarrow> bool" where
  "paced now s result = (case result of (s', out, calls) \<Rightarrow>
     sv_config s' = sv_config s \<and> spaced s'
     \<and> (if CallOpen \<in> set calls then due now s \<and> last_attempt_ns s' = Some now \<and> episode_attempts s' = episode_attempts s + 1
        else last_attempt_ns s' = last_attempt_ns s \<and> episode_attempts s' = episode_attempts s))"

lemma pace_cong:
  assumes "pace s = pace t"
  shows "due now s = due now t" "sv_config s = sv_config t" "episode_attempts s = episode_attempts t"
    "last_attempt_ns s = last_attempt_ns t"
  using assms by (simp_all add: pace_def due_def)

lemma as_nanos_small: "d \<le> u64_max \<Longrightarrow> as_nanos d = d"
  by (simp add: as_nanos_def)

lemma sat_add64_mono: "a \<le> b \<Longrightarrow> c \<le> d \<Longrightarrow> sat_add64 a c \<le> sat_add64 b d"
  by (simp add: sat_add64_def)

lemma retry_wait:
  assumes "sized cfg"
  shows "as_nanos (min_rebuild_interval cfg) \<le> as_nanos (max (backoff cfg n) (min_rebuild_interval cfg))"
proof -
  have "backoff cfg n \<le> max_retry_backoff cfg" by (simp add: backoff_def Let_def)
  then have "max (backoff cfg n) (min_rebuild_interval cfg) \<le> u64_max" using assms by (simp add: sized_def)
  with assms show ?thesis by (simp add: as_nanos_small sized_def)
qed

lemma open_replacement_pace:
  assumes "open_replacement ans s = (s', r, calls)"
  shows "pace s' = pace s" "CallOpen \<in> set calls"
  using assms
  by (auto simp: open_replacement_def start_observed_def observing_sink_def Let_def pace_def split: sum.splits)

lemma rebuild_failed_pace:
  assumes "rebuild_failed now r e s = (s', out)" and "sized (sv_config s)" and "rc_attempt r = episode_attempts s"
    and "episode_attempts s \<le> max_attempts (sv_config s)" and "last_attempt_ns s = Some now"
  shows "pace s' = pace s" "spaced s'"
proof -
  show "pace s' = pace s"
    using assms(1) by (auto simp: rebuild_failed_def Let_def pace_def push_event_def split: if_splits)
  note same = pace_cong [OF this]
  have "due (next_attempt_ns r') s' \<and> episode_attempts s' < max_attempts (sv_config s')" if "sv_state s' = Recovering r'" for r'
  proof -
    have "next_attempt_ns r' = sat_add64 now (as_nanos (max (backoff (sv_config s) (rc_attempt r)) (min_rebuild_interval (sv_config s))))"
      and less: "rc_attempt r < max_attempts (sv_config s)"
      using assms(1) that by (auto simp: rebuild_failed_def Let_def push_event_def split: if_splits)
    then show ?thesis
      using assms(3,5) retry_wait [OF assms(2), of "rc_attempt r"] same by (simp add: due_def sat_add64_mono)
  qed
  with assms(4) same show "spaced s'" by (simp add: spaced_def)
qed

lemma attempt_rebuild_paced:
  assumes "sized (sv_config s)" and "due now s" and "episode_attempts s < max_attempts (sv_config s)"
  shows "paced now s (attempt_rebuild now ans r s)"
proof -
  let ?s = "s\<lparr>episode_attempts := sat_add32 (episode_attempts s) 1, last_attempt_ns := Some now\<rparr>"
  let ?r = "r\<lparr>rc_attempt := episode_attempts ?s\<rparr>"
  have e: "sat_add32 (episode_attempts s) 1 = episode_attempts s + 1"
    using assms(1,3) by (simp add: sat_add32_def sized_def)
  obtain s1 x calls where op: "open_replacement ans ?s = (s1, x, calls)" by (rule prod_cases3)
  note p = open_replacement_pace [OF op] pace_cong [OF open_replacement_pace(1) [OF op]]
  show ?thesis
  proof (cases x)
    case (Inl err)
    obtain s2 out where f: "rebuild_failed now ?r err s1 = (s2, out)" by fastforce
    have "pace s2 = pace s1" "spaced s2"
      by (rule rebuild_failed_pace [OF f]; use p e assms in simp)+
    with Inl op f p(2) pace_cong [OF this(1)] p e assms(2) show ?thesis
      by (simp add: attempt_rebuild_def paced_def Let_def)
  next
    case (Inr fmt)
    have "pace (rebuilt now ?r fmt s1) = pace s1" "sv_state (rebuilt now ?r fmt s1) = Running"
      by (simp_all add: rebuilt_def adopt_tap_def forget_health_def push_event_def pace_def)
    with Inr op p e assms pace_cong [OF this(1)] show ?thesis
      by (simp add: attempt_rebuild_def paced_def spaced_def Let_def)
  qed
qed

lemma stop_tap_pace:
  assumes "stop_tap ans (retire_callbacks s) = (s', r, calls)"
  shows "pace s' = pace s" "CallOpen \<notin> set calls" "sv_state s' = sv_state s"
  using assms by (auto simp: stop_tap_def pace_def Let_def split: option.splits sum.splits if_splits)

lemma next_attempt_due: "due (next_attempt_at now s) s" "now \<le> next_attempt_at now s"
  by (auto simp: due_def next_attempt_at_def split: option.splits)

lemma paced_still:
  assumes "pace s' = pace s" and "episode_attempts s \<le> max_attempts (sv_config s)"
    and "\<And>r. sv_state s' = Recovering r \<Longrightarrow> due (next_attempt_ns r) s \<and> episode_attempts s < max_attempts (sv_config s)"
    and "CallOpen \<notin> set calls"
  shows "paced now s (s', out, calls)"
  using assms pace_cong [OF assms(1)] by (simp add: paced_def spaced_def)

lemma paced_from:
  assumes "pace t = pace s" and "paced now t result"
  shows "paced now s result"
  using assms(2) unfolding paced_def pace_cong [OF assms(1)] .

lemma begin_recovery_paced:
  assumes "sized (sv_config s)" and "episode_attempts s \<le> max_attempts (sv_config s)"
  shows "paced now s (begin_recovery now ans silent since reason s)"
proof (cases "max_attempts (sv_config s) \<le> episode_attempts s")
  case True
  then show ?thesis
    unfolding begin_recovery_def by (simp only: if_True) (rule paced_still, simp_all add: pace_def push_event_def assms(2))
next
  case False
  obtain s1 cleanup calls where st: "stop_tap ans (retire_callbacks s) = (s1, cleanup, calls)" by (rule prod_cases3)
  let ?s = "s1\<lparr>sv_format := None\<rparr>"
  have p: "pace ?s = pace s" "CallOpen \<notin> set calls" using stop_tap_pace [OF st] by (simp_all add: pace_def)
  note same = pace_cong [OF p(1)]
  show ?thesis
  proof (cases "cleanup_blocked s1 = None")
    case blocked: False
    have "paced now s ((push_event e ?s)\<lparr>sv_state := Abandoned r\<rparr>, PollAbandoned, calls)" for e r
      using p assms(2) by (intro paced_still) (simp_all add: pace_def push_event_def)
    with blocked False st show ?thesis by (simp add: begin_recovery_def Let_def)
  next
    case free: True
    show ?thesis
    proof (cases "now < next_attempt_at now ?s")
      case late: True
      have "paced now s (?s\<lparr>sv_state := Recovering r\<rparr>, PollWaiting, calls)" if "next_attempt_ns r = next_attempt_at now ?s" for r
        using p assms(2) False that same(1) next_attempt_due(1) [of now ?s]
        by (intro paced_still) (auto simp: pace_def)
      with late free False st show ?thesis by (simp add: begin_recovery_def Let_def)
    next
      case now: False
      obtain r where r: "begin_recovery now ans silent since reason s
          = (case attempt_rebuild now ans r ?s of (s2, out, more_calls) \<Rightarrow> (s2, out, calls @ more_calls))"
        using now False st free by (simp add: begin_recovery_def Let_def)
      have "due now ?s" using now next_attempt_due [of now ?s] by (metis leI order_antisym)
      then have "paced now ?s (attempt_rebuild now ans r ?s)"
        using assms(1) False same by (intro attempt_rebuild_paced) simp_all
      then have "paced now s (attempt_rebuild now ans r ?s)" by (rule paced_from [OF p(1)])
      moreover obtain s2 out more_calls where "attempt_rebuild now ans r ?s = (s2, out, more_calls)" by (rule prod_cases3)
      ultimately show ?thesis using p(2) by (simp add: r paced_def)
    qed
  qed
qed

lemma pace_update [simp]:
  "pace (push_event e s) = pace s" "pace (forget_health s) = pace s"
  "pace (s\<lparr>sv_state := st\<rparr>) = pace s" "pace (s\<lparr>sv_watchdog := w\<rparr>) = pace s" "pace (s\<lparr>health_confirmed := h\<rparr>) = pace s"
  "pace (s\<lparr>ineffective_recoveries := n\<rparr>) = pace s" "pace (s\<lparr>pending_changes := c\<rparr>) = pace s"
  "pace (s\<lparr>sv_debounce := d\<rparr>) = pace s" "pace (s\<lparr>no_audio_notified := b\<rparr>) = pace s"
  "pace (fst (observe_delivery now a v s)) = pace s" "pace (absorb_changes now s) = pace s"
  by (simp_all add: pace_def push_event_def forget_health_def observe_delivery_def absorb_changes_def take_changes_def Let_def)

lemma begin_recovery_paced_from:
  assumes "sized (sv_config s)" and "episode_attempts s \<le> max_attempts (sv_config s)" and "pace t = pace s"
  shows "paced now s (begin_recovery now ans silent since reason t)"
  using assms pace_cong [OF assms(3)] by (intro paced_from [OF assms(3)] begin_recovery_paced) simp_all

lemma paced_holding:
  assumes "pace s' = pace s" and "episode_attempts s \<le> max_attempts (sv_config s)" and "holds_tap (sv_state s')"
  shows "paced now s (s', out, [])"
  by (rule paced_still [OF assms(1,2)]) (use assms(3) in simp_all)

lemma on_fault_paced:
  assumes "sized (sv_config s)" and "episode_attempts s \<le> max_attempts (sv_config s)" and "holds_tap (sv_state s)"
  shows "paced now s (on_fault now ans quarantined f s)"
  unfolding on_fault_def Let_def
  by (auto intro!: paced_holding [OF _ assms(2)] begin_recovery_paced_from [OF assms(1,2)] simp: assms(3) split: fault.split)

lemma on_device_change_paced:
  assumes "sized (sv_config s)" and "episode_attempts s \<le> max_attempts (sv_config s)" and "holds_tap (sv_state s)"
  shows "paced now s (on_device_change now ans keep s)"
  unfolding on_device_change_def Let_def
  by (auto intro!: paced_holding [OF _ assms(2)] begin_recovery_paced_from [OF assms(1,2)] simp: assms(3))

lemma settle_paced:
  assumes "episode_attempts s \<le> max_attempts (sv_config s)" and "holds_tap (sv_state s)"
  shows "paced now s (settle v s)"
  unfolding settle_def Let_def
  by (auto intro!: paced_holding [OF _ assms(1)] simp: assms(2) split: verdict.split)

text \<open>What earns a new budget: a manual retry, or ten seconds of healthy delivery.\<close>

definition stable_at :: "nat \<Rightarrow> supervisor \<Rightarrow> bool" where
  "stable_at now s \<longleftrightarrow> is_some_and (healthy_since_ns s) (\<lambda>t. STABLE_NS \<le> now - t)"

definition renewed :: "nat \<Rightarrow> supervisor \<Rightarrow> bool" where
  "renewed now s \<longleftrightarrow> retry_requested s \<or> stable_at now s"

definition fresh :: "supervisor \<Rightarrow> supervisor" where
  "fresh s = s\<lparr>episode_attempts := 0\<rparr>"

lemma fresh_simps [simp]:
  "sv_config (fresh s) = sv_config s" "episode_attempts (fresh s) = 0" "due now (fresh s) = due now s"
  "last_attempt_ns (fresh s) = last_attempt_ns s" "sv_state (fresh s) = sv_state s"
  by (simp_all add: fresh_def due_def)

lemma pace_fresh: "pace t = pace s \<Longrightarrow> pace (fresh t) = pace (fresh s)"
  by (simp add: pace_def fresh_def)

lemma pace_confirm: "pace (confirm_delivery q s) = pace (fresh s)"
  by (simp add: confirm_delivery_def pace_def fresh_def push_event_def Let_def)

lemma observe_delivery_sustained:
  assumes "observe_delivery now a v s = (s', True)"
  shows "stable_at now s"
  using assms by (auto simp: observe_delivery_def stable_at_def STABLE_NS_def Let_def split: if_splits option.splits)

lemma poll_watching_paced:
  assumes "sized (sv_config s)" and "episode_attempts s \<le> max_attempts (sv_config s)" and "holds_tap (sv_state s)"
  shows "paced now s (poll_watching now a probe ans quarantined s)
    \<or> stable_at now s \<and> paced now (fresh s) (poll_watching now a probe ans quarantined s)"
proof -
  obtain w v where w: "watchdog_poll now a probe (sv_watchdog s) = (w, v)" by fastforce
  obtain s1 sustained where s1: "observe_delivery now a v (s\<lparr>sv_watchdog := w\<rparr>) = (s1, sustained)" by fastforce
  let ?s = "if sustained then confirm_delivery quarantined s1 else s1"
  let ?base = "if sustained then fresh s else s"
  obtain fire d where d: "debounce_poll now (sv_debounce ?s) = (fire, d)" by fastforce
  let ?t = "?s\<lparr>sv_debounce := d\<rparr>"
  have s1p: "pace s1 = pace s" "holds_tap (sv_state s1)"
    using pace_update(10) [of now a v "s\<lparr>sv_watchdog := w\<rparr>"] state_update(3) [of now a v "s\<lparr>sv_watchdog := w\<rparr>"] s1 assms(3)
    by simp_all
  have p: "pace ?s = pace ?base" "holds_tap (sv_state ?s)"
    using s1p pace_fresh [OF s1p(1)] by (cases sustained; simp add: pace_confirm)+
  then have q: "pace ?t = pace ?base" "holds_tap (sv_state ?t)" by simp_all
  have base: "sized (sv_config ?base)" "episode_attempts ?base \<le> max_attempts (sv_config ?base)" using assms by simp_all
  have "paced now ?base (on_fault now ans quarantined f ?s)" for f
    using base pace_cong [OF p(1)] by (intro paced_from [OF p(1)] on_fault_paced p(2)) simp_all
  moreover have "paced now ?base (on_device_change now ans keep ?t)" for keep
    using base pace_cong [OF q(1)] by (intro paced_from [OF q(1)] on_device_change_paced q(2)) simp_all
  moreover have "paced now ?base (settle v ?t)"
    using base pace_cong [OF q(1)] by (intro paced_from [OF q(1)] settle_paced q(2)) simp_all
  ultimately have watched: "paced now ?base (case v of Faulted f \<Rightarrow> on_fault now ans quarantined f ?s
      | _ \<Rightarrow> if fire then on_device_change now ans (quarantined \<and> \<not> sustained) ?t else settle v ?t)"
    by (cases v) simp_all
  have stable: "stable_at now s" if sustained
    using observe_delivery_sustained [of now a v "s\<lparr>sv_watchdog := w\<rparr>" s1] s1 that by (simp add: stable_at_def)
  show ?thesis
  proof (cases "callback_fault s = NO_CALLBACK_FAULT")
    case True
    then have "poll_watching now a probe ans quarantined s = (case v of Faulted f \<Rightarrow> on_fault now ans quarantined f ?s
        | _ \<Rightarrow> if fire then on_device_change now ans (quarantined \<and> \<not> sustained) ?t else settle v ?t)"
      unfolding poll_watching_def Let_def w s1 prod.case d by (cases v) simp_all
    with watched stable show ?thesis by (cases sustained) simp_all
  next
    case False
    have "paced now s (poll_watching now a probe ans quarantined s)"
      unfolding poll_watching_def Let_def using False assms
      by (auto intro!: paced_holding begin_recovery_paced_from)
    then show ?thesis ..
  qed
qed

lemma due_mono: "due now s \<Longrightarrow> now \<le> later \<Longrightarrow> due later s"
  by (auto simp: due_def intro: order_trans)

lemma absorb_stable [simp]: "stable_at now (absorb_changes t s) = stable_at now s"
  by (simp add: stable_at_def absorb_changes_def take_changes_def Let_def)

lemma poll_state_paced:
  assumes "sized (sv_config s)" and "spaced s"
  shows "paced now s (poll_state now a probe ans s)
    \<or> stable_at now s \<and> paced now (fresh s) (poll_state now a probe ans s)"
proof -
  let ?s = "absorb_changes now s"
  have p: "pace ?s = pace s" "sv_state ?s = sv_state s" by simp_all
  note same = pace_cong [OF p(1)]
  have bound: "episode_attempts s \<le> max_attempts (sv_config s)" using assms(2) by (simp add: spaced_def)
  have watched: "paced now s (poll_watching now a probe ans q ?s)
      \<or> stable_at now s \<and> paced now (fresh s) (poll_watching now a probe ans q ?s)" if "holds_tap (sv_state s)" for q
  proof -
    let ?w = "poll_watching now a probe ans q ?s"
    have "paced now ?s ?w \<or> stable_at now ?s \<and> paced now (fresh ?s) ?w"
      by (rule poll_watching_paced) (use assms(1) bound that same(2,3) p(2) in simp_all)
    then show ?thesis
      using paced_from [OF p(1), of now ?w] paced_from [OF pace_fresh [OF p(1)], of now ?w] by (elim disjE conjE) simp_all
  qed
  show ?thesis
  proof (cases "sv_state s")
    case (Recovering r)
    with assms(2) have r: "due (next_attempt_ns r) s" "episode_attempts s < max_attempts (sv_config s)" by (simp_all add: spaced_def)
    have "paced now s (poll_state now a probe ans s)"
    proof (cases "next_attempt_ns r \<le> now")
      case True
      have "paced now ?s (attempt_rebuild now ans r ?s)"
        using assms(1) r due_mono [OF r(1) True] same by (intro attempt_rebuild_paced) simp_all
      then have "paced now s (attempt_rebuild now ans r ?s)" by (rule paced_from [OF p(1)])
      with True Recovering show ?thesis by (simp add: poll_state_def Let_def)
    next
      case False
      with Recovering show ?thesis
        by (simp add: poll_state_def Let_def) (rule paced_still, use r bound p in simp_all)
    qed
    then show ?thesis ..
  next
    case (Abandoned r)
    then have "paced now s (poll_state now a probe ans s)"
      by (simp add: poll_state_def Let_def) (rule paced_still, use bound p in simp_all)
    then show ?thesis ..
  next
    case Idle
    then have "paced now s (poll_state now a probe ans s)"
      by (simp add: poll_state_def Let_def) (rule paced_still, use bound p in simp_all)
    then show ?thesis ..
  qed (use watched in \<open>simp_all add: poll_state_def Let_def\<close>)
qed

lemma spaced_fresh: "sized (sv_config s) \<Longrightarrow> spaced s \<Longrightarrow> spaced (fresh s)"
  by (simp add: spaced_def sized_def)

lemma poll_paced:
  assumes "sized (sv_config s)" and "spaced s"
  shows "paced now s (poll now a probe ans s) \<or> renewed now s \<and> paced now (fresh s) (poll now a probe ans s)"
proof -
  have bound: "episode_attempts s \<le> max_attempts (sv_config s)" using assms(2) by (simp add: spaced_def)
  consider "sv_state s = Idle \<or> cleanup_blocked s \<noteq> None" | "\<not> retry_requested s" "sv_state s \<noteq> Idle" "cleanup_blocked s = None"
    | "retry_requested s" "sv_state s \<noteq> Idle" "cleanup_blocked s = None" by blast
  then show ?thesis
  proof cases
    case 1
    then have "poll now a probe ans s = (s, if sv_state s = Idle then PollStopped else PollAbandoned, [])" by (auto simp: poll_def)
    moreover have "paced now s (s, if sv_state s = Idle then PollStopped else PollAbandoned, [])"
      by (rule paced_still) (use bound assms(2) in \<open>simp_all add: spaced_def\<close>)
    ultimately show ?thesis by simp
  next
    case 2
    then show ?thesis using poll_state_paced [OF assms, of now a probe ans] by (auto simp: poll_def renewed_def)
  next
    case 3
    let ?s = "resume_retry s"
    have p: "pace ?s = pace (fresh s)" "sv_state ?s = sv_state s" by (simp_all add: resume_retry_def pace_def fresh_def)
    note same = pace_cong [OF p(1)]
    have ok: "sized (sv_config ?s)" "spaced ?s"
      using assms same p(2) by (auto simp: spaced_def sized_def)
    have cases: "paced now (fresh s) (poll_state now a probe ans t)" if "pace t = pace ?s" "spaced t" for t
    proof -
      have t: "pace t = pace (fresh s)" "pace (fresh t) = pace (fresh s)" using that(1) p(1) by (auto simp: pace_def fresh_def)
      have "sized (sv_config t)" using ok(1) pace_cong(2) [OF that(1)] by simp
      from poll_state_paced [OF this that(2), of now a probe ans] show ?thesis
        using paced_from [OF t(1)] paced_from [OF t(2)] by blast
    qed
    have "paced now (fresh s) (poll now a probe ans s)"
    proof (cases "sv_state s")
      case (Abandoned r)
      let ?t = "?s\<lparr>sv_state := Recovering (r\<lparr>next_attempt_ns := next_attempt_at now ?s\<rparr>)\<rparr>"
      have "pace ?t = pace ?s" by simp
      moreover have "spaced ?t"
        using next_attempt_due(1) [of now ?s] ok(1) same pace_cong(1) [OF \<open>pace ?t = pace ?s\<close>] by (simp add: spaced_def sized_def)
      ultimately show ?thesis using 3 Abandoned cases by (simp add: poll_def Let_def)
    next
      case Quarantined
      then show ?thesis using 3 ok same
        by (auto simp: poll_def Let_def intro!: paced_from [OF p(1)] begin_recovery_paced)
    qed (use 3 cases [OF refl ok(2)] in \<open>simp_all add: poll_def Let_def\<close>)
    with 3 show ?thesis by (simp add: renewed_def)
  qed
qed

text \<open>The operations of one recording session, and a clock that does not run backwards within a start.\<close>

fun in_session :: "supervisor_op \<Rightarrow> bool" where
  "in_session (Start now ans) = False"
| "in_session (StartRecovering started_at now ans) = False"
| "in_session (Stop now ans) = False"
| "in_session (TakeTap now) = False"
| "in_session _ = True"

fun clocked :: "supervisor_op \<Rightarrow> bool" where
  "clocked (StartRecovering started_at now ans) = (started_at \<le> now)"
| "clocked _ = True"

text \<open>When a session opened a device, and how often its budget was renewed.\<close>

fun attempts :: "supervisor \<Rightarrow> supervisor_op list \<Rightarrow> nat list" where
  "attempts s [] = []"
| "attempts s (Poll now a probe ans # ops) =
     (case supervise s (Poll now a probe ans) of (s', calls) \<Rightarrow>
        (if CallOpen \<in> set calls then now # attempts s' ops else attempts s' ops))"
| "attempts s (x # ops) = attempts (fst (supervise s x)) ops"

fun renewals :: "supervisor \<Rightarrow> supervisor_op list \<Rightarrow> nat" where
  "renewals s [] = 0"
| "renewals s (Poll now a probe ans # ops) =
     (if renewed now s then 1 else 0) + renewals (fst (supervise s (Poll now a probe ans))) ops"
| "renewals s (x # ops) = renewals (fst (supervise s x)) ops"

lemma spaced_cong:
  assumes "pace t = pace s" and "sv_state t = sv_state s"
  shows "spaced t = spaced s"
  using pace_cong [OF assms(1)] assms(2) by (simp add: spaced_def)

lemma spaced_idle: "pace t = pace s \<Longrightarrow> sv_state t = Idle \<Longrightarrow> spaced s \<Longrightarrow> spaced t"
  using pace_cong [of t s] by (simp add: spaced_def)

definition polls :: "supervisor_op \<Rightarrow> bool" where
  "polls x \<longleftrightarrow> (case x of Poll now a probe ans \<Rightarrow> True | _ \<Rightarrow> False)"

lemma session_step:
  assumes "in_session x" and "\<not> polls x"
  shows "pace (fst (supervise s x)) = pace s" "sv_state (fst (supervise s x)) = sv_state s"
    "attempts s (x # ops) = attempts (fst (supervise s x)) ops" "renewals s (x # ops) = renewals (fst (supervise s x)) ops"
  using assms
  by (cases x; simp add: polls_def request_retry_def drain_events_def on_error_def record_fault_def pace_def)+

text \<open>
  The budget is a potential: what a step adds to the count of attempts it takes from the attempts left, unless
  the budget was renewed.
\<close>

definition within_budget :: "supervisor \<Rightarrow> supervisor_op list \<Rightarrow> bool" where
  "within_budget s ops \<longleftrightarrow>
     length (attempts s ops) + episode_attempts s \<le> max_attempts (sv_config s) * (renewals s ops + 1)
     \<and> successively (\<lambda>a b. sat_add64 a (interval_ns s) \<le> b) (attempts s ops)
     \<and> (attempts s ops \<noteq> [] \<longrightarrow> due (hd (attempts s ops)) s)"

lemma within_budget_poll:
  assumes step: "paced now s (s', out, calls) \<or> renewed now s \<and> paced now (fresh s) (s', out, calls)"
    and p: "poll now a probe ans s = (s', out, calls)" and "spaced s" and rest: "within_budget s' ops"
  shows "within_budget s (Poll now a probe ans # ops)"
proof -
  have c: "sv_config s' = sv_config s" using step by (auto simp: paced_def)
  have bound: "episode_attempts s \<le> max_attempts (sv_config s)" using assms(3) by (simp add: spaced_def)
  have count: "episode_attempts s + (if CallOpen \<in> set calls then 1 else 0)
      \<le> episode_attempts s' + (if renewed now s then max_attempts (sv_config s) else 0)"
    using step bound by (auto simp: paced_def)
  show ?thesis
  proof (cases "CallOpen \<in> set calls")
    case True
    then have "due now s" "last_attempt_ns s' = Some now" using step by (auto simp: paced_def)
    with True count rest p c show ?thesis
      by (auto simp: within_budget_def due_def successively_Cons)
  next
    case False
    then have "last_attempt_ns s' = last_attempt_ns s" using step by (auto simp: paced_def)
    with False count rest p c show ?thesis
      by (auto simp: within_budget_def due_def)
  qed
qed

lemma within_budget_run:
  "sized (sv_config s) \<Longrightarrow> spaced s \<Longrightarrow> list_all in_session ops \<Longrightarrow> within_budget s ops"
proof (induction ops arbitrary: s)
  case Nil
  then show ?case by (simp add: within_budget_def spaced_def)
next
  case (Cons x ops)
  show ?case
  proof (cases "polls x")
    case True
    then obtain now a probe ans where x: "x = Poll now a probe ans" by (auto simp: polls_def split: supervisor_op.splits)
    obtain s' out calls where p: "poll now a probe ans s = (s', out, calls)" by (rule prod_cases3)
    have step: "paced now s (s', out, calls) \<or> renewed now s \<and> paced now (fresh s) (s', out, calls)"
      using poll_paced [OF Cons(2,3), of now a probe ans] by (simp only: p)
    then have "sv_config s' = sv_config s" "spaced s'" by (auto simp: paced_def)
    with Cons have "within_budget s' ops" by simp
    with step p Cons(3) show ?thesis unfolding x by (intro within_budget_poll)
  next
    case False
    let ?s = "fst (supervise s x)"
    have same: "pace ?s = pace s" "sv_state ?s = sv_state s"
      "attempts s (x # ops) = attempts ?s ops" "renewals s (x # ops) = renewals ?s ops"
      using Cons(4) False by (simp_all add: session_step)
    have "within_budget ?s ops"
      using Cons pace_cong [OF same(1)] spaced_cong [OF same(1,2)] by simp
    then show ?thesis using same(3,4) pace_cong [OF same(1)] by (simp add: within_budget_def)
  qed
qed

definition pacing_inv :: "supervisor_config \<Rightarrow> supervisor \<Rightarrow> bool" where
  "pacing_inv cfg s \<longleftrightarrow> sv_config s = cfg \<and> sized cfg \<and> spaced s"

lemma start_pacing:
  assumes "pacing_inv cfg s" and "start now ans s = (s', r, calls)"
  shows "pacing_inv cfg s'"
  using assms
  by (auto simp: pacing_inv_def start_def start_observed_def observing_sink_def adopt_tap_def forget_health_def Let_def
      spaced_def due_def split: option.splits sum.splits if_splits)

lemma start_failed_pacing:
  assumes "pacing_inv cfg s" and "started_at \<le> now"
  shows "pacing_inv cfg (start_failed started_at now e s)"
proof -
  let ?s = "start_failed started_at now e s"
  have c: "sv_config ?s = sv_config s" "episode_attempts ?s = 1" "last_attempt_ns ?s = Some started_at"
    by (simp_all add: start_failed_def forget_health_def retire_callbacks_def push_event_def Let_def)
  have "next_attempt_ns r = sat_add64 now (as_nanos (max (backoff (sv_config s) 1) (min_rebuild_interval (sv_config s))))
      \<and> 1 < max_attempts (sv_config s)" if "sv_state ?s = Recovering r" for r
    using that by (auto simp: start_failed_def forget_health_def retire_callbacks_def push_event_def Let_def split: if_splits)
  then show ?thesis
    using assms(1) sat_add64_mono [OF assms(2) retry_wait [of "sv_config s" 1]]
    by (auto simp: pacing_inv_def spaced_def due_def c sized_def)
qed

lemma start_recovering_pacing:
  assumes "pacing_inv cfg s" and "started_at \<le> now"
  shows "pacing_inv cfg (fst (start_recovering started_at now ans s))"
proof (cases "sv_state s = Idle")
  case True
  obtain s' r calls where st: "start now ans s = (s', r, calls)" by (rule prod_cases3)
  show ?thesis
    using start_pacing [OF assms(1) st] start_failed_pacing [OF _ assms(2)] True st
    by (cases r) (simp_all add: start_recovering_def)
qed (simp add: start_recovering_def assms(1))

lemma pacing_step:
  assumes "pacing_inv cfg s" and "clocked x"
  shows "pacing_inv cfg (fst (supervise s x))"
proof -
  have other: ?thesis if "in_session x" "\<not> polls x"
    using session_step(1,2) [OF that, of s] spaced_cong [of "fst (supervise s x)" s] pace_cong(2) [of "fst (supervise s x)" s] assms(1)
    by (simp add: pacing_inv_def)
  show ?thesis
  proof (cases x)
    case (Start now ans)
    then show ?thesis using start_pacing [OF assms(1)] by (cases "start now ans s") auto
  next
    case (StartRecovering started_at now ans)
    then show ?thesis using start_recovering_pacing [OF assms(1)] assms(2)
      by (simp add: case_prod_unfold)
  next
    case (Stop now ans)
    obtain s' r calls where st: "stop_tap ans (retire_callbacks s) = (s', r, calls)" by (rule prod_cases3)
    have "pace (go_idle s') = pace s" "sv_state (go_idle s') = Idle" using stop_tap_pace(1) [OF st] by (simp_all add: go_idle_def pace_def)
    with Stop st assms(1) show ?thesis
      using spaced_idle [of "go_idle s'" s] pace_cong(2) [of "go_idle s'" s] by (simp add: pacing_inv_def stop_def)
  next
    case (TakeTap now)
    let ?s = "fst (take_running_tap s)"
    have "pace ?s = pace s" "sv_state ?s = Idle"
      by (simp_all add: take_running_tap_def go_idle_def retire_callbacks_def pace_def Let_def)
    with TakeTap assms(1) show ?thesis
      using spaced_idle [of ?s s] pace_cong(2) [of ?s s] by (simp add: pacing_inv_def)
  next
    case (Poll now a probe ans)
    obtain s' out calls where p: "poll now a probe ans s = (s', out, calls)" by (rule prod_cases3)
    have "paced now s (s', out, calls) \<or> renewed now s \<and> paced now (fresh s) (s', out, calls)"
      using poll_paced [of s now a probe ans] assms(1) by (simp add: p pacing_inv_def)
    then have "sv_config s' = sv_config s" "spaced s'" by (auto simp: paced_def)
    with Poll p assms(1) show ?thesis by (simp add: pacing_inv_def)
  qed (rule other; simp add: polls_def)+
qed

lemma pacing_run: "pacing_inv cfg s \<Longrightarrow> list_all clocked ops \<Longrightarrow> pacing_inv cfg (run_state supervise s ops)"
  by (induction ops arbitrary: s) (simp_all add: pacing_step)

lemma pacing_new: "sized cfg \<Longrightarrow> pacing_inv cfg (supervisor_new cfg)"
  by (simp add: pacing_inv_def supervisor_new_def spaced_def)

text \<open>
  C12. Recovery is paced and bounded. After any history, and however a session then interleaves polls,
  device notifications, callback faults (late ones included) and manual retries, the times at which it opens a
  device lie at least the rebuild interval apart, the first of them also from the last attempt before; and the session opens at most \<open>max_attempts\<close>
  devices per budget, less what the current episode has used, where a budget is renewed only by a manual
  retry or by ten seconds of healthy delivery.
\<close>

theorem recovery_paced_and_bounded:
  assumes "sized cfg" and "list_all clocked history" and "list_all in_session ops"
    and "s = run_state supervise (supervisor_new cfg) history"
  shows "successively (\<lambda>a b. sat_add64 a (as_nanos (min_rebuild_interval cfg)) \<le> b)
      ((case last_attempt_ns s of None \<Rightarrow> [] | Some a \<Rightarrow> [a]) @ attempts s ops)
    \<and> length (attempts s ops) + episode_attempts s \<le> max_attempts cfg * (renewals s ops + 1)"
proof -
  have "pacing_inv cfg s" unfolding assms(4) by (rule pacing_run [OF pacing_new [OF assms(1)] assms(2)])
  then have "within_budget s ops" by (simp add: pacing_inv_def within_budget_run assms(3))
  with \<open>pacing_inv cfg s\<close> show ?thesis
    by (auto simp: pacing_inv_def within_budget_def due_def successively_Cons split: option.split)
qed

definition refusing_answers :: device_answers where
  "refusing_answers = \<lparr>an_open = Inl (Platform ''busy''), an_start = Inl NotRunning, an_stop = Inr ()\<rparr>"

lemma absorb_quiet: "sv_signal s = change_signal_new \<Longrightarrow> absorb_changes now s = s"
  by (simp add: absorb_changes_def take_changes_def change_signal_new_def)

lemmas recovery_eval = on_error_def callback_admits_def record_fault_def callback_fault_def NO_CALLBACK_FAULT_def u64_max_def
  absorb_quiet poll_def poll_state_def poll_watching_def begin_recovery_def stop_tap_def next_attempt_at_def as_nanos_def sat_add64_def
  attempt_rebuild_def open_replacement_def rebuild_failed_def backoff_def sat_add32_def

definition lost_device :: "supervisor_op list" where
  "lost_device = [Start 0 (sample_answers (Inr ())), CallbackError 7 1 StreamFormatChanged]"

definition refused_twice :: "supervisor_op list" where
  "refused_twice = (let a = \<lparr>ta_buffers = 0, ta_silent = 0, ta_frames = 0\<rparr>
     in [Poll 20 a OutputUnknown refusing_answers, Poll 30 a OutputUnknown refusing_answers, Poll 40 a OutputUnknown refusing_answers])"

theorem recovery_paced_and_bounded_witness:
  "let s = run_state supervise (supervisor_new sample_config) lost_device
   in attempts s refused_twice = [20, 40] \<and> successively (\<lambda>a b. sat_add64 a 15 \<le> b) (attempts s refused_twice)
     \<and> length (attempts s refused_twice) \<le> max_attempts sample_config * (renewals s refused_twice + 1)"
proof -
  let ?s = "run_state supervise (supervisor_new sample_config) lost_device"
  have cfg: "sized sample_config" "as_nanos (min_rebuild_interval sample_config) = 15"
    by (simp_all add: sized_def sample_config_def supervisor_config_default_def as_nanos_def u64_max_def)
  have s: "last_attempt_ns ?s = None" "episode_attempts ?s = 0" "attempts ?s refused_twice = [20, 40]"
    by (simp_all add: supervise_eval recovery_eval sample_answers_def refusing_answers_def sample_config_def
        supervisor_config_default_def lost_device_def refused_twice_def)
  have "list_all clocked lost_device" "list_all in_session refused_twice"
    by (simp_all add: lost_device_def refused_twice_def Let_def)
  from recovery_paced_and_bounded [OF cfg(1) this refl] show ?thesis
    by (simp add: s cfg(2))
qed

section \<open>An outage is reported in full\<close>

text \<open>What a recovery in progress, or one given up, still has to report.\<close>

definition outage :: "supervisor \<Rightarrow> (nat \<times> capture_gap option \<times> gap_reason) option" where
  "outage s = (case sv_state s of Recovering r \<Rightarrow> Some (unwritten_start_ns r, silent_gap r, rc_reason r)
     | Abandoned r \<Rightarrow> Some (unwritten_start_ns r, silent_gap r, rc_reason r) | _ \<Rightarrow> None)"

text \<open>The gaps a listener is owed when sound returns at \<open>now\<close>.\<close>

fun owed_gaps :: "nat \<Rightarrow> nat \<times> capture_gap option \<times> gap_reason \<Rightarrow> capture_gap list" where
  "owed_gaps now (since, silent, reason) =
     (case silent of None \<Rightarrow> [] | Some g \<Rightarrow> [g])
     @ [\<lparr>gap_start_ns = since, gap_end_ns = now, gap_kind = Unwritten, gap_reason = reason\<rparr>]"

definition reports :: "supervisor \<Rightarrow> supervisor \<Rightarrow> capture_gap list \<Rightarrow> bool" where
  "reports s s' gaps \<longleftrightarrow> outage s' = None \<and> (\<exists>n fmt. events s' = events s @ [Recovered (tap_id (sv_config s)) n fmt gaps])"

lemma attempt_rebuild_outage:
  assumes "attempt_rebuild now ans r s = (s', out, calls)"
  shows "outage s' = Some (unwritten_start_ns r, silent_gap r, rc_reason r)
    \<or> reports s s' (owed_gaps now (unwritten_start_ns r, silent_gap r, rc_reason r))"
  using assms
  by (auto simp: attempt_rebuild_def open_replacement_def start_observed_def observing_sink_def rebuild_failed_def rebuilt_def
      adopt_tap_def forget_health_def retire_callbacks_def recovery_gaps_def push_event_def outage_def reports_def Let_def
      split: sum.splits prod.splits if_splits)

lemma outage_cong:
  assumes "sv_state t = sv_state s"
  shows "outage t = outage s"
  using assms by (simp add: outage_def)

lemma poll_state_outage:
  assumes "poll_state now a probe ans s = (s', out, calls)" and "outage s = Some og"
  shows "outage s' = Some og \<or> reports s s' (owed_gaps now og)"
proof -
  have e: "events (absorb_changes now s) = events s" "sv_config (absorb_changes now s) = sv_config s"
    by (simp_all add: absorb_changes_def take_changes_def Let_def)
  show ?thesis
  proof (cases "sv_state s")
    case (Recovering r)
    then show ?thesis
      using assms attempt_rebuild_outage [of now ans r "absorb_changes now s"]
      by (auto simp: poll_state_def Let_def outage_def reports_def e split: if_splits)
  qed (use assms in \<open>auto simp: poll_state_def outage_def Let_def\<close>)
qed

lemma outage_step:
  assumes "outage s = Some og" and "in_session x"
  shows "outage (fst (supervise s x)) = Some og
    \<or> (\<exists>now a probe ans. x = Poll now a probe ans \<and> reports s (fst (supervise s x)) (owed_gaps now og))"
proof (cases "polls x")
  case True
  then obtain now a probe ans where x: "x = Poll now a probe ans" by (auto simp: polls_def split: supervisor_op.splits)
  obtain s' out calls where p: "poll now a probe ans s = (s', out, calls)" by (rule prod_cases3)
  have live: "\<not> holds_tap (sv_state s)" "sv_state s \<noteq> Idle" using assms(1) by (auto simp: outage_def split: capture_state.splits)
  have "outage s' = Some og \<or> reports s s' (owed_gaps now og)"
  proof (cases "cleanup_blocked s \<noteq> None \<or> \<not> retry_requested s")
    case True
    then have "poll now a probe ans s = (s, PollAbandoned, []) \<or> poll now a probe ans s = poll_state now a probe ans s"
      unfolding poll_def using live(2) by (simp only: if_False if_True) argo
    with p show ?thesis using poll_state_outage [OF _ assms(1), of now a probe ans s' out calls] assms(1) by (elim disjE) simp_all
  next
    case False
    let ?t = "case sv_state s of Abandoned r \<Rightarrow> (resume_retry s)\<lparr>sv_state := Recovering (r\<lparr>next_attempt_ns := next_attempt_at now (resume_retry s)\<rparr>)\<rparr>
      | _ \<Rightarrow> resume_retry s"
    have t: "sv_state (resume_retry s) = sv_state s" by (simp add: resume_retry_def)
    have "poll_state now a probe ans ?t = (s', out, calls)"
      using False p live t by (cases "sv_state s") (simp_all add: poll_def Let_def)
    moreover have "outage ?t = Some og" "events ?t = events s" "sv_config ?t = sv_config s"
      using assms(1) t by (cases "sv_state s"; simp add: outage_def resume_retry_def)+
    ultimately show ?thesis using poll_state_outage [of now a probe ans ?t s' out calls og] by (simp add: reports_def)
  qed
  with x p show ?thesis by simp
next
  case False
  then have "outage (fst (supervise s x)) = outage s" using assms(2) by (intro outage_cong session_step(2))
  with assms(1) show ?thesis by simp
qed

text \<open>
  C13. Between the fault and the recovered event nothing of an outage is lost. From a state in which a recovery is
  pending or was given up, after any further operations of the session, manual retries included, either the
  outage is still owed unchanged, or one of the polls reported it: the first event that poll added is the recovery,
  and its gaps are the silent stretch, if there was one, and the hole from its first moment to that poll.
\<close>

theorem outage_reported_in_full:
  assumes "outage s = Some og" and "list_all in_session ops"
  shows "outage (run_state supervise s ops) = Some og
    \<or> (\<exists>before now a probe ans after. ops = before @ Poll now a probe ans # after
        \<and> outage (run_state supervise s before) = Some og
        \<and> reports (run_state supervise s before) (run_state supervise s (before @ [Poll now a probe ans])) (owed_gaps now og))"
  using assms
proof (induction ops arbitrary: s)
  case (Cons x ops)
  let ?s = "fst (supervise s x)"
  from Cons(3) consider "outage ?s = Some og" | now a probe ans where "x = Poll now a probe ans" "reports s ?s (owed_gaps now og)"
    using outage_step [OF Cons(2), of x] by auto
  then show ?case
  proof cases
    case 1
    from Cons(1) [OF 1] Cons(3) consider "outage (run_state supervise ?s ops) = Some og"
      | before now a probe ans after where "ops = before @ Poll now a probe ans # after"
          "outage (run_state supervise ?s before) = Some og"
          "reports (run_state supervise ?s before) (run_state supervise ?s (before @ [Poll now a probe ans])) (owed_gaps now og)"
      by (auto simp del: supervise.simps run_state.simps run_state_append)
    then show ?thesis
    proof cases
      case (2 before now a probe ans after)
      then show ?thesis
        by (intro disjI2 exI [of _ "x # before"] exI [of _ now] exI [of _ a] exI [of _ probe] exI [of _ ans] exI [of _ after])
          (simp del: supervise.simps)
    qed simp
  next
    case (2 now a probe ans)
    with Cons(2) show ?thesis
      by (intro disjI2 exI [of _ "[]"] exI [of _ now] exI [of _ a] exI [of _ probe] exI [of _ ans] exI [of _ ops])
        (simp del: supervise.simps)
  qed
qed simp

theorem outage_reported_in_full_witness:
  "let s = run_state supervise (supervisor_new sample_config) (lost_device @ [hd refused_twice]);
       x = Poll 40 \<lparr>ta_buffers = 0, ta_silent = 0, ta_frames = 0\<rparr> OutputUnknown (sample_answers (Inr ()))
   in outage s = Some (7, None, CallbackFault) \<and> outage (fst (supervise s x)) = None
     \<and> reports s (fst (supervise s x)) [\<lparr>gap_start_ns = 7, gap_end_ns = 40, gap_kind = Unwritten, gap_reason = CallbackFault\<rparr>]"
proof -
  let ?s = "run_state supervise (supervisor_new sample_config) (lost_device @ [hd refused_twice])"
    and ?x = "Poll 40 \<lparr>ta_buffers = 0, ta_silent = 0, ta_frames = 0\<rparr> OutputUnknown (sample_answers (Inr ()))"
  have s: "outage ?s = Some (7, None, CallbackFault)" "outage (fst (supervise ?s ?x)) = None"
    by (simp_all add: supervise_eval recovery_eval sample_answers_def refusing_answers_def sample_config_def
        supervisor_config_default_def lost_device_def refused_twice_def outage_def rebuilt_def)
  with outage_reported_in_full [OF s(1), of "[?x]"] show ?thesis
    by (auto simp: Cons_eq_append_conv simp del: supervise.simps)
qed

text \<open>
  C15. A manual retry of a quarantined tap forgets the hole. A tap that starved until its budget was spent stays in
  place but delivers nothing. When the user then asks for a retry, the recovery reports
  a gap that starts at the retry, so nothing is padded for the time the tap delivered no buffer before it, however long that
  was.
\<close>

theorem quarantine_retry_forgets_outage:
  assumes "sv_state s = Quarantined" and "retry_requested s" and "cleanup_blocked s = None"
    and "callback_fault s = NO_CALLBACK_FAULT" and "0 < max_attempts (sv_config s)" and "due now s"
    and "an_stop ans = Inr ()" and "an_open ans = Inr ()" and "an_start ans = Inr fmt"
  shows "\<exists>gap. reports s (fst (poll now a probe ans s)) [gap] \<and> gap_start_ns gap = now \<and> samples_to_pad gap fmt = 0"
proof -
  have "next_attempt_at now (s\<lparr>sv_state := st\<rparr>) = now" for st
    using assms(6) by (auto simp: next_attempt_at_def due_def split: option.split)
  with assms show ?thesis
    by (auto simp: poll_def resume_retry_def begin_recovery_def stop_tap_def retire_callbacks_def callback_fault_def
        attempt_rebuild_def open_replacement_def start_observed_def observing_sink_def rebuilt_def adopt_tap_def forget_health_def
        recovery_gaps_def push_event_def next_attempt_at_def reports_def outage_def samples_to_pad_def frames_to_pad_def duration_ns_def
        sat_mul64_def due_def sat_add32_def Let_def split: option.splits)
qed

definition starved_quarantined :: "supervisor_op list" where
  "starved_quarantined = (let a = \<lparr>ta_buffers = 0, ta_silent = 0, ta_frames = 0\<rparr>; ans = sample_answers (Inr ())
     in [Start 0 ans, Poll 6 a OutputUnknown ans, Poll 22 a OutputUnknown ans, RequestRetry 30])"

lemmas starvation_eval = watchdog_poll_def arm_def watchdog_new_def note_progress_def starvation_verdict_def
  observe_delivery_def on_fault_def rebuilt_def recovery_gaps_def request_retry_def

theorem quarantine_retry_forgets_outage_witness:
  "let s = run_state supervise (supervisor_new (sample_config\<lparr>max_attempts := 1\<rparr>)) starved_quarantined;
       ans = sample_answers (Inr ()); fmt = \<lparr>sample_rate_hz = 48000, channels = 2, sample = F32\<rparr>
   in StallDetected ''system:default'' (NoBuffers 6 16) \<in> set (events s)
     \<and> (\<exists>gap. reports s (fst (poll 1000000000 \<lparr>ta_buffers = 0, ta_silent = 0, ta_frames = 0\<rparr> OutputUnknown ans s)) [gap] \<and> gap_start_ns gap = 1000000000 \<and> samples_to_pad gap fmt = 0)"
proof -
  let ?s = "run_state supervise (supervisor_new (sample_config\<lparr>max_attempts := 1\<rparr>)) starved_quarantined"
    and ?ans = "sample_answers (Inr ())" and ?fmt = "\<lparr>sample_rate_hz = 48000, channels = 2, sample = F32\<rparr>"
  have "\<exists>s. ?s = s \<and> sv_state s = Quarantined \<and> retry_requested s \<and> cleanup_blocked s = None
      \<and> callback_fault s = NO_CALLBACK_FAULT \<and> 0 < max_attempts (sv_config s) \<and> due 1000000000 s
      \<and> StallDetected ''system:default'' (NoBuffers 6 16) \<in> set (events s)"
    by (simp add: supervise_eval recovery_eval starvation_eval sample_answers_def refusing_answers_def sample_config_def
        supervisor_config_default_def starved_quarantined_def due_def)
  then have s: "sv_state ?s = Quarantined" "retry_requested ?s" "cleanup_blocked ?s = None" "callback_fault ?s = NO_CALLBACK_FAULT"
      "0 < max_attempts (sv_config ?s)" "due 1000000000 ?s" "StallDetected ''system:default'' (NoBuffers 6 16) \<in> set (events ?s)"
    by blast+
  have "an_stop ?ans = Inr ()" "an_open ?ans = Inr ()" "an_start ?ans = Inr ?fmt" by (simp_all add: sample_answers_def)
  from quarantine_retry_forgets_outage [OF s(1-6) this] s(7) show ?thesis by (simp only: Let_def)
qed

end
