(* ===== verification/Spec2Isabelle.thy ===== *)
theory Spec2Isabelle
  imports Frame Shell_Runtime Retry Handoff Replay Reconnect Coverage Capture_Ring Summary_Pipeline Supervisor
begin

text \<open>
  Verification of FlyOnTheWall, a program that records meetings on the machine of a participant, transcribes
  them with a cloud provider or a local engine, and writes a cited summary.

  \<^bold>\<open>The program and its parts.\<close> A menu-bar shell decides when a recording may start and shows that it runs
  (\<^verbatim>\<open>crates/fotw-shell\<close>). A supervisor keeps the audio tap of each source alive (\<^verbatim>\<open>crates/fotw-audio\<close>); its
  callback hands samples to a pump through a lock-free ring, and the pump writes the canonical audio of the source
  to disk (\<^verbatim>\<open>crates/fotw-pipeline\<close>). A transcription stream sends that audio to the provider, reconnects,
  numbers what comes back and commits it (\<^verbatim>\<open>crates/fotw-stt\<close>); a policy decides when to leave the cloud for the
  local engine, which lives in a helper process behind framed pipes (\<^verbatim>\<open>crates/fotw-speechd-client\<close>), and a journal
  records which audio has been transcribed (\<^verbatim>\<open>crates/fotwd/src/failover\<close>). After the meeting the transcript is
  cut into chunks, two calls per chunk ask a model for prose and for an extraction, and nothing that the transcript
  does not support is kept (\<^verbatim>\<open>crates/fotw-summarize\<close>).

  \<^bold>\<open>Conventions.\<close> A struct is a record, an enum a datatype, one function or method one definition, named as in
  the source unless the name is taken; where a function is long, its parts are definitions of their own, called in its order. Fallible code returns \<open>outcome\<close> (Prelude) or a sum with the error on the
  left. Unsigned 64-bit numbers are natural numbers with \<open>sat_add64\<close>, \<open>checked_add64\<close>, \<open>wrapping_add64\<close> and
  \<open>wrapping_sub64\<close> written where the code saturates, checks or wraps; bit sets, PCM samples and hash words are words of their
  width. Strings are their UTF-8 bytes. The clock, what a disk operation did, what a device or a host answered and
  what a reader returned are arguments of the step that meets them, with nothing assumed of them beyond the named
  hypotheses of a theorem. Runs are sequences of steps: \<open>run_state\<close>, \<open>run_log\<close> and \<open>reachable\<close>, with the interface
  \<open>machine\<close> (Prelude) that each stateful component implements and from which its invariants hold in all reachable states.

  \<^bold>\<open>Shell.\<close> Shell_View holds clock, prompt and view values (\<^verbatim>\<open>clock.rs\<close>, \<^verbatim>\<open>prompt.rs\<close>, \<^verbatim>\<open>view.rs\<close>); Shell_Core the state
  machine (\<open>handle\<close> is \<^verbatim>\<open>ShellCore::handle\<close> of \<^verbatim>\<open>state.rs\<close>); Hotkey the chords and their table (\<^verbatim>\<open>hotkey.rs\<close>); Shell_Runtime
  the dispatcher (\<^verbatim>\<open>runtime.rs\<close>) over any host. Shown: capture starts only by a person's action with its audit record
  directly before it, in the state machine and in the calls the host sees; the indicator is up whenever capture
  is live; a blocking warning cannot be passed unacknowledged; the prompt offers its start button exactly when it would
  start; live capture means the host was asked to start and not to stop; chords and actions stay in bijection. The
  effect loop of the source stops after 64 effects; it is shown never to reach that guard.

  \<^bold>\<open>Capture.\<close> Capture_Watch holds the mailbox of device changes, the debounce (\<^verbatim>\<open>device_change.rs\<close>) and the stall
  watchdog (\<^verbatim>\<open>watchdog.rs\<close>); Supervisor the life of one tap (\<^verbatim>\<open>supervisor.rs\<close>, \<^verbatim>\<open>error.rs\<close>), with \<open>supervise\<close> as the step
  function over starts, stops, polls, retries, notifications, and callbacks that may be admitted before their
  tap is retired and write after it. Shown: a verdict of the watchdog corresponds to a stretch of observations;
  no device is opened while another is held or not known to be released, and frames pass only from the tap that is held;
  attempts lie the configured interval apart and are bounded by the budget, which only a manual retry or ten
  seconds of delivery renew; a pending outage is reported in full by the poll that ends it. One property records a defect: a
  manual retry of a quarantined tap reports a gap that starts at the retry. The bounds of the configuration (\<open>sized\<close>) are
  those of its types and exclude waits longer than 64 bits of nanoseconds. Capture_Ring is the ring (\<^verbatim>\<open>ring.rs\<close>): the
  clock mailbox is a program of atomic accesses interleaved with its reader under sequential
  consistency, and a read is never torn while fewer than \<open>2 ^ 63\<close> callbacks are published, because the sequence number of
  the code wraps only after that; every callback is taken whole or counted as dropped; a replacement
  consumer reads the ring of the latest producer.

  \<^bold>\<open>Audio on disk.\<close> Octets holds bytes, samples and partial writes. Replay is the canonical audio of a source with
  its writer, readers and marker files (\<^verbatim>\<open>fotw-pipeline/src/replay.rs\<close>); Coverage the journal (\<^verbatim>\<open>failover/coverage.rs\<close>) over a disk that
  distinguishes what was written from what was synced. Shown: audio survives a crash that cuts the file; a source
  reported complete is byte for byte what was marked; committed intervals tile the audio, are published once, and are all found again after
  a crash; after a failed write the journal stays as it is. The JSON codec is a parameter, required to read back what it
  writes and to write no line break; a witness instantiates it.

  \<^bold>\<open>Transcription.\<close> Transcript holds segments, revisions, the store, speaker labels and clocks; Reconnect the ring of
  sent audio and the deduplication after a reconnect (\<^verbatim>\<open>replay.rs\<close>, \<^verbatim>\<open>dedupe.rs\<close>, \<^verbatim>\<open>deepgram_stream.rs\<close>); Retry both budgets and the
  schedule of delays (\<^verbatim>\<open>backoff.rs\<close>, \<^verbatim>\<open>restart.rs\<close>); Handoff the policy (\<^verbatim>\<open>failover/policy.rs\<close>) with the error taxonomy; Frame the
  framed pipe (\<^verbatim>\<open>frame.rs\<close>). Shown: the store keeps the newest revision and no emission is stale; times after a reconnect point at the audio that was sent; words heard
  again are committed once; budgets hold in every window; silence never leaves the cloud and an outage always does; frames are read back
  however the stream is cut, and the reader refines a parser of contiguous bytes.

  \<^bold>\<open>Summaries.\<close> Utf8 holds what the code uses of strings. Summary_Plan holds documents, budgets and chunks (\<^verbatim>\<open>document.rs\<close>, \<^verbatim>\<open>tokens.rs\<close>,
  \<^verbatim>\<open>capabilities.rs\<close>, \<^verbatim>\<open>chunk.rs\<close>); Prompt and Sha256 the system prompt and its hash (\<^verbatim>\<open>prompt.rs\<close>, \<^verbatim>\<open>hash.rs\<close>); Summary_Response requests,
  answers, citations and coverage (\<^verbatim>\<open>adapter.rs\<close>, \<^verbatim>\<open>error.rs\<close>, \<^verbatim>\<open>coverage.rs\<close>); Evidence the validator (\<^verbatim>\<open>schema.rs\<close>, \<^verbatim>\<open>validate.rs\<close>);
  Summary_Pipeline the run (\<^verbatim>\<open>pipeline.rs\<close>, \<^verbatim>\<open>note_context.rs\<close>). Shown: evidence ids do not depend on the order of arrival; packing ends, keeps turns whole and
  covers every segment once; a template cannot leave its delimiters; the hash is SHA-256 of FIPS 180-4; a run sends only acceptable requests,
  ends, and asks both questions of the whole transcript; what survives validation is supported by the cited
  text. The loop that shrinks chunks halves its budget, so it ends by a measure and needs no fuel. Token counts are unbounded natural numbers, as no estimate
  the code can compute from a transcript in memory comes near 64 bits; products with fractional factors are parameters.

  \<^bold>\<open>Not modelled.\<close> Floating-point code (level meters, echo cancellation, resampling, the application of jitter, prices) is left
  out, since its claims are about rounding or sound. Code whose behaviour is that of a third-party engine is left out or is a parameter:
  CoreAudio and AppKit, SQLCipher with the library and its exports, the keychain and its cryptography, Opus, HTTP servers and
  clients, sockets, JSON, Unicode tables, neural models and the Swift helper. The threads, channels and timers that
  connect the components (\<^verbatim>\<open>fotwd/src/session.rs\<close>, \<^verbatim>\<open>main.rs\<close>, \<^verbatim>\<open>failover/stream.rs\<close>, the helper client) are left out: the components are
  modelled for every order in which they may be called instead. File locks belong to the operating system. Sentences that only format text for a reader
  (Display and Debug implementations, user messages with rounded seconds) are left out except where a state keeps them. The
  command line, templates and titles, the second transcription pass and the evaluation tools are not modelled.
\<close>

end
